theory Spec2Isabelle
  imports Main "HOL-Library.Word"
begin

section \<open>StreamShred: data model\<close>

text \<open>
  Shallow embedding of \<^verbatim>\<open>src/tools/StreamShred.py\<close>. Python integers are
  \<^typ>\<open>int\<close>, bytes are 8-bit words, \<^verbatim>\<open>bytes\<close> and \<^verbatim>\<open>bytearray\<close> values are
  lists of bytes. Every function that touches the file system, the console or the
  \<^verbatim>\<open>secrets\<close> module takes the world and returns the new one next to its result; an
  exception is the \<open>Inl\<close> side of the result.
\<close>

type_synonym byte = "8 word"

text \<open>A \<^verbatim>\<open>pathlib.Path\<close>: the directory part and the final component.\<close>

datatype Path = Path (parent: string) (name: string)

datatype node = File "byte list" | Dir | Symlink Path

text \<open>The system calls the program issues, in the order it issues them.\<close>

datatype event =
    Stat Path
  | Open Path
  | Seek Path int
  | Write Path int nat
  | Read Path int int
  | Flush Path
  | Fsync Path
  | Fadvise Path
  | FsyncDir string
  | Rename Path Path
  | Truncate Path
  | Unlink Path

datatype runtime_msg =
    RefusingSymlink Path
  | CaptureFailed
  | VerificationMismatch int nat int

datatype error =
    FileNotFoundError Path
  | IsADirectoryError Path
  | NotADirectoryError Path
  | RuntimeError runtime_msg
  | ValueError string
  | IndexError
  | EOFError
  | OSError event

text \<open>
  The mutable world: the directory entries with the file contents, the number of random
  values drawn so far, and the log of the system calls attempted so far.
\<close>

record world =
  fs :: "Path \<rightharpoonup> node"
  rpos :: nat
  trace :: "event list"

text \<open>
  What the program does not control: the operating system's entropy (\<open>entropy k\<close> is
  the \<open>k\<close>-th raw value it hands out), which system calls fail (given the calls made
  so far), what the storage device hands back when a file holding the given bytes is
  read (the bytes themselves on a sound device), and what the operator types at the
  prompt (\<open>None\<close> is end of input).
\<close>

record env =
  entropy :: "nat \<Rightarrow> nat"
  fault :: "event list \<Rightarrow> event \<Rightarrow> bool"
  device :: "byte list \<Rightarrow> byte list"
  answer :: "string option"

type_synonym 'a result = "(error + 'a) \<times> world"

section \<open>The \<^verbatim>\<open>secrets\<close> module\<close>

text \<open>
  \<^verbatim>\<open>secrets.token_bytes(n)\<close>: \<open>n\<close> fresh bytes; a negative \<open>n\<close> raises ValueError.
\<close>

definition token_bytes :: "env \<Rightarrow> int \<Rightarrow> world \<Rightarrow> (byte list) result" where
  "token_bytes env n w =
     (if n < 0 then (Inl (ValueError ''negative argument not allowed''), w)
      else (Inr (map (\<lambda>k. of_nat (entropy env k)) [rpos w ..< rpos w + nat n]),
            w\<lparr>rpos := rpos w + nat n\<rparr>))"

text \<open>
  \<^verbatim>\<open>secrets.randbelow(k)\<close>: some integer in \<open>[0, k)\<close>; \<open>k \<le> 0\<close> raises ValueError.
\<close>

definition randbelow :: "env \<Rightarrow> int \<Rightarrow> world \<Rightarrow> int result" where
  "randbelow env k w =
     (if k \<le> 0 then (Inl (ValueError ''Upper bound must be positive.''), w)
      else (Inr (int (entropy env (rpos w)) mod k), w\<lparr>rpos := Suc (rpos w)\<rparr>))"

definition hex_digit :: "nat \<Rightarrow> char" where
  "hex_digit d = ''0123456789abcdef'' ! (d mod 16)"

definition hexlify :: "byte list \<Rightarrow> string" where
  "hexlify bs = concat (map (\<lambda>b. [hex_digit (unat b div 16), hex_digit (unat b mod 16)]) bs)"

text \<open>\<^verbatim>\<open>secrets.token_hex(n)\<close> is the hexadecimal text of \<^verbatim>\<open>token_bytes(n)\<close>.\<close>

definition token_hex :: "env \<Rightarrow> int \<Rightarrow> world \<Rightarrow> string result" where
  "token_hex env n w =
     (case token_bytes env n w of
        (Inl e, w') \<Rightarrow> (Inl e, w')
      | (Inr bs, w') \<Rightarrow> (Inr (hexlify bs), w'))"

definition rand_name_hex :: "env \<Rightarrow> int \<Rightarrow> world \<Rightarrow> string result" where
  "rand_name_hex env nbytes w = token_hex env nbytes w"

section \<open>Python slices\<close>

text \<open>
  A slice bound: a negative bound counts from the end, and the result is clipped to
  \<open>[0, len]\<close>. Slicing never raises.
\<close>

definition slice_bound :: "int \<Rightarrow> nat \<Rightarrow> nat" where
  "slice_bound i n =
     (let j = (if i < 0 then i + int n else i)
      in if j < 0 then 0 else if int n < j then n else nat j)"

text \<open>\<^verbatim>\<open>xs[a:b]\<close>\<close>

definition get_slice :: "'a list \<Rightarrow> int \<Rightarrow> int \<Rightarrow> 'a list" where
  "get_slice xs a b =
     (let lo = slice_bound a (length xs); hi = slice_bound b (length xs)
      in take (hi - lo) (drop lo xs))"

text \<open>
  \<^verbatim>\<open>xs[a:b] = ys\<close> on a bytearray: the elements \<open>lo ..< max lo hi\<close> are replaced by
  \<open>ys\<close>, whatever the length of \<open>ys\<close>.
\<close>

definition slice_assign :: "'a list \<Rightarrow> int \<Rightarrow> int \<Rightarrow> 'a list \<Rightarrow> 'a list" where
  "slice_assign xs a b ys =
     (let lo = slice_bound a (length xs); hi = max lo (slice_bound b (length xs))
      in take lo xs @ ys @ drop hi xs)"

text \<open>\<^verbatim>\<open>b"\x01" * k\<close>: empty for \<open>k \<le> 0\<close>.\<close>

definition bytes_times :: "byte list \<Rightarrow> int \<Rightarrow> byte list" where
  "bytes_times bs k = concat (replicate (nat k) bs)"

section \<open>Verification sampling\<close>

record Sample =
  offset :: int
  length_bytes :: int

fun sample_loop ::
  "env \<Rightarrow> int \<Rightarrow> int \<Rightarrow> nat \<Rightarrow> Sample list \<Rightarrow> world \<Rightarrow> (Sample list) result" where
  "sample_loop env file_size sample_len 0 samples w = (Inr samples, w)"
| "sample_loop env file_size sample_len (Suc n) samples w =
     (case randbelow env (file_size - sample_len + 1) w of
        (Inl e, w') \<Rightarrow> (Inl e, w')
      | (Inr start, w') \<Rightarrow>
          sample_loop env file_size sample_len n
            (samples @ [\<lparr>offset = start, length_bytes = sample_len\<rparr>]) w')"

definition choose_samples :: "env \<Rightarrow> int \<Rightarrow> int \<Rightarrow> int \<Rightarrow> world \<Rightarrow> (Sample list) result" where
  "choose_samples env file_size sample_count sample_len w =
     (if file_size \<le> 0 \<or> sample_count \<le> 0 \<or> sample_len \<le> 0 then (Inr [], w)
      else sample_loop env file_size (min sample_len file_size) (nat sample_count) [] w)"

text \<open>
  \<^verbatim>\<open>capture_expected_from_chunk\<close>. The loop runs over \<^verbatim>\<open>enumerate(samples)\<close>; \<open>i\<close> is
  the index of the head of the remaining samples. The buffers \<^verbatim>\<open>expected[i]\<close> and
  \<^verbatim>\<open>filled[i]\<close> are separate objects (the caller builds each with its own
  \<^verbatim>\<open>bytearray(...)\<close>), so they are lists of values here; indexing past the end of
  either list raises IndexError.
\<close>

fun capture_loop ::
  "Sample list \<Rightarrow> nat \<Rightarrow> byte list list \<Rightarrow> byte list list \<Rightarrow> byte list \<Rightarrow> int
     \<Rightarrow> error + (byte list list \<times> byte list list)" where
  "capture_loop [] i expected filled chunk_data chunk_start = Inr (expected, filled)"
| "capture_loop (s # ss) i expected filled chunk_data chunk_start =
     (let chunk_end = chunk_start + int (length chunk_data);
          s_start = offset s;
          s_end = offset s + length_bytes s
      in if s_end \<le> chunk_start \<or> chunk_end \<le> s_start
         then capture_loop ss (Suc i) expected filled chunk_data chunk_start
         else
           let overlap_start = max s_start chunk_start;
               overlap_end = min s_end chunk_end;
               sample_i0 = overlap_start - s_start;
               sample_i1 = overlap_end - s_start;
               chunk_i0 = overlap_start - chunk_start;
               chunk_i1 = overlap_end - chunk_start
           in if length expected \<le> i then Inl IndexError
              else
                let expected' = expected[i := slice_assign (expected ! i) sample_i0 sample_i1
                                               (get_slice chunk_data chunk_i0 chunk_i1)]
                in if length filled \<le> i then Inl IndexError
                   else
                     let filled' = filled[i := slice_assign (filled ! i) sample_i0 sample_i1
                                                (bytes_times [1] (sample_i1 - sample_i0))]
                     in capture_loop ss (Suc i) expected' filled' chunk_data chunk_start)"

definition capture_expected_from_chunk ::
  "Sample list \<Rightarrow> byte list list \<Rightarrow> byte list list \<Rightarrow> byte list \<Rightarrow> int
     \<Rightarrow> error + (byte list list \<times> byte list list)" where
  "capture_expected_from_chunk samples expected filled chunk_data chunk_start =
     capture_loop samples 0 expected filled chunk_data chunk_start"

definition all_filled :: "byte list \<Rightarrow> bool" where
  "all_filled m = list_all (\<lambda>b. b = 1) m"

section \<open>The file system\<close>

text \<open>
  The calls of \<^verbatim>\<open>os\<close>, \<^verbatim>\<open>pathlib\<close> and of the file object, with POSIX behaviour. Hard
  links are not modelled: every path has its own contents. A call that can raise into
  the program is logged in the trace and fails with \<open>OSError\<close> when the environment
  says so, before it changes anything.
\<close>

definition syscall :: "env \<Rightarrow> event \<Rightarrow> world \<Rightarrow> unit result" where
  "syscall env ev w =
     (if fault env (trace w) ev then (Inl (OSError ev), w\<lparr>trace := trace w @ [ev]\<rparr>)
      else (Inr (), w\<lparr>trace := trace w @ [ev]\<rparr>))"

text \<open>Following symbolic links, as \<^verbatim>\<open>stat\<close> and \<^verbatim>\<open>open\<close> do, at most 40 of them.\<close>

fun follow :: "nat \<Rightarrow> (Path \<rightharpoonup> node) \<Rightarrow> Path \<Rightarrow> Path option" where
  "follow 0 m p = None"
| "follow (Suc n) m p =
     (case m p of
        None \<Rightarrow> None
      | Some (Symlink q) \<Rightarrow> follow n m q
      | Some _ \<Rightarrow> Some p)"

definition resolve :: "(Path \<rightharpoonup> node) \<Rightarrow> Path \<Rightarrow> Path option" where
  "resolve m p = follow 40 m p"

text \<open>\<^verbatim>\<open>Path.exists()\<close> and \<^verbatim>\<open>Path.is_dir()\<close> follow symbolic links; \<^verbatim>\<open>Path.is_symlink()\<close>
  looks at the entry itself. None of them raises for a missing entry.\<close>

definition path_exists :: "world \<Rightarrow> Path \<Rightarrow> bool" where
  "path_exists w p = (resolve (fs w) p \<noteq> None)"

definition is_dir :: "world \<Rightarrow> Path \<Rightarrow> bool" where
  "is_dir w p = (case resolve (fs w) p of None \<Rightarrow> False | Some q \<Rightarrow> fs w q = Some Dir)"

definition is_symlink :: "world \<Rightarrow> Path \<Rightarrow> bool" where
  "is_symlink w p = (case fs w p of Some (Symlink q) \<Rightarrow> True | _ \<Rightarrow> False)"

text \<open>The size a directory reports is of no interest to the program; it is not zero.\<close>

definition dir_st_size :: int where
  "dir_st_size = 4096"

text \<open>\<^verbatim>\<open>path.stat().st_size\<close>\<close>

definition path_stat_size :: "env \<Rightarrow> Path \<Rightarrow> world \<Rightarrow> int result" where
  "path_stat_size env p w =
     (case syscall env (Stat p) w of
        (Inl e, w') \<Rightarrow> (Inl e, w')
      | (Inr u, w') \<Rightarrow>
          (case resolve (fs w') p of
             None \<Rightarrow> (Inl (FileNotFoundError p), w')
           | Some q \<Rightarrow>
               (case fs w' q of
                  Some (File bs) \<Rightarrow> (Inr (int (length bs)), w')
                | _ \<Rightarrow> (Inr dir_st_size, w'))))"

text \<open>
  \<^verbatim>\<open>open(path, "r+b", buffering=0)\<close>: the file must exist and be a regular file. The
  file object is the path of the file it is open on; the program renames nothing while
  a file is open.
\<close>

definition open_rw :: "env \<Rightarrow> Path \<Rightarrow> world \<Rightarrow> Path result" where
  "open_rw env p w =
     (case syscall env (Open p) w of
        (Inl e, w') \<Rightarrow> (Inl e, w')
      | (Inr u, w') \<Rightarrow>
          (case resolve (fs w') p of
             None \<Rightarrow> (Inl (FileNotFoundError p), w')
           | Some q \<Rightarrow>
               (case fs w' q of
                  Some (File bs) \<Rightarrow> (Inr q, w')
                | _ \<Rightarrow> (Inl (IsADirectoryError p), w'))))"

text \<open>\<^verbatim>\<open>f.seek(pos)\<close>: a negative position is refused.\<close>

definition file_seek :: "env \<Rightarrow> Path \<Rightarrow> int \<Rightarrow> world \<Rightarrow> int result" where
  "file_seek env f pos w =
     (case syscall env (Seek f pos) w of
        (Inl e, w') \<Rightarrow> (Inl e, w')
      | (Inr u, w') \<Rightarrow> if pos < 0 then (Inl (OSError (Seek f pos)), w') else (Inr pos, w'))"

text \<open>Writing \<open>data\<close> at position \<open>pos\<close>: a gap past the end is filled with zeros.\<close>

definition write_at :: "byte list \<Rightarrow> nat \<Rightarrow> byte list \<Rightarrow> byte list" where
  "write_at bs pos data =
     take pos bs @ replicate (pos - length bs) 0 @ data @ drop (pos + length data) bs"

text \<open>\<^verbatim>\<open>f.write(data)\<close> with the file position at \<open>pos\<close>.\<close>

definition file_write :: "env \<Rightarrow> Path \<Rightarrow> int \<Rightarrow> byte list \<Rightarrow> world \<Rightarrow> unit result" where
  "file_write env f pos data w =
     (case syscall env (Write f pos (length data)) w of
        (Inl e, w') \<Rightarrow> (Inl e, w')
      | (Inr u, w') \<Rightarrow>
          (case fs w' f of
             Some (File bs) \<Rightarrow>
               (Inr (), w'\<lparr>fs := (fs w')(f \<mapsto> File (write_at bs (nat pos) data))\<rparr>)
           | _ \<Rightarrow> (Inl (OSError (Write f pos (length data))), w')))"

text \<open>\<^verbatim>\<open>f.read(n)\<close> with the file position at \<open>pos\<close>: at most \<open>n\<close> bytes, fewer at the end
  of the file, of what the device hands back.\<close>

definition file_read :: "env \<Rightarrow> Path \<Rightarrow> int \<Rightarrow> int \<Rightarrow> world \<Rightarrow> (byte list) result" where
  "file_read env f pos n w =
     (case syscall env (Read f pos n) w of
        (Inl e, w') \<Rightarrow> (Inl e, w')
      | (Inr u, w') \<Rightarrow>
          (case fs w' f of
             Some (File bs) \<Rightarrow>
               (Inr (if n < 0 then drop (nat pos) (device env bs)
                     else take (nat n) (drop (nat pos) (device env bs))), w')
           | _ \<Rightarrow> (Inl (OSError (Read f pos n)), w')))"

definition file_flush :: "env \<Rightarrow> Path \<Rightarrow> world \<Rightarrow> unit result" where
  "file_flush env f w = syscall env (Flush f) w"

definition os_fsync :: "env \<Rightarrow> Path \<Rightarrow> world \<Rightarrow> unit result" where
  "os_fsync env f w = syscall env (Fsync f) w"

text \<open>\<^verbatim>\<open>f.truncate(size)\<close>\<close>

definition file_truncate :: "env \<Rightarrow> Path \<Rightarrow> int \<Rightarrow> world \<Rightarrow> unit result" where
  "file_truncate env f new_size w =
     (case syscall env (Truncate f) w of
        (Inl e, w') \<Rightarrow> (Inl e, w')
      | (Inr u, w') \<Rightarrow>
          (case fs w' f of
             Some (File bs) \<Rightarrow>
               (Inr (), w'\<lparr>fs := (fs w')(f \<mapsto> File (take (nat new_size) bs
                                        @ replicate (nat new_size - length bs) 0))\<rparr>)
           | _ \<Rightarrow> (Inl (OSError (Truncate f)), w')))"

text \<open>
  \<^verbatim>\<open>Path.rename(target)\<close>, that is \<^verbatim>\<open>rename(2)\<close>: the entry itself moves (a symbolic link is
  not followed), an existing target is replaced, a file cannot replace a directory nor
  a directory a file, and renaming a path to itself changes nothing.
\<close>

definition path_rename :: "env \<Rightarrow> Path \<Rightarrow> Path \<Rightarrow> world \<Rightarrow> unit result" where
  "path_rename env src dst w =
     (case syscall env (Rename src dst) w of
        (Inl e, w') \<Rightarrow> (Inl e, w')
      | (Inr u, w') \<Rightarrow>
          (case fs w' src of
             None \<Rightarrow> (Inl (FileNotFoundError src), w')
           | Some nd \<Rightarrow>
               if src = dst then (Inr (), w')
               else if fs w' dst = Some Dir \<and> nd \<noteq> Dir then (Inl (IsADirectoryError dst), w')
               else if fs w' dst \<noteq> None \<and> fs w' dst \<noteq> Some Dir \<and> nd = Dir
                 then (Inl (NotADirectoryError dst), w')
               else (Inr (), w'\<lparr>fs := (fs w')(src := None, dst \<mapsto> nd)\<rparr>)))"

text \<open>\<^verbatim>\<open>Path.unlink()\<close>\<close>

definition path_unlink :: "env \<Rightarrow> Path \<Rightarrow> world \<Rightarrow> unit result" where
  "path_unlink env p w =
     (case syscall env (Unlink p) w of
        (Inl e, w') \<Rightarrow> (Inl e, w')
      | (Inr u, w') \<Rightarrow>
          (case fs w' p of
             None \<Rightarrow> (Inl (FileNotFoundError p), w')
           | Some Dir \<Rightarrow> (Inl (IsADirectoryError p), w')
           | Some _ \<Rightarrow> (Inr (), w'\<lparr>fs := (fs w')(p := None)\<rparr>)))"

text \<open>
  \<^verbatim>\<open>Path.with_name(name)\<close>: same directory, new final component. It raises ValueError
  when the path has no final component or the new name is empty or holds a separator.
\<close>

definition with_name :: "Path \<Rightarrow> string \<Rightarrow> error + Path" where
  "with_name p n =
     (if name p = [] then Inl (ValueError ''path has an empty name'')
      else if n = [] \<or> CHR ''/'' \<in> set n then Inl (ValueError ''Invalid name'')
      else Inr (Path (parent p) n))"

section \<open>Helpers: fsync and cache hints\<close>

text \<open>
  Both helpers swallow every exception, so all they leave is the call in the trace.
\<close>

definition fsync_dir_best_effort :: "string \<Rightarrow> world \<Rightarrow> world" where
  "fsync_dir_best_effort directory w = w\<lparr>trace := trace w @ [FsyncDir directory]\<rparr>"

definition linux_drop_page_cache_best_effort :: "Path \<Rightarrow> int \<Rightarrow> world \<Rightarrow> world" where
  "linux_drop_page_cache_best_effort fd file_size w = w\<lparr>trace := trace w @ [Fadvise fd]\<rparr>"

section \<open>Core overwrite and delete\<close>

definition build_pass_count :: "env \<Rightarrow> int \<Rightarrow> int \<Rightarrow> bool \<Rightarrow> world \<Rightarrow> int result" where
  "build_pass_count env min_passes max_passes randomize w =
     (if min_passes < 1 \<or> max_passes < min_passes
      then (Inl (ValueError ''Invalid pass bounds''), w)
      else if \<not> randomize \<or> min_passes = max_passes then (Inr min_passes, w)
      else (case randbelow env (max_passes - min_passes + 1) w of
              (Inl e, w') \<Rightarrow> (Inl e, w')
            | (Inr r, w') \<Rightarrow> (Inr (min_passes + r), w')))"

text \<open>\<^verbatim>\<open>bytearray(n)\<close>: \<open>n\<close> zero bytes; a negative count raises ValueError.\<close>

definition bytearray :: "int \<Rightarrow> error + byte list" where
  "bytearray n = (if n < 0 then Inl (ValueError ''negative count'') else Inr (replicate (nat n) 0))"

text \<open>\<^verbatim>\<open>[bytearray(s.length) for s in samples]\<close>\<close>

fun bytearrays :: "Sample list \<Rightarrow> error + byte list list" where
  "bytearrays [] = Inr []"
| "bytearrays (s # ss) =
     (case bytearray (length_bytes s) of
        Inl e \<Rightarrow> Inl e
      | Inr b \<Rightarrow> (case bytearrays ss of Inl e \<Rightarrow> Inl e | Inr bs \<Rightarrow> Inr (b # bs)))"

text \<open>
  The streaming loop of one pass, \<^verbatim>\<open>while written < size\<close>. The file position is
  \<open>written\<close>: the pass seeks to 0 and only this loop writes. With a chunk size of 0 the
  loop never ends, which is the value \<open>None\<close>.
\<close>

partial_function (option) stream_loop ::
  "env \<Rightarrow> Path \<Rightarrow> int \<Rightarrow> int \<Rightarrow> bool \<Rightarrow> Sample list \<Rightarrow> byte list list \<Rightarrow> byte list list
     \<Rightarrow> int \<Rightarrow> world \<Rightarrow> ((byte list list \<times> byte list list) result) option" where
  "stream_loop env f fsize chunk_size verify samples expected filled written w =
     (if written < fsize then
        (case token_bytes env (min chunk_size (fsize - written)) w of
           (Inl e, w1) \<Rightarrow> Some (Inl e, w1)
         | (Inr data, w1) \<Rightarrow>
             (case (if verify \<and> samples \<noteq> []
                    then capture_expected_from_chunk samples expected filled data written
                    else Inr (expected, filled)) of
                Inl e \<Rightarrow> Some (Inl e, w1)
              | Inr (expected', filled') \<Rightarrow>
                  (case file_write env f written data w1 of
                     (Inl e, w2) \<Rightarrow> Some (Inl e, w2)
                   | (Inr u, w2) \<Rightarrow>
                       stream_loop env f fsize chunk_size verify samples expected' filled'
                         (written + min chunk_size (fsize - written)) w2)))
      else Some (Inr (expected, filled), w))"

declare stream_loop.simps [code]

text \<open>The read-back loop over \<^verbatim>\<open>enumerate(samples)\<close>; the message counts samples from 1.\<close>

fun readback_loop ::
  "env \<Rightarrow> Path \<Rightarrow> int \<Rightarrow> Sample list \<Rightarrow> nat \<Rightarrow> byte list list \<Rightarrow> world \<Rightarrow> unit result" where
  "readback_loop env f p [] i expected w = (Inr (), w)"
| "readback_loop env f p (s # ss) i expected w =
     (case file_seek env f (offset s) w of
        (Inl e, w1) \<Rightarrow> (Inl e, w1)
      | (Inr pos, w1) \<Rightarrow>
          (case file_read env f pos (length_bytes s) w1 of
             (Inl e, w2) \<Rightarrow> (Inl e, w2)
           | (Inr got, w2) \<Rightarrow>
               if length expected \<le> i then (Inl IndexError, w2)
               else if got \<noteq> expected ! i
                 then (Inl (RuntimeError (VerificationMismatch p (i + 1) (offset s))), w2)
               else readback_loop env f p ss (Suc i) expected w2))"

text \<open>The block \<^verbatim>\<open>if verify and samples:\<close> that follows the sync of a pass.\<close>

definition verify_pass ::
  "env \<Rightarrow> Path \<Rightarrow> int \<Rightarrow> int \<Rightarrow> bool \<Rightarrow> Sample list \<Rightarrow> byte list list \<Rightarrow> byte list list
     \<Rightarrow> world \<Rightarrow> unit result" where
  "verify_pass env f fsize p drop_cache_linux samples expected filled w =
     (if \<not> list_all all_filled filled then (Inl (RuntimeError CaptureFailed), w)
      else (case readback_loop env f p samples 0 expected w of
              (Inl e, w1) \<Rightarrow> (Inl e, w1)
            | (Inr u, w1) \<Rightarrow>
                (Inr (), if drop_cache_linux then linux_drop_page_cache_best_effort f fsize w1
                         else w1)))"

text \<open>The body of \<^verbatim>\<open>for p in range(1, passes + 1)\<close>.\<close>

definition one_pass ::
  "env \<Rightarrow> Path \<Rightarrow> int \<Rightarrow> int \<Rightarrow> bool \<Rightarrow> int \<Rightarrow> int \<Rightarrow> bool \<Rightarrow> int \<Rightarrow> world
     \<Rightarrow> (unit result) option" where
  "one_pass env f fsize chunk_size verify verify_samples verify_len drop_cache_linux p w =
     (case (if verify then choose_samples env fsize verify_samples verify_len w
            else (Inr [], w)) of
        (Inl e, w1) \<Rightarrow> Some (Inl e, w1)
      | (Inr samples, w1) \<Rightarrow>
          (case bytearrays samples of
             Inl e \<Rightarrow> Some (Inl e, w1)
           | Inr expected \<Rightarrow>
               (case file_seek env f 0 w1 of
                  (Inl e, w2) \<Rightarrow> Some (Inl e, w2)
                | (Inr pos, w2) \<Rightarrow>
                    (case stream_loop env f fsize chunk_size verify samples expected
                            (map (\<lambda>s. bytes_times [0] (length_bytes s)) samples) pos w2 of
                       None \<Rightarrow> None
                     | Some (Inl e, w3) \<Rightarrow> Some (Inl e, w3)
                     | Some (Inr (expected', filled'), w3) \<Rightarrow>
                         (case file_flush env f w3 of
                            (Inl e, w4) \<Rightarrow> Some (Inl e, w4)
                          | (Inr u, w4) \<Rightarrow>
                              (case os_fsync env f w4 of
                                 (Inl e, w5) \<Rightarrow> Some (Inl e, w5)
                               | (Inr u, w5) \<Rightarrow>
                                   (if verify \<and> samples \<noteq> []
                                    then Some (verify_pass env f fsize p drop_cache_linux samples
                                                 expected' filled'
                                                 (if drop_cache_linux
                                                  then linux_drop_page_cache_best_effort f fsize w5
                                                  else w5))
                                    else Some (Inr (),
                                                 if drop_cache_linux
                                                 then linux_drop_page_cache_best_effort f fsize w5
                                                 else w5))))))))"

fun pass_loop ::
  "env \<Rightarrow> Path \<Rightarrow> int \<Rightarrow> int \<Rightarrow> bool \<Rightarrow> int \<Rightarrow> int \<Rightarrow> bool \<Rightarrow> int list \<Rightarrow> world
     \<Rightarrow> (unit result) option" where
  "pass_loop env f fsize chunk_size verify verify_samples verify_len drop_cache_linux [] w =
     Some (Inr (), w)"
| "pass_loop env f fsize chunk_size verify verify_samples verify_len drop_cache_linux (p # ps) w =
     (case one_pass env f fsize chunk_size verify verify_samples verify_len drop_cache_linux p w of
        None \<Rightarrow> None
      | Some (Inl e, w') \<Rightarrow> Some (Inl e, w')
      | Some (Inr u, w') \<Rightarrow>
          pass_loop env f fsize chunk_size verify verify_samples verify_len drop_cache_linux ps w')"

definition overwrite_random_streaming ::
  "env \<Rightarrow> Path \<Rightarrow> int \<Rightarrow> int \<Rightarrow> bool \<Rightarrow> int \<Rightarrow> int \<Rightarrow> bool \<Rightarrow> world \<Rightarrow> (unit result) option" where
  "overwrite_random_streaming env path passes chunk_size verify verify_samples verify_len
       drop_cache_linux w =
     (case path_stat_size env path w of
        (Inl e, w1) \<Rightarrow> Some (Inl e, w1)
      | (Inr fsize, w1) \<Rightarrow>
          if fsize = 0 then Some (Inr (), w1)
          else (case open_rw env path w1 of
                  (Inl e, w2) \<Rightarrow> Some (Inl e, w2)
                | (Inr f, w2) \<Rightarrow>
                    pass_loop env f fsize chunk_size verify verify_samples verify_len
                      drop_cache_linux [1 .. passes] w2))"

text \<open>
  One rename pass looks for a free name: \<^verbatim>\<open>while candidate.exists() and tries < 10\<close>.
\<close>

function candidate_loop :: "env \<Rightarrow> Path \<Rightarrow> Path \<Rightarrow> nat \<Rightarrow> world \<Rightarrow> Path result" where
  "candidate_loop env current candidate tries w =
     (if path_exists w candidate \<and> tries < 10 then
        (case rand_name_hex env 16 w of
           (Inl e, w') \<Rightarrow> (Inl e, w')
         | (Inr new_name, w') \<Rightarrow>
             (case with_name current new_name of
                Inl e \<Rightarrow> (Inl e, w')
              | Inr candidate' \<Rightarrow> candidate_loop env current candidate' (tries + 1) w'))
      else (Inr candidate, w))"
  by pat_completeness auto
termination
  by (relation "measure (\<lambda>(env, current, candidate, tries, w). 10 - tries)") auto

declare candidate_loop.simps [simp del]

text \<open>The body of \<^verbatim>\<open>for _ in range(max(0, rename_passes))\<close>; it returns the new \<^verbatim>\<open>current\<close>.\<close>

definition rename_once :: "env \<Rightarrow> Path \<Rightarrow> world \<Rightarrow> Path result" where
  "rename_once env current w =
     (case rand_name_hex env 16 w of
        (Inl e, w1) \<Rightarrow> (Inl e, w1)
      | (Inr new_name, w1) \<Rightarrow>
          (case with_name current new_name of
             Inl e \<Rightarrow> (Inl e, w1)
           | Inr candidate \<Rightarrow>
               (case candidate_loop env current candidate 0 w1 of
                  (Inl e, w2) \<Rightarrow> (Inl e, w2)
                | (Inr candidate', w2) \<Rightarrow>
                    (case path_rename env current candidate' w2 of
                       (Inl e, w3) \<Rightarrow> (Inl e, w3)
                     | (Inr u, w3) \<Rightarrow>
                         (Inr candidate', fsync_dir_best_effort (parent candidate') w3)))))"

fun rename_loop :: "env \<Rightarrow> nat \<Rightarrow> Path \<Rightarrow> world \<Rightarrow> Path result" where
  "rename_loop env 0 current w = (Inr current, w)"
| "rename_loop env (Suc n) current w =
     (case rename_once env current w of
        (Inl e, w') \<Rightarrow> (Inl e, w')
      | (Inr current', w') \<Rightarrow> rename_loop env n current' w')"

text \<open>
  The \<^verbatim>\<open>try: ... except Exception: pass\<close> block: open, truncate to zero, flush, sync; the
  first exception ends the block and is dropped.
\<close>

definition truncate_best_effort :: "env \<Rightarrow> Path \<Rightarrow> world \<Rightarrow> world" where
  "truncate_best_effort env current w =
     (case open_rw env current w of
        (Inl e, w1) \<Rightarrow> w1
      | (Inr f, w1) \<Rightarrow>
          (case file_truncate env f 0 w1 of
             (Inl e, w2) \<Rightarrow> w2
           | (Inr u, w2) \<Rightarrow>
               (case file_flush env f w2 of
                  (Inl e, w3) \<Rightarrow> w3
                | (Inr u, w3) \<Rightarrow> snd (os_fsync env f w3))))"

definition rename_truncate_unlink :: "env \<Rightarrow> Path \<Rightarrow> int \<Rightarrow> bool \<Rightarrow> world \<Rightarrow> Path result" where
  "rename_truncate_unlink env path rename_passes keep w =
     (case rename_loop env (nat (max 0 rename_passes)) path w of
        (Inl e, w1) \<Rightarrow> (Inl e, w1)
      | (Inr current, w1) \<Rightarrow>
          (let w2 = truncate_best_effort env current w1
           in if keep then (Inr current, fsync_dir_best_effort (parent current) w2)
              else (case path_unlink env current w2 of
                      (Inl e, w3) \<Rightarrow> (Inl e, w3)
                    | (Inr u, w3) \<Rightarrow> (Inr current, fsync_dir_best_effort (parent current) w3))))"

text \<open>\<^verbatim>\<open>str.strip()\<close>, on ASCII white space.\<close>

definition isspace :: "char \<Rightarrow> bool" where
  "isspace c = (of_char c \<in> {9, 10, 11, 12, 13, 28, 29, 30, 31, 32 :: nat})"

definition strip :: "string \<Rightarrow> string" where
  "strip s = rev (dropWhile isspace (rev (dropWhile isspace s)))"

text \<open>\<^verbatim>\<open>input(...).strip() != "YES"\<close>: whether the operator declined.\<close>

definition declined :: "env \<Rightarrow> error + bool" where
  "declined env = (case answer env of None \<Rightarrow> Inl EOFError | Some s \<Rightarrow> Inr (strip s \<noteq> ''YES''))"

definition wipe_file ::
  "env \<Rightarrow> Path \<Rightarrow> int \<Rightarrow> int \<Rightarrow> bool \<Rightarrow> int \<Rightarrow> bool \<Rightarrow> int \<Rightarrow> int \<Rightarrow> int \<Rightarrow> bool \<Rightarrow> bool \<Rightarrow> bool
     \<Rightarrow> world \<Rightarrow> (unit result) option" where
  "wipe_file env file_path min_passes max_passes randomize_pass_count chunk_size verify
       verify_samples verify_len rename_passes drop_cache_linux force keep w =
     (if \<not> path_exists w file_path then Some (Inl (FileNotFoundError file_path), w)
      else if is_dir w file_path then Some (Inl (IsADirectoryError file_path), w)
      else if is_symlink w file_path then Some (Inl (RuntimeError (RefusingSymlink file_path)), w)
      else
        (case (if \<not> force then declined env else Inr False) of
           Inl e \<Rightarrow> Some (Inl e, w)
         | Inr True \<Rightarrow> Some (Inr (), w)
         | Inr False \<Rightarrow>
             (case build_pass_count env min_passes max_passes randomize_pass_count w of
                (Inl e, w1) \<Rightarrow> Some (Inl e, w1)
              | (Inr passes, w1) \<Rightarrow>
                  (case path_stat_size env file_path w1 of
                     (Inl e, w2) \<Rightarrow> Some (Inl e, w2)
                   | (Inr fsize, w2) \<Rightarrow>
                       (case (if 0 < fsize
                              then overwrite_random_streaming env file_path passes chunk_size
                                     verify verify_samples verify_len drop_cache_linux w2
                              else Some (Inr (), w2)) of
                          None \<Rightarrow> None
                        | Some (Inl e, w3) \<Rightarrow> Some (Inl e, w3)
                        | Some (Inr u, w3) \<Rightarrow>
                            (case rename_truncate_unlink env file_path rename_passes keep w3 of
                               (Inl e, w4) \<Rightarrow> Some (Inl e, w4)
                             | (Inr final_path, w4) \<Rightarrow> Some (Inr (), w4)))))))"

text \<open>
  The parsed command line, \<^verbatim>\<open>args\<close>, and the loop of \<^verbatim>\<open>main\<close> over the targets, with
  the bounds \<^verbatim>\<open>main\<close> puts on the arguments. Any exception of a target sets the exit
  code to 1 and the loop goes on.
\<close>

record args =
  args_min_passes :: int
  args_max_passes :: int
  args_no_randomize_pass_count :: bool
  args_chunk :: int
  args_verify :: bool
  args_verify_samples :: int
  args_verify_len :: int
  args_rename_passes :: int
  args_drop_cache :: bool
  args_keep :: bool
  args_force :: bool

fun main_loop :: "env \<Rightarrow> args \<Rightarrow> Path list \<Rightarrow> int \<Rightarrow> world \<Rightarrow> (int \<times> world) option" where
  "main_loop env a [] exit_code w = Some (exit_code, w)"
| "main_loop env a (t # ts) exit_code w =
     (case wipe_file env t (args_min_passes a) (args_max_passes a)
             (\<not> args_no_randomize_pass_count a) (max 4096 (args_chunk a)) (args_verify a)
             (max 1 (args_verify_samples a)) (max 1 (args_verify_len a))
             (max 0 (args_rename_passes a)) (args_drop_cache a) (args_force a) (args_keep a) w of
        None \<Rightarrow> None
      | Some (Inl e, w') \<Rightarrow> main_loop env a ts 1 w'
      | Some (Inr u, w') \<Rightarrow> main_loop env a ts exit_code w')"

section \<open>Notions used in the statements\<close>

text \<open>
  What \<^verbatim>\<open>capture_expected_from_chunk\<close> does to the buffers of one sample: nothing when
  the chunk misses the sample, the two slice assignments of the loop body otherwise.
\<close>

definition overlaps :: "Sample \<Rightarrow> byte list \<Rightarrow> int \<Rightarrow> bool" where
  "overlaps s chunk_data chunk_start =
     (\<not> (offset s + length_bytes s \<le> chunk_start \<or>
         chunk_start + int (length chunk_data) \<le> offset s))"

definition capture_buf :: "Sample \<Rightarrow> byte list \<Rightarrow> int \<Rightarrow> byte list \<Rightarrow> byte list" where
  "capture_buf s chunk_data chunk_start b =
     (if overlaps s chunk_data chunk_start
      then slice_assign b
             (max (offset s) chunk_start - offset s)
             (min (offset s + length_bytes s) (chunk_start + int (length chunk_data)) - offset s)
             (get_slice chunk_data
                (max (offset s) chunk_start - chunk_start)
                (min (offset s + length_bytes s) (chunk_start + int (length chunk_data)) - chunk_start))
      else b)"

definition capture_mask :: "Sample \<Rightarrow> byte list \<Rightarrow> int \<Rightarrow> byte list \<Rightarrow> byte list" where
  "capture_mask s chunk_data chunk_start b =
     (if overlaps s chunk_data chunk_start
      then slice_assign b
             (max (offset s) chunk_start - offset s)
             (min (offset s + length_bytes s) (chunk_start + int (length chunk_data)) - offset s)
             (bytes_times [1]
                ((min (offset s + length_bytes s) (chunk_start + int (length chunk_data)) - offset s)
                 - (max (offset s) chunk_start - offset s)))
      else b)"

text \<open>
  A sound environment and a small world for running the model: no call fails, the
  device hands back what was written, the operator types YES; one ten-byte file.
\<close>

definition example_env :: env where
  "example_env = \<lparr>entropy = (\<lambda>k. 7 * k + 3), fault = (\<lambda>tr ev. False),
                   device = (\<lambda>bs. bs), answer = Some ''YES''\<rparr>"

definition example_world :: world where
  "example_world = \<lparr>fs = [Path ''/tmp'' ''a.bin'' \<mapsto> File [1, 2, 3, 4, 5, 6, 7, 8, 9, 10]],
                     rpos = 0, trace = []\<rparr>"

text \<open>
  The invariant of the streaming loop on the masks: every mask has the length of its
  sample, and every position of a sample that lies before file offset \<open>written\<close> is
  marked.
\<close>

definition filled_upto :: "Sample list \<Rightarrow> byte list list \<Rightarrow> int \<Rightarrow> bool" where
  "filled_upto samples filled written =
     (length filled = length samples \<and>
      (\<forall>i<length samples.
         length (filled ! i) = nat (length_bytes (samples ! i)) \<and>
         (\<forall>j<length (filled ! i).
            offset (samples ! i) + int j < written \<longrightarrow> filled ! i ! j = 1)))"

text \<open>
  Kinds of calls: the two best-effort hints, whose failure the helpers swallow, and the
  calls of the deletion sequence.
\<close>

fun is_hint :: "event \<Rightarrow> bool" where
  "is_hint (Fadvise f) = True"
| "is_hint (FsyncDir d) = True"
| "is_hint ev = False"

fun is_deletion :: "event \<Rightarrow> bool" where
  "is_deletion (Rename src dst) = True"
| "is_deletion (Truncate f) = True"
| "is_deletion (Unlink p) = True"
| "is_deletion ev = False"

text \<open>
  Two worlds have the same entries: the same paths exist, directories and symbolic
  links are the same, and a regular file is still a regular file (its bytes may
  differ).
\<close>

definition same_kinds :: "world \<Rightarrow> world \<Rightarrow> bool" where
  "same_kinds w w' =
     (\<forall>q. case fs w q of
            None \<Rightarrow> fs w' q = None
          | Some (File bs) \<Rightarrow> (\<exists>bs'. fs w' q = Some (File bs'))
          | Some nd \<Rightarrow> fs w' q = Some nd)"

text \<open>
  What a run from world \<open>w\<close> to the result \<open>rw\<close> did, read off the trace: it issued
  the calls \<open>tr\<close>, all of kind \<open>A\<close>; a call of kind \<open>K\<close> that failed is the last call of
  the run and its \<open>OSError\<close> is the result; a run without a call of the deletion
  sequence leaves the same entries; and a verification mismatch at offset \<open>off\<close> is
  raised right after the read at that offset.
\<close>

definition run ::
  "(event \<Rightarrow> bool) \<Rightarrow> (event \<Rightarrow> bool) \<Rightarrow> env \<Rightarrow> world \<Rightarrow> (error + 'a) \<times> world \<Rightarrow> bool" where
  "run A K env w rw =
     (\<exists>tr. trace (snd rw) = trace w @ tr \<and>
        (\<forall>ev\<in>set tr. A ev) \<and>
        (\<forall>i<length tr. K (tr ! i) \<longrightarrow> fault env (trace w @ take i tr) (tr ! i) \<longrightarrow>
             Suc i = length tr \<and> fst rw = Inl (OSError (tr ! i))) \<and>
        ((\<forall>ev\<in>set tr. \<not> is_deletion ev) \<longrightarrow> same_kinds w (snd rw)) \<and>
        (\<forall>p k off. fst rw = Inl (RuntimeError (VerificationMismatch p k off)) \<longrightarrow>
             tr \<noteq> [] \<and> (\<exists>f n. last tr = Read f off n)))"

definition not_mismatch :: "error + 'a \<Rightarrow> bool" where
  "not_mismatch r = (\<forall>p k off. r \<noteq> Inl (RuntimeError (VerificationMismatch p k off)))"

text \<open>
  The calls whose failure no \<^verbatim>\<open>try\<close> block of the program catches wherever they occur.
  \<^verbatim>\<open>open\<close>, \<^verbatim>\<open>flush\<close> and \<^verbatim>\<open>fsync\<close> are not among them: the deletion sequence issues
  them inside \<^verbatim>\<open>try: ... except Exception: pass\<close>.
\<close>

fun propagating :: "event \<Rightarrow> bool" where
  "propagating (Stat p) = True"
| "propagating (Seek f pos) = True"
| "propagating (Write f pos n) = True"
| "propagating (Read f pos n) = True"
| "propagating (Rename src dst) = True"
| "propagating (Unlink p) = True"
| "propagating ev = False"

fun is_read :: "event \<Rightarrow> bool" where
  "is_read (Read f pos n) = True"
| "is_read ev = False"

text \<open>An environment in which every \<^verbatim>\<open>truncate\<close> call fails and nothing else does.\<close>

fun is_truncate :: "event \<Rightarrow> bool" where
  "is_truncate (Truncate f) = True"
| "is_truncate ev = False"

definition truncate_fails_env :: env where
  "truncate_fails_env = \<lparr>entropy = (\<lambda>k. 7 * k + 3), fault = (\<lambda>tr ev. is_truncate ev),
                          device = (\<lambda>bs. bs), answer = Some ''YES''\<rparr>"

text \<open>An environment in which every \<^verbatim>\<open>write\<close> call fails and nothing else does.\<close>

fun is_write :: "event \<Rightarrow> bool" where
  "is_write (Write f pos n) = True"
| "is_write ev = False"

definition write_fails_env :: env where
  "write_fails_env = \<lparr>entropy = (\<lambda>k. 7 * k + 3), fault = (\<lambda>tr ev. is_write ev),
                       device = (\<lambda>bs. bs), answer = Some ''YES''\<rparr>"

text \<open>
  An environment whose device hands back the first byte of a file changed, and the
  bytes that \<^verbatim>\<open>f.read\<close> returns for a sample of a file that holds \<open>bs\<close>.
\<close>

definition flip_first :: "byte list \<Rightarrow> byte list" where
  "flip_first bs = (case bs of [] \<Rightarrow> [] | b # rest \<Rightarrow> (b + 1) # rest)"

definition bad_device_env :: env where
  "bad_device_env = \<lparr>entropy = (\<lambda>k. 7 * k + 3), fault = (\<lambda>tr ev. False),
                      device = flip_first, answer = Some ''YES''\<rparr>"

definition read_back :: "env \<Rightarrow> byte list \<Rightarrow> Sample \<Rightarrow> byte list" where
  "read_back env bs s =
     (if length_bytes s < 0 then drop (nat (offset s)) (device env bs)
      else take (nat (length_bytes s)) (drop (nat (offset s)) (device env bs)))"

text \<open>A world whose only entry is a symbolic link to a path that does not exist.\<close>

definition dangling_world :: world where
  "dangling_world = \<lparr>fs = [Path ''/tmp'' ''link'' \<mapsto> Symlink (Path ''/tmp'' ''gone'')],
                      rpos = 0, trace = []\<rparr>"

text \<open>
  The calls of \<open>n\<close> rename passes in directory \<open>d\<close>: each pass is one \<^verbatim>\<open>rename\<close> inside
  \<open>d\<close> followed by the directory sync.
\<close>

definition rename_stage :: "string \<Rightarrow> nat \<Rightarrow> event list \<Rightarrow> bool" where
  "rename_stage d n tr =
     (length tr = 2 * n \<and>
      (\<forall>i<n. (\<exists>a b. tr ! (2 * i) = Rename a b \<and> parent a = d \<and> parent b = d) \<and>
             tr ! (2 * i + 1) = FsyncDir d))"

text \<open>A world in which every path names a regular file, so that every candidate collides.\<close>

definition crowded_world :: world where
  "crowded_world = \<lparr>fs = (\<lambda>q. if q = Path ''/tmp'' ''a.bin'' then Some (File [7]) else Some (File [])),
                     rpos = 0, trace = []\<rparr>"


text \<open>An environment whose device hands back the second byte of a file changed.\<close>

definition flip_second :: "byte list \<Rightarrow> byte list" where
  "flip_second bs = (case bs of a # b # rest \<Rightarrow> a # (b + 1) # rest | _ \<Rightarrow> bs)"

definition late_flip_env :: env where
  "late_flip_env = \<lparr>entropy = (\<lambda>k. 7 * k + 3), fault = (\<lambda>tr ev. False),
                     device = flip_second, answer = Some ''YES''\<rparr>"


text \<open>
  The calls of the truncate stage of the deletion sequence, which run inside
  \<^verbatim>\<open>try: ... except Exception: pass\<close>.
\<close>

fun is_truncate_stage :: "event \<Rightarrow> bool" where
  "is_truncate_stage (Open p) = True"
| "is_truncate_stage (Truncate f) = True"
| "is_truncate_stage (Flush f) = True"
| "is_truncate_stage (Fsync f) = True"
| "is_truncate_stage ev = False"

text \<open>
  The errors that a file-system call raises, whether the environment made the call
  fail (\<open>OSError\<close> of the call) or the file system refused it, and the calls that raise
  each of them.
\<close>

fun call_error :: "error \<Rightarrow> bool" where
  "call_error (OSError ev) = True"
| "call_error (FileNotFoundError p) = True"
| "call_error (IsADirectoryError p) = True"
| "call_error (NotADirectoryError p) = True"
| "call_error e = False"

fun raised_by :: "error \<Rightarrow> event \<Rightarrow> bool" where
  "raised_by (OSError ev') ev = (ev' = ev)"
| "raised_by (FileNotFoundError p) (Stat q) = (p = q)"
| "raised_by (FileNotFoundError p) (Open q) = (p = q)"
| "raised_by (FileNotFoundError p) (Rename src dst) = (p = src)"
| "raised_by (FileNotFoundError p) (Unlink q) = (p = q)"
| "raised_by (IsADirectoryError p) (Open q) = (p = q)"
| "raised_by (IsADirectoryError p) (Rename src dst) = (p = dst)"
| "raised_by (IsADirectoryError p) (Unlink q) = (p = q)"
| "raised_by (NotADirectoryError p) (Rename src dst) = (p = dst)"
| "raised_by e ev = False"

text \<open>
  A run from world \<open>w\<close> to the result \<open>rw\<close> only adds calls to the trace, and when it
  ends with the error of a file-system call, that call is one of the run and the last
  call in the trace.
\<close>

definition ends :: "world \<Rightarrow> (error + 'a) \<times> world \<Rightarrow> bool" where
  "ends w rw =
     (length (trace w) \<le> length (trace (snd rw)) \<and>
      (\<forall>e. fst rw = Inl e \<longrightarrow> call_error e \<longrightarrow>
           length (trace w) < length (trace (snd rw)) \<and> raised_by e (last (trace (snd rw)))))"

definition ends_opt :: "world \<Rightarrow> ((error + 'a) \<times> world) option \<Rightarrow> bool" where
  "ends_opt w r = (case r of None \<Rightarrow> True | Some rw \<Rightarrow> ends w rw)"

text \<open>A world in which every path but one names a directory, so that every candidate is one.\<close>

definition dir_crowded_world :: world where
  "dir_crowded_world = \<lparr>fs = (\<lambda>q. if q = Path ''/tmp'' ''a.bin'' then Some (File [7]) else Some Dir),
                         rpos = 0, trace = []\<rparr>"

text \<open>An environment in which every \<^verbatim>\<open>fsync\<close> call fails and nothing else does.\<close>

fun is_fsync :: "event \<Rightarrow> bool" where
  "is_fsync (Fsync f) = True"
| "is_fsync ev = False"

definition fsync_fails_env :: env where
  "fsync_fails_env = \<lparr>entropy = (\<lambda>k. 7 * k + 3), fault = (\<lambda>tr ev. is_fsync ev),
                       device = (\<lambda>bs. bs), answer = Some ''YES''\<rparr>"

section \<open>Sample planner and pass count\<close>

lemma sample_loop_ok:
  "0 < file_size \<Longrightarrow> 0 < sl \<Longrightarrow> sl \<le> file_size \<Longrightarrow>
   \<forall>s\<in>set acc. 0 \<le> offset s \<and> length_bytes s = sl \<and> offset s + length_bytes s \<le> file_size \<Longrightarrow>
   \<exists>xs. sample_loop env file_size sl n acc w = (Inr xs, w\<lparr>rpos := rpos w + n\<rparr>) \<and>
        length xs = length acc + n \<and>
        (\<forall>s\<in>set xs. 0 \<le> offset s \<and> length_bytes s = sl \<and> offset s + length_bytes s \<le> file_size)"
proof (induction n arbitrary: acc w)
  case 0
  then show ?case by fastforce
next
  case (Suc n)
  let ?k = "file_size - sl + 1"
  let ?start = "int (entropy env (rpos w)) mod ?k"
  let ?w' = "w\<lparr>rpos := Suc (rpos w)\<rparr>"
  let ?acc' = "acc @ [\<lparr>offset = ?start, length_bytes = sl\<rparr>]"
  have k: "0 < ?k" using Suc.prems by simp
  have r: "randbelow env ?k w = (Inr ?start, ?w')"
    using k by (simp add: randbelow_def)
  have lo: "0 \<le> ?start" using k by simp
  have hi: "?start < ?k" using k by (rule pos_mod_bound)
  have inv: "\<forall>s\<in>set ?acc'. 0 \<le> offset s \<and> length_bytes s = sl \<and> offset s + length_bytes s \<le> file_size"
  proof
    fix s assume "s \<in> set ?acc'"
    then consider "s \<in> set acc" | "s = \<lparr>offset = ?start, length_bytes = sl\<rparr>" by auto
    then show "0 \<le> offset s \<and> length_bytes s = sl \<and> offset s + length_bytes s \<le> file_size"
    proof cases
      case 1 then show ?thesis using Suc.prems(4) by blast
    next
      case 2
      have "?start + sl \<le> file_size" using hi by linarith
      then show ?thesis using 2 lo by simp
    qed
  qed
  from Suc.IH[OF Suc.prems(1-3) inv, of ?w']
  obtain xs where xs: "sample_loop env file_size sl n ?acc' ?w' = (Inr xs, ?w'\<lparr>rpos := rpos ?w' + n\<rparr>)"
    "length xs = length ?acc' + n"
    "\<forall>s\<in>set xs. 0 \<le> offset s \<and> length_bytes s = sl \<and> offset s + length_bytes s \<le> file_size"
    by blast
  have "sample_loop env file_size sl (Suc n) acc w = (Inr xs, w\<lparr>rpos := rpos w + Suc n\<rparr>)"
    using xs(1) r by simp
  moreover have "length xs = length acc + Suc n" using xs(2) by simp
  ultimately show ?case using xs(3) by blast
qed

text \<open>
  Claim C5. \<^verbatim>\<open>choose_samples\<close> returns the empty list, drawing nothing, when the file
  size, the sample count or the sample length is not positive. Otherwise it returns
  \<open>sample_count\<close> ranges, each with a non-negative offset, the length
  \<open>min sample_len file_size\<close>, and its end inside the file.
\<close>

theorem choose_samples_spec:
  "(file_size \<le> 0 \<or> sample_count \<le> 0 \<or> sample_len \<le> 0 \<longrightarrow>
      choose_samples env file_size sample_count sample_len w = (Inr [], w)) \<and>
   (0 < file_size \<and> 0 < sample_count \<and> 0 < sample_len \<longrightarrow>
      (\<exists>xs w'. choose_samples env file_size sample_count sample_len w = (Inr xs, w') \<and>
         length xs = nat sample_count \<and>
         (\<forall>s\<in>set xs. 0 \<le> offset s \<and> length_bytes s = min sample_len file_size \<and>
                      offset s + length_bytes s \<le> file_size)))"
proof (intro conjI impI)
  assume "file_size \<le> 0 \<or> sample_count \<le> 0 \<or> sample_len \<le> 0"
  then show "choose_samples env file_size sample_count sample_len w = (Inr [], w)"
    by (simp add: choose_samples_def)
next
  assume a: "0 < file_size \<and> 0 < sample_count \<and> 0 < sample_len"
  let ?sl = "min sample_len file_size"
  have "\<exists>xs. sample_loop env file_size ?sl (nat sample_count) [] w
           = (Inr xs, w\<lparr>rpos := rpos w + nat sample_count\<rparr>) \<and>
        length xs = length ([]::Sample list) + nat sample_count \<and>
        (\<forall>s\<in>set xs. 0 \<le> offset s \<and> length_bytes s = ?sl \<and> offset s + length_bytes s \<le> file_size)"
    using a by (intro sample_loop_ok) auto
  then show "\<exists>xs w'. choose_samples env file_size sample_count sample_len w = (Inr xs, w') \<and>
         length xs = nat sample_count \<and>
         (\<forall>s\<in>set xs. 0 \<le> offset s \<and> length_bytes s = ?sl \<and>
                      offset s + length_bytes s \<le> file_size)"
    using a by (auto simp: choose_samples_def)
qed

theorem choose_samples_spec_witness:
  "choose_samples example_env 0 4 64 example_world = (Inr [], example_world) \<and>
   (\<exists>xs w'. choose_samples example_env 10 2 64 example_world = (Inr xs, w') \<and>
      length xs = 2 \<and>
      list_all (\<lambda>s. 0 \<le> offset s \<and> length_bytes s = 10 \<and> offset s + length_bytes s \<le> 10) xs)"
proof -
  have "choose_samples example_env 0 4 64 example_world = (Inr [], example_world)"
    using choose_samples_spec[where file_size = 0 and sample_count = 4 and sample_len = 64
        and env = example_env and w = example_world]
    by simp
  moreover have "\<exists>xs w'. choose_samples example_env 10 2 64 example_world = (Inr xs, w') \<and>
      length xs = 2 \<and>
      list_all (\<lambda>s. 0 \<le> offset s \<and> length_bytes s = 10 \<and> offset s + length_bytes s \<le> 10) xs"
    using choose_samples_spec[where file_size = 10 and sample_count = 2 and sample_len = 64
        and env = example_env and w = example_world]
    by (simp add: list_all_iff)
  ultimately show ?thesis by blast
qed

text \<open>
  Claim C6. With \<open>1 \<le> min_passes \<le> max_passes\<close>, \<^verbatim>\<open>build_pass_count\<close> returns a
  count in \<open>[min_passes, max_passes]\<close>, and exactly \<open>min_passes\<close>, drawing nothing, when
  \<open>randomize\<close> is false or the bounds are equal. With \<open>min_passes < 1\<close> or
  \<open>max_passes < min_passes\<close> it raises ValueError, "Invalid pass bounds".
\<close>

theorem build_pass_count_spec:
  "(1 \<le> min_passes \<and> min_passes \<le> max_passes \<longrightarrow>
      (\<exists>n w'. build_pass_count env min_passes max_passes randomize w = (Inr n, w') \<and>
         (\<not> randomize \<or> min_passes = max_passes \<longrightarrow> n = min_passes \<and> w' = w) \<and>
         min_passes \<le> n \<and> n \<le> max_passes)) \<and>
   (min_passes < 1 \<or> max_passes < min_passes \<longrightarrow>
      build_pass_count env min_passes max_passes randomize w
        = (Inl (ValueError ''Invalid pass bounds''), w))"
proof (intro conjI impI)
  assume a: "1 \<le> min_passes \<and> min_passes \<le> max_passes"
  show "\<exists>n w'. build_pass_count env min_passes max_passes randomize w = (Inr n, w') \<and>
         (\<not> randomize \<or> min_passes = max_passes \<longrightarrow> n = min_passes \<and> w' = w) \<and>
         min_passes \<le> n \<and> n \<le> max_passes"
  proof (cases "\<not> randomize \<or> min_passes = max_passes")
    case True
    then show ?thesis using a by (auto simp: build_pass_count_def)
  next
    case False
    let ?k = "max_passes - min_passes + 1"
    let ?r = "int (entropy env (rpos w)) mod ?k"
    have k: "0 < ?k" using a by simp
    have r1: "0 \<le> ?r" using k by simp
    have r2: "?r \<le> max_passes - min_passes"
      using pos_mod_bound[OF k, of "int (entropy env (rpos w))"] by linarith
    show ?thesis using a False k r1 r2
      by (simp add: build_pass_count_def randbelow_def)
  qed
next
  assume "min_passes < 1 \<or> max_passes < min_passes"
  then show "build_pass_count env min_passes max_passes randomize w
        = (Inl (ValueError ''Invalid pass bounds''), w)"
    by (simp add: build_pass_count_def)
qed

theorem build_pass_count_spec_witness:
  "build_pass_count example_env 0 5 True example_world
     = (Inl (ValueError ''Invalid pass bounds''), example_world) \<and>
   (\<exists>n w'. build_pass_count example_env 3 7 True example_world = (Inr n, w') \<and> 3 \<le> n \<and> n \<le> 7) \<and>
   build_pass_count example_env 3 7 False example_world = (Inr 3, example_world)"
proof -
  have "build_pass_count example_env 0 5 True example_world
     = (Inl (ValueError ''Invalid pass bounds''), example_world)"
    using build_pass_count_spec[where min_passes = 0 and max_passes = 5 and randomize = True
        and env = example_env and w = example_world]
    by simp
  moreover have "\<exists>n w'. build_pass_count example_env 3 7 True example_world = (Inr n, w') \<and>
      3 \<le> n \<and> n \<le> 7"
    using build_pass_count_spec[where min_passes = 3 and max_passes = 7 and randomize = True
        and env = example_env and w = example_world]
    by simp
  moreover have "build_pass_count example_env 3 7 False example_world = (Inr 3, example_world)"
    using build_pass_count_spec[where min_passes = 3 and max_passes = 7 and randomize = False
        and env = example_env and w = example_world]
    by auto
  ultimately show ?thesis by blast
qed

section \<open>The overlap tracker\<close>

lemma capture_loop_nth:
  "length expected = k + length ss \<Longrightarrow> length filled = k + length ss \<Longrightarrow>
   \<exists>E F. capture_loop ss k expected filled chunk_data chunk_start = Inr (E, F) \<and>
     length E = length expected \<and> length F = length filled \<and>
     (\<forall>i<k. E ! i = expected ! i \<and> F ! i = filled ! i) \<and>
     (\<forall>i<length ss. E ! (k + i) = capture_buf (ss ! i) chunk_data chunk_start (expected ! (k + i)) \<and>
                     F ! (k + i) = capture_mask (ss ! i) chunk_data chunk_start (filled ! (k + i)))"
proof (induction ss arbitrary: k expected filled)
  case Nil
  then show ?case by simp
next
  case (Cons s ss)
  show ?case
  proof (cases "overlaps s chunk_data chunk_start")
    case False
    have step: "capture_loop (s # ss) k expected filled chunk_data chunk_start
                = capture_loop ss (Suc k) expected filled chunk_data chunk_start"
      using False by (simp add: overlaps_def Let_def)
    from Cons.prems have l: "length expected = Suc k + length ss" "length filled = Suc k + length ss"
      by simp_all
    from Cons.IH[OF l] obtain E F where
      r: "capture_loop ss (Suc k) expected filled chunk_data chunk_start = Inr (E, F)"
      and len: "length E = length expected" "length F = length filled"
      and low: "\<forall>i<Suc k. E ! i = expected ! i \<and> F ! i = filled ! i"
      and high: "\<forall>i<length ss. E ! (Suc k + i) = capture_buf (ss ! i) chunk_data chunk_start (expected ! (Suc k + i)) \<and>
                     F ! (Suc k + i) = capture_mask (ss ! i) chunk_data chunk_start (filled ! (Suc k + i))"
      by blast
    have hd: "E ! k = capture_buf s chunk_data chunk_start (expected ! k)"
             "F ! k = capture_mask s chunk_data chunk_start (filled ! k)"
      using low False by (simp_all add: capture_buf_def capture_mask_def)
    have all: "\<forall>i<length (s # ss). E ! (k + i) = capture_buf ((s # ss) ! i) chunk_data chunk_start (expected ! (k + i)) \<and>
                     F ! (k + i) = capture_mask ((s # ss) ! i) chunk_data chunk_start (filled ! (k + i))"
    proof (intro allI impI)
      fix i assume "i < length (s # ss)"
      show "E ! (k + i) = capture_buf ((s # ss) ! i) chunk_data chunk_start (expected ! (k + i)) \<and>
                     F ! (k + i) = capture_mask ((s # ss) ! i) chunk_data chunk_start (filled ! (k + i))"
      proof (cases i)
        case 0 then show ?thesis using hd by simp
      next
        case (Suc j)
        then have "j < length ss" using \<open>i < length (s # ss)\<close> by simp
        then show ?thesis using high Suc by simp
      qed
    qed
    show ?thesis using step r len low all by simp
  next
    case True
    let ?e = "capture_buf s chunk_data chunk_start (expected ! k)"
    let ?f = "capture_mask s chunk_data chunk_start (filled ! k)"
    let ?E0 = "expected[k := ?e]"
    let ?F0 = "filled[k := ?f]"
    have kl: "k < length expected" "k < length filled" using Cons.prems by simp_all
    have step: "capture_loop (s # ss) k expected filled chunk_data chunk_start
                = capture_loop ss (Suc k) ?E0 ?F0 chunk_data chunk_start"
      using True kl by (simp add: overlaps_def capture_buf_def capture_mask_def Let_def)
    from Cons.prems have l: "length ?E0 = Suc k + length ss" "length ?F0 = Suc k + length ss"
      by simp_all
    from Cons.IH[OF l] obtain E F where
      r: "capture_loop ss (Suc k) ?E0 ?F0 chunk_data chunk_start = Inr (E, F)"
      and len: "length E = length ?E0" "length F = length ?F0"
      and low: "\<forall>i<Suc k. E ! i = ?E0 ! i \<and> F ! i = ?F0 ! i"
      and high: "\<forall>i<length ss. E ! (Suc k + i) = capture_buf (ss ! i) chunk_data chunk_start (?E0 ! (Suc k + i)) \<and>
                     F ! (Suc k + i) = capture_mask (ss ! i) chunk_data chunk_start (?F0 ! (Suc k + i))"
      by blast
    have hd: "E ! k = ?e" "F ! k = ?f"
      using low kl by simp_all
    have low': "\<forall>i<k. E ! i = expected ! i \<and> F ! i = filled ! i"
      using low by simp
    have all: "\<forall>i<length (s # ss). E ! (k + i) = capture_buf ((s # ss) ! i) chunk_data chunk_start (expected ! (k + i)) \<and>
                     F ! (k + i) = capture_mask ((s # ss) ! i) chunk_data chunk_start (filled ! (k + i))"
    proof (intro allI impI)
      fix i assume "i < length (s # ss)"
      show "E ! (k + i) = capture_buf ((s # ss) ! i) chunk_data chunk_start (expected ! (k + i)) \<and>
                     F ! (k + i) = capture_mask ((s # ss) ! i) chunk_data chunk_start (filled ! (k + i))"
      proof (cases i)
        case 0 then show ?thesis using hd by simp
      next
        case (Suc j)
        then have "j < length ss" using \<open>i < length (s # ss)\<close> by simp
        then show ?thesis using high Suc by simp
      qed
    qed
    show ?thesis using step r len low' all by simp
  qed
qed

lemma slice_bound_inside: "0 \<le> a \<Longrightarrow> a \<le> int n \<Longrightarrow> slice_bound a n = nat a"
  by (simp add: slice_bound_def Let_def)

lemma slice_inside:
  assumes "0 \<le> a" "a \<le> b" "b \<le> int (length xs)"
  shows "get_slice xs a b = take (nat (b - a)) (drop (nat a) xs)"
proof -
  have "slice_bound a (length xs) = nat a" "slice_bound b (length xs) = nat b"
    using assms by (simp_all add: slice_bound_inside)
  moreover have "nat b - nat a = nat (b - a)" using assms by simp
  ultimately show ?thesis by (simp add: get_slice_def Let_def)
qed

lemma slice_assign_inside:
  assumes "0 \<le> a" "a \<le> b" "b \<le> int (length xs)"
  shows "slice_assign xs a b ys = take (nat a) xs @ ys @ drop (nat b) xs"
proof -
  have "slice_bound a (length xs) = nat a" "slice_bound b (length xs) = nat b"
    using assms by (simp_all add: slice_bound_inside)
  moreover have "max (nat a) (nat b) = nat b" using assms by simp
  ultimately show ?thesis by (simp add: slice_assign_def Let_def)
qed

lemma splice_nth:
  assumes "a \<le> b" "b \<le> length xs" "length ys = b - a" "j < length xs"
  shows "(take a xs @ ys @ drop b xs) ! j = (if a \<le> j \<and> j < b then ys ! (j - a) else xs ! j)"
    and "length (take a xs @ ys @ drop b xs) = length xs"
proof -
  show "length (take a xs @ ys @ drop b xs) = length xs" using assms by simp
  consider "j < a" | "a \<le> j" "j < b" | "b \<le> j" by linarith
  then show "(take a xs @ ys @ drop b xs) ! j = (if a \<le> j \<and> j < b then ys ! (j - a) else xs ! j)"
  proof cases
    case 1 then show ?thesis using assms by (simp add: nth_append)
  next
    case 2
    have la: "length (take a xs) = a" using assms by simp
    have "j - a < length ys" using 2 assms by linarith
    then have "(ys @ drop b xs) ! (j - a) = ys ! (j - a)" by (simp add: nth_append)
    moreover have "(take a xs @ ys @ drop b xs) ! j = (ys @ drop b xs) ! (j - a)"
      using 2 la by (metis not_less nth_append)
    ultimately show ?thesis using 2 by simp
  next
    case 3
    have la: "length (take a xs) = a" using assms by simp
    have "\<not> j < a" using 3 assms by linarith
    then have "(take a xs @ ys @ drop b xs) ! j = (ys @ drop b xs) ! (j - a)"
      using la by (metis nth_append)
    also have "\<dots> = drop b xs ! (j - a - length ys)"
    proof -
      have "\<not> j - a < length ys" using 3 assms by linarith
      then show ?thesis by (metis nth_append)
    qed
    also have "j - a - length ys = j - b" using 3 assms by linarith
    also have "drop b xs ! (j - b) = xs ! (b + (j - b))" using assms by simp
    also have "b + (j - b) = j" using 3 by simp
    finally show ?thesis using 3 by simp
  qed
qed


lemma slice_inside_nth:
  assumes "0 \<le> a" "a \<le> b" "b \<le> int (length xs)"
  shows "length (get_slice xs a b) = nat (b - a)"
    and "k < nat (b - a) \<Longrightarrow> get_slice xs a b ! k = xs ! (nat a + k)"
proof -
  have eq: "get_slice xs a b = take (nat (b - a)) (drop (nat a) xs)"
    using assms by (rule slice_inside)
  have "nat (b - a) \<le> length xs - nat a" using assms by linarith
  then show "length (get_slice xs a b) = nat (b - a)" using eq by simp
  assume "k < nat (b - a)"
  moreover have "nat a + k < length xs" if "k < nat (b - a)" using that assms by linarith
  ultimately show "get_slice xs a b ! k = xs ! (nat a + k)" using eq by simp
qed

lemma capture_geometry:
  assumes ov: "overlaps s chunk_data chunk_start" and len: "0 \<le> length_bytes s"
  defines "os \<equiv> max (offset s) chunk_start"
    and "oe \<equiv> min (offset s + length_bytes s) (chunk_start + int (length chunk_data))"
  shows "0 \<le> os - offset s" "os - offset s \<le> oe - offset s" "oe - offset s \<le> length_bytes s"
    "0 \<le> os - chunk_start" "os - chunk_start \<le> oe - chunk_start"
    "oe - chunk_start \<le> int (length chunk_data)"
proof -
  have a: "chunk_start < offset s + length_bytes s" "offset s < chunk_start + int (length chunk_data)"
    using ov unfolding overlaps_def by simp_all
  show "0 \<le> os - offset s" unfolding os_def by simp
  show "os - offset s \<le> oe - offset s" unfolding os_def oe_def using a len by simp
  show "oe - offset s \<le> length_bytes s" unfolding oe_def by simp
  show "0 \<le> os - chunk_start" unfolding os_def by simp
  show "os - chunk_start \<le> oe - chunk_start" unfolding os_def oe_def using a len by simp
  show "oe - chunk_start \<le> int (length chunk_data)" unfolding oe_def by simp
qed

lemma slice_assign_slice_nth:
  assumes "0 \<le> i0" "i0 \<le> i1" "i1 \<le> int (length b)"
    and "0 \<le> c0" "c0 \<le> c1" "c1 \<le> int (length xs)" "c1 - c0 = i1 - i0"
  shows "length (slice_assign b i0 i1 (get_slice xs c0 c1)) = length b"
    and "j < length b \<Longrightarrow> slice_assign b i0 i1 (get_slice xs c0 c1) ! j =
           (if i0 \<le> int j \<and> int j < i1 then xs ! nat (c0 + (int j - i0)) else b ! j)"
proof -
  let ?ys = "get_slice xs c0 c1"
  have ly: "length ?ys = nat (c1 - c0)" using assms(4,5,6) by (rule slice_inside_nth(1))
  have eq: "slice_assign b i0 i1 ?ys = take (nat i0) b @ ?ys @ drop (nat i1) b"
    using assms(1,2,3) by (rule slice_assign_inside)
  have l1: "length ?ys = nat i1 - nat i0" using ly assms(1,2,7) by linarith
  have l2: "nat i0 \<le> nat i1" using assms(2) by linarith
  have l3: "nat i1 \<le> length b" using assms(3) by linarith
  show "length (slice_assign b i0 i1 ?ys) = length b"
    unfolding eq using l1 l2 l3 by simp
  assume j: "j < length b"
  have nth: "slice_assign b i0 i1 ?ys ! j =
      (if nat i0 \<le> j \<and> j < nat i1 then ?ys ! (j - nat i0) else b ! j)"
    unfolding eq using splice_nth(1)[OF l2 l3 l1 j] .
  have cond: "(nat i0 \<le> j \<and> j < nat i1) = (i0 \<le> int j \<and> int j < i1)"
    using assms(1) by linarith
  have nth': "slice_assign b i0 i1 ?ys ! j =
      (if i0 \<le> int j \<and> int j < i1 then ?ys ! (j - nat i0) else b ! j)"
    using nth unfolding cond .
  show "slice_assign b i0 i1 ?ys ! j =
           (if i0 \<le> int j \<and> int j < i1 then xs ! nat (c0 + (int j - i0)) else b ! j)"
  proof (cases "i0 \<le> int j \<and> int j < i1")
    case False
    show ?thesis unfolding nth' if_not_P[OF False] ..
  next
    case True
    have k: "j - nat i0 < nat (c1 - c0)" using True assms(1,2,7) by linarith
    have "?ys ! (j - nat i0) = xs ! (nat c0 + (j - nat i0))"
      using slice_inside_nth(2)[OF assms(4) assms(5) assms(6) k] .
    moreover have "nat c0 + (j - nat i0) = nat (c0 + (int j - i0))"
      using True assms(1,4) by linarith
    ultimately have ys: "?ys ! (j - nat i0) = xs ! nat (c0 + (int j - i0))" by simp
    show ?thesis unfolding nth' if_P[OF True] by (rule ys)
  qed
qed

lemma length_bytes_times_one: "length (bytes_times [x] k) = nat k"
  by (simp add: bytes_times_def)

lemma nth_bytes_times_one: "i < nat k \<Longrightarrow> bytes_times [x] k ! i = x"
  by (simp add: bytes_times_def)

lemma slice_assign_ones_nth:
  assumes "0 \<le> i0" "i0 \<le> i1" "i1 \<le> int (length b)"
  shows "length (slice_assign b i0 i1 (bytes_times [x] (i1 - i0))) = length b"
    and "j < length b \<Longrightarrow> slice_assign b i0 i1 (bytes_times [x] (i1 - i0)) ! j =
           (if i0 \<le> int j \<and> int j < i1 then x else b ! j)"
proof -
  let ?ys = "bytes_times [x] (i1 - i0)"
  have eq: "slice_assign b i0 i1 ?ys = take (nat i0) b @ ?ys @ drop (nat i1) b"
    using assms(1,2,3) by (rule slice_assign_inside)
  have l1: "length ?ys = nat i1 - nat i0"
    using assms(1,2) by (simp add: length_bytes_times_one)
  have l2: "nat i0 \<le> nat i1" using assms(2) by linarith
  have l3: "nat i1 \<le> length b" using assms(3) by linarith
  show "length (slice_assign b i0 i1 ?ys) = length b"
    unfolding eq using l1 l2 l3 by simp
  assume j: "j < length b"
  have nth: "slice_assign b i0 i1 ?ys ! j =
      (if nat i0 \<le> j \<and> j < nat i1 then ?ys ! (j - nat i0) else b ! j)"
    unfolding eq using splice_nth(1)[OF l2 l3 l1 j] .
  have cond: "(nat i0 \<le> j \<and> j < nat i1) = (i0 \<le> int j \<and> int j < i1)"
    using assms(1) by linarith
  have nth': "slice_assign b i0 i1 ?ys ! j =
      (if i0 \<le> int j \<and> int j < i1 then ?ys ! (j - nat i0) else b ! j)"
    using nth unfolding cond .
  show "slice_assign b i0 i1 ?ys ! j = (if i0 \<le> int j \<and> int j < i1 then x else b ! j)"
  proof (cases "i0 \<le> int j \<and> int j < i1")
    case False
    show ?thesis unfolding nth' if_not_P[OF False] ..
  next
    case True
    have k: "j - nat i0 < nat (i1 - i0)" using True assms(1,2) by linarith
    have ys: "?ys ! (j - nat i0) = x" using k by (rule nth_bytes_times_one)
    show ?thesis unfolding nth' if_P[OF True] by (rule ys)
  qed
qed

lemma capture_buf_nth:
  assumes len: "0 \<le> length_bytes s" and lb: "length b = nat (length_bytes s)"
  shows "length (capture_buf s chunk_data chunk_start b) = length b"
    and "j < length b \<Longrightarrow> capture_buf s chunk_data chunk_start b ! j =
           (if chunk_start \<le> offset s + int j \<and> offset s + int j < chunk_start + int (length chunk_data)
            then chunk_data ! nat (offset s + int j - chunk_start) else b ! j)"
proof -
  let ?os = "max (offset s) chunk_start"
  let ?oe = "min (offset s + length_bytes s) (chunk_start + int (length chunk_data))"
  have lb': "int (length b) = length_bytes s" using lb len by simp
  show "length (capture_buf s chunk_data chunk_start b) = length b"
  proof (cases "overlaps s chunk_data chunk_start")
    case False then show ?thesis by (simp add: capture_buf_def)
  next
    case True
    note g = capture_geometry[OF True len]
    have b3: "?oe - offset s \<le> int (length b)" using g(3) lb' by simp
    have d: "(?oe - chunk_start) - (?os - chunk_start) = (?oe - offset s) - (?os - offset s)" by simp
    show ?thesis
      using True slice_assign_slice_nth(1)[OF g(1) g(2) b3 g(4) g(5) g(6) d]
      by (simp add: capture_buf_def)
  qed
  assume j: "j < length b"
  have jl: "int j < length_bytes s" using j lb' by simp
  show "capture_buf s chunk_data chunk_start b ! j =
           (if chunk_start \<le> offset s + int j \<and> offset s + int j < chunk_start + int (length chunk_data)
            then chunk_data ! nat (offset s + int j - chunk_start) else b ! j)"
  proof (cases "overlaps s chunk_data chunk_start")
    case False
    then have "offset s + length_bytes s \<le> chunk_start \<or>
               chunk_start + int (length chunk_data) \<le> offset s"
      by (simp add: overlaps_def)
    then have neg: "\<not> (chunk_start \<le> offset s + int j \<and> offset s + int j < chunk_start + int (length chunk_data))"
      using jl by linarith
    have eqb: "capture_buf s chunk_data chunk_start b = b" using False by (simp add: capture_buf_def)
    show ?thesis unfolding eqb if_not_P[OF neg] ..
  next
    case True
    note g = capture_geometry[OF True len]
    have b3: "?oe - offset s \<le> int (length b)" using g(3) lb' by simp
    have d: "(?oe - chunk_start) - (?os - chunk_start) = (?oe - offset s) - (?os - offset s)" by simp
    have nth: "capture_buf s chunk_data chunk_start b ! j =
        (if ?os - offset s \<le> int j \<and> int j < ?oe - offset s
         then chunk_data ! nat ((?os - chunk_start) + (int j - (?os - offset s))) else b ! j)"
      using True slice_assign_slice_nth(2)[OF g(1) g(2) b3 g(4) g(5) g(6) d j]
      by (simp add: capture_buf_def)
    have c1: "(?os - offset s \<le> int j) = (chunk_start \<le> offset s + int j)" by auto
    have c2: "(int j < ?oe - offset s) = (offset s + int j < chunk_start + int (length chunk_data))"
      using jl by auto
    have ix: "(?os - chunk_start) + (int j - (?os - offset s)) = offset s + int j - chunk_start"
      by simp
    show ?thesis unfolding nth c1 c2 ix ..
  qed
qed

lemma capture_mask_nth:
  assumes len: "0 \<le> length_bytes s" and lb: "length b = nat (length_bytes s)"
  shows "length (capture_mask s chunk_data chunk_start b) = length b"
    and "j < length b \<Longrightarrow> capture_mask s chunk_data chunk_start b ! j =
           (if chunk_start \<le> offset s + int j \<and> offset s + int j < chunk_start + int (length chunk_data)
            then 1 else b ! j)"
proof -
  let ?os = "max (offset s) chunk_start"
  let ?oe = "min (offset s + length_bytes s) (chunk_start + int (length chunk_data))"
  have lb': "int (length b) = length_bytes s" using lb len by simp
  show "length (capture_mask s chunk_data chunk_start b) = length b"
  proof (cases "overlaps s chunk_data chunk_start")
    case False then show ?thesis by (simp add: capture_mask_def)
  next
    case True
    note g = capture_geometry[OF True len]
    have b3: "?oe - offset s \<le> int (length b)" using g(3) lb' by simp
    show ?thesis
      using True slice_assign_ones_nth(1)[OF g(1) g(2) b3]
      by (simp add: capture_mask_def)
  qed
  assume j: "j < length b"
  have jl: "int j < length_bytes s" using j lb' by simp
  show "capture_mask s chunk_data chunk_start b ! j =
           (if chunk_start \<le> offset s + int j \<and> offset s + int j < chunk_start + int (length chunk_data)
            then 1 else b ! j)"
  proof (cases "overlaps s chunk_data chunk_start")
    case False
    then have "offset s + length_bytes s \<le> chunk_start \<or>
               chunk_start + int (length chunk_data) \<le> offset s"
      by (simp add: overlaps_def)
    then have neg: "\<not> (chunk_start \<le> offset s + int j \<and> offset s + int j < chunk_start + int (length chunk_data))"
      using jl by linarith
    have eqb: "capture_mask s chunk_data chunk_start b = b" using False by (simp add: capture_mask_def)
    show ?thesis unfolding eqb if_not_P[OF neg] ..
  next
    case True
    note g = capture_geometry[OF True len]
    have b3: "?oe - offset s \<le> int (length b)" using g(3) lb' by simp
    have nth: "capture_mask s chunk_data chunk_start b ! j =
        (if ?os - offset s \<le> int j \<and> int j < ?oe - offset s then 1 else b ! j)"
      using True slice_assign_ones_nth(2)[OF g(1) g(2) b3 j]
      by (simp add: capture_mask_def)
    have c1: "(?os - offset s \<le> int j) = (chunk_start \<le> offset s + int j)" by auto
    have c2: "(int j < ?oe - offset s) = (offset s + int j < chunk_start + int (length chunk_data))"
      using jl by auto
    show ?thesis unfolding nth c1 c2 ..
  qed
qed

text \<open>
  Claim C1. Take sample \<open>i\<close> of the list, with a non-negative offset, a length of at
  least 1 and buffers of that length, and any chunk. \<^verbatim>\<open>capture_expected_from_chunk\<close>
  returns normally and keeps the length of the sample's buffers. If the sample and the
  chunk do not overlap, both buffers of the sample are unchanged. In every case, the
  byte at each position \<open>j\<close> of the sample that falls in the intersection
  \<open>[overlap_start, overlap_end)\<close> is the chunk byte at file offset \<open>s_start + j\<close>, and
  its \<^verbatim>\<open>filled\<close> entry is 1; the bytes and \<^verbatim>\<open>filled\<close> entries at all other positions
  are unchanged. Nothing is assumed about how much of the sample the chunk covers, nor
  about the other samples.
\<close>

theorem capture_expected_from_chunk_spec:
  assumes le: "length expected = length samples" and lf: "length filled = length samples"
    and i: "i < length samples"
    and off: "0 \<le> offset (samples ! i)" and len: "1 \<le> length_bytes (samples ! i)"
    and lei: "length (expected ! i) = nat (length_bytes (samples ! i))"
    and lfi: "length (filled ! i) = nat (length_bytes (samples ! i))"
  shows "\<exists>expected' filled'.
      capture_expected_from_chunk samples expected filled chunk_data chunk_start
        = Inr (expected', filled') \<and>
      length expected' = length samples \<and> length filled' = length samples \<and>
      length (expected' ! i) = length (expected ! i) \<and>
      length (filled' ! i) = length (filled ! i) \<and>
      (offset (samples ! i) + length_bytes (samples ! i) \<le> chunk_start \<or>
       chunk_start + int (length chunk_data) \<le> offset (samples ! i)
         \<longrightarrow> expected' ! i = expected ! i \<and> filled' ! i = filled ! i) \<and>
      (\<forall>j < nat (length_bytes (samples ! i)).
         if max (offset (samples ! i)) chunk_start \<le> offset (samples ! i) + int j \<and>
            offset (samples ! i) + int j
              < min (offset (samples ! i) + length_bytes (samples ! i))
                    (chunk_start + int (length chunk_data))
         then expected' ! i ! j = chunk_data ! nat (offset (samples ! i) + int j - chunk_start) \<and>
              filled' ! i ! j = 1
         else expected' ! i ! j = expected ! i ! j \<and> filled' ! i ! j = filled ! i ! j)"
proof -
  let ?s = "samples ! i"
  have l0: "length expected = 0 + length samples" "length filled = 0 + length samples"
    using le lf by simp_all
  from capture_loop_nth[OF l0, of chunk_data chunk_start] obtain E F where
    r: "capture_loop samples 0 expected filled chunk_data chunk_start = Inr (E, F)"
    and lE: "length E = length expected" and lF: "length F = length filled"
    and high: "\<forall>i<length samples.
        E ! (0 + i) = capture_buf (samples ! i) chunk_data chunk_start (expected ! (0 + i)) \<and>
        F ! (0 + i) = capture_mask (samples ! i) chunk_data chunk_start (filled ! (0 + i))"
    by blast
  have Ei: "E ! i = capture_buf ?s chunk_data chunk_start (expected ! i)"
    and Fi: "F ! i = capture_mask ?s chunk_data chunk_start (filled ! i)"
    using high i by simp_all
  have len0: "0 \<le> length_bytes ?s" using len by simp
  note eb = capture_buf_nth[OF len0 lei, where chunk_data = chunk_data and chunk_start = chunk_start]
  note fb = capture_mask_nth[OF len0 lfi, where chunk_data = chunk_data and chunk_start = chunk_start]
  have c1: "length (E ! i) = length (expected ! i)" unfolding Ei by (rule eb(1))
  have c2: "length (F ! i) = length (filled ! i)" unfolding Fi by (rule fb(1))
  have c3: "E ! i = expected ! i \<and> F ! i = filled ! i"
    if "offset ?s + length_bytes ?s \<le> chunk_start \<or> chunk_start + int (length chunk_data) \<le> offset ?s"
    using that unfolding Ei Fi by (simp add: capture_buf_def capture_mask_def overlaps_def)
  have c4: "if max (offset ?s) chunk_start \<le> offset ?s + int j \<and>
            offset ?s + int j < min (offset ?s + length_bytes ?s) (chunk_start + int (length chunk_data))
         then E ! i ! j = chunk_data ! nat (offset ?s + int j - chunk_start) \<and> F ! i ! j = 1
         else E ! i ! j = expected ! i ! j \<and> F ! i ! j = filled ! i ! j"
    if j: "j < nat (length_bytes ?s)" for j
  proof -
    have je: "j < length (expected ! i)" and jf: "j < length (filled ! i)"
      using j lei lfi by simp_all
    have jl: "int j < length_bytes ?s" using j by linarith
    have cond: "(max (offset ?s) chunk_start \<le> offset ?s + int j \<and>
            offset ?s + int j < min (offset ?s + length_bytes ?s) (chunk_start + int (length chunk_data)))
        = (chunk_start \<le> offset ?s + int j \<and> offset ?s + int j < chunk_start + int (length chunk_data))"
      using jl by auto
    show ?thesis unfolding cond Ei Fi eb(2)[OF je] fb(2)[OF jf] by simp
  qed
  have lE': "length E = length samples" using lE le by simp
  have lF': "length F = length samples" using lF lf by simp
  have c3': "offset ?s + length_bytes ?s \<le> chunk_start \<or>
             chunk_start + int (length chunk_data) \<le> offset ?s
               \<longrightarrow> E ! i = expected ! i \<and> F ! i = filled ! i"
    using c3 by blast
  have c4': "\<forall>j < nat (length_bytes ?s).
         if max (offset ?s) chunk_start \<le> offset ?s + int j \<and>
            offset ?s + int j < min (offset ?s + length_bytes ?s) (chunk_start + int (length chunk_data))
         then E ! i ! j = chunk_data ! nat (offset ?s + int j - chunk_start) \<and> F ! i ! j = 1
         else E ! i ! j = expected ! i ! j \<and> F ! i ! j = filled ! i ! j"
    using c4 by blast
  show ?thesis
    unfolding capture_expected_from_chunk_def
    apply (rule exI[of _ E])
    apply (rule exI[of _ F])
    apply (intro conjI)
          apply (rule r)
         apply (rule lE')
        apply (rule lF')
       apply (rule c1)
      apply (rule c2)
     apply (rule c3')
    apply (rule c4')
    done
qed

theorem capture_expected_from_chunk_spec_witness:
  "\<exists>expected' filled'.
      capture_expected_from_chunk [\<lparr>offset = 2, length_bytes = 5\<rparr>, \<lparr>offset = 0, length_bytes = 2\<rparr>]
          [[0, 0, 0, 0, 0], [0, 0]] [[0, 0, 0, 0, 0], [0, 0]] [9, 8, 7, 6] 1
        = Inr (expected', filled') \<and>
      expected' ! 0 ! 0 = 8 \<and> filled' ! 0 ! 0 = 1 \<and>
      expected' ! 0 ! 2 = 6 \<and> filled' ! 0 ! 2 = 1 \<and>
      expected' ! 0 ! 3 = 0 \<and> filled' ! 0 ! 3 = 0"
proof -
  let ?S = "[\<lparr>offset = 2, length_bytes = 5\<rparr>, \<lparr>offset = 0, length_bytes = 2\<rparr>]"
  let ?B = "[[0, 0, 0, 0, 0], [0, 0]] :: byte list list"
  let ?D = "[9, 8, 7, 6] :: byte list"
  have h: "length ?B = length ?S" "0 < length ?S" "0 \<le> offset (?S ! 0)" "1 \<le> length_bytes (?S ! 0)"
    "length (?B ! 0) = nat (length_bytes (?S ! 0))"
    by simp_all
  from capture_expected_from_chunk_spec[OF h(1) h(1) h(2) h(3) h(4) h(5) h(5), of ?D 1]
  obtain E F where r: "capture_expected_from_chunk ?S ?B ?B ?D 1 = Inr (E, F)"
    and a: "\<forall>j < nat (length_bytes (?S ! 0)).
         if max (offset (?S ! 0)) 1 \<le> offset (?S ! 0) + int j \<and>
            offset (?S ! 0) + int j < min (offset (?S ! 0) + length_bytes (?S ! 0)) (1 + int (length ?D))
         then E ! 0 ! j = ?D ! nat (offset (?S ! 0) + int j - 1) \<and> F ! 0 ! j = 1
         else E ! 0 ! j = ?B ! 0 ! j \<and> F ! 0 ! j = ?B ! 0 ! j"
    by blast
  have "E ! 0 ! 0 = 8 \<and> F ! 0 ! 0 = 1" using a[rule_format, of 0] by simp
  moreover have "E ! 0 ! 2 = 6 \<and> F ! 0 ! 2 = 1" using a[rule_format, of 2] by simp
  moreover have "E ! 0 ! 3 = 0 \<and> F ! 0 ! 3 = 0" using a[rule_format, of 3] by simp
  ultimately show ?thesis using r by blast
qed

section \<open>Coverage of the samples by the streaming loop\<close>

lemma capture_mask_any_length:
  assumes lb: "length b = nat (length_bytes s)"
  shows "length (capture_mask s chunk_data chunk_start b) = length b"
    and "j < length b \<Longrightarrow> capture_mask s chunk_data chunk_start b ! j =
           (if chunk_start \<le> offset s + int j \<and> offset s + int j < chunk_start + int (length chunk_data)
            then 1 else b ! j)"
proof -
  show "length (capture_mask s chunk_data chunk_start b) = length b"
  proof (cases "0 \<le> length_bytes s")
    case True
    then show ?thesis using lb by (rule capture_mask_nth(1))
  next
    case False
    then have e: "b = []" using lb by simp
    have "bytes_times [1::byte]
            ((min (offset s + length_bytes s) (chunk_start + int (length chunk_data)) - offset s)
             - (max (offset s) chunk_start - offset s)) = []"
      using False by (simp add: bytes_times_def)
    then show ?thesis unfolding e by (simp add: capture_mask_def slice_assign_def Let_def)
  qed
  assume j: "j < length b"
  then have "0 \<le> length_bytes s" using lb by (cases "0 \<le> length_bytes s") simp_all
  then show "capture_mask s chunk_data chunk_start b ! j =
           (if chunk_start \<le> offset s + int j \<and> offset s + int j < chunk_start + int (length chunk_data)
            then 1 else b ! j)"
    using lb j by (rule capture_mask_nth(2))
qed

lemma capture_returns:
  assumes "length expected = length samples" "length filled = length samples"
  shows "\<exists>E F. capture_expected_from_chunk samples expected filled chunk_data chunk_start = Inr (E, F) \<and>
     length E = length samples \<and> length F = length samples \<and>
     (\<forall>i<length samples. E ! i = capture_buf (samples ! i) chunk_data chunk_start (expected ! i) \<and>
                         F ! i = capture_mask (samples ! i) chunk_data chunk_start (filled ! i))"
proof -
  have l0: "length expected = 0 + length samples" "length filled = 0 + length samples"
    using assms by simp_all
  from capture_loop_nth[OF l0, of chunk_data chunk_start] obtain E F where
    r: "capture_loop samples 0 expected filled chunk_data chunk_start = Inr (E, F)"
    and lE: "length E = length expected" and lF: "length F = length filled"
    and high: "\<forall>i<length samples.
        E ! (0 + i) = capture_buf (samples ! i) chunk_data chunk_start (expected ! (0 + i)) \<and>
        F ! (0 + i) = capture_mask (samples ! i) chunk_data chunk_start (filled ! (0 + i))"
    by blast
  show ?thesis
    unfolding capture_expected_from_chunk_def
    apply (rule exI[of _ E])
    apply (rule exI[of _ F])
    using r lE lF assms high by simp
qed

lemma filled_upto_step:
  assumes inv: "filled_upto samples filled written"
    and F: "length F = length samples"
      "\<forall>i<length samples. F ! i = capture_mask (samples ! i) chunk_data written (filled ! i)"
  shows "filled_upto samples F (written + int (length chunk_data))"
  unfolding filled_upto_def
proof (intro conjI allI impI)
  show "length F = length samples" by (rule F(1))
next
  fix i assume i: "i < length samples"
  have lb: "length (filled ! i) = nat (length_bytes (samples ! i))"
    using inv i by (simp add: filled_upto_def)
  have Fi: "F ! i = capture_mask (samples ! i) chunk_data written (filled ! i)" using F(2) i by simp
  show "length (F ! i) = nat (length_bytes (samples ! i))"
    unfolding Fi using capture_mask_any_length(1)[OF lb] lb by simp
  fix j assume j: "j < length (F ! i)" and before: "offset (samples ! i) + int j < written + int (length chunk_data)"
  have j': "j < length (filled ! i)"
    using j unfolding Fi using capture_mask_any_length(1)[OF lb, of chunk_data written] by simp
  have old: "offset (samples ! i) + int j < written \<Longrightarrow> filled ! i ! j = 1"
    using inv i j' by (simp add: filled_upto_def)
  show "F ! i ! j = 1"
  proof (cases "written \<le> offset (samples ! i) + int j")
    case True
    then show ?thesis unfolding Fi capture_mask_any_length(2)[OF lb j'] using before by simp
  next
    case False
    then have "filled ! i ! j = 1" using old by simp
    then show ?thesis unfolding Fi capture_mask_any_length(2)[OF lb j'] by simp
  qed
qed

lemma filled_upto_mono:
  "filled_upto samples filled written \<Longrightarrow> written' \<le> written \<Longrightarrow> filled_upto samples filled written'"
proof -
  assume inv: "filled_upto samples filled written" and le: "written' \<le> written"
  show ?thesis
    unfolding filled_upto_def
  proof (intro conjI allI impI)
    show "length filled = length samples" using inv by (simp add: filled_upto_def)
  next
    fix i assume i: "i < length samples"
    show "length (filled ! i) = nat (length_bytes (samples ! i))"
      using inv i by (simp add: filled_upto_def)
    fix j assume j: "j < length (filled ! i)" and b: "offset (samples ! i) + int j < written'"
    have "offset (samples ! i) + int j < written" using b le by linarith
    then show "filled ! i ! j = 1" using inv i j by (simp add: filled_upto_def)
  qed
qed

lemma filled_upto_all_filled:
  assumes inv: "filled_upto samples filled fsize"
    and inside: "\<forall>s\<in>set samples. offset s + length_bytes s \<le> fsize"
  shows "list_all all_filled filled"
proof -
  have "all_filled (filled ! i)" if i: "i < length filled" for i
  proof -
    have i': "i < length samples" using inv i by (simp add: filled_upto_def)
    have lb: "length (filled ! i) = nat (length_bytes (samples ! i))"
      using inv i' by (simp add: filled_upto_def)
    have e: "offset (samples ! i) + length_bytes (samples ! i) \<le> fsize"
      using inside i' by simp
    have "filled ! i ! j = 1" if j: "j < length (filled ! i)" for j
    proof -
      have "int j < length_bytes (samples ! i)" using j lb by linarith
      then have "offset (samples ! i) + int j < fsize" using e by linarith
      then show ?thesis using inv i' j by (simp add: filled_upto_def)
    qed
    then show ?thesis by (simp add: all_filled_def list_all_length)
  qed
  then show ?thesis by (simp add: list_all_length)
qed

lemma filled_upto_initial:
  assumes "\<forall>s\<in>set samples. 0 \<le> offset s"
  shows "filled_upto samples (map (\<lambda>s. bytes_times [0] (length_bytes s)) samples) 0"
  unfolding filled_upto_def
proof (intro conjI allI impI)
  show "length (map (\<lambda>s. bytes_times [0] (length_bytes s)) samples) = length samples" by simp
next
  fix i assume i: "i < length samples"
  show "length (map (\<lambda>s. bytes_times [0] (length_bytes s)) samples ! i)
          = nat (length_bytes (samples ! i))"
    using i by (simp add: length_bytes_times_one)
  fix j assume "offset (samples ! i) + int j < 0"
  moreover have "0 \<le> offset (samples ! i)" using assms i by simp
  ultimately have False by linarith
  then show "map (\<lambda>s. bytes_times [0] (length_bytes s)) samples ! i ! j = 1" ..
qed

lemma token_bytes_ok:
  "0 \<le> n \<Longrightarrow> \<exists>data. token_bytes env n w = (Inr data, w\<lparr>rpos := rpos w + nat n\<rparr>) \<and> length data = nat n"
  by (simp add: token_bytes_def)

lemma file_write_error: "file_write env f pos data w = (Inl e, w') \<Longrightarrow> \<exists>ev. e = OSError ev"
  by (auto simp: file_write_def syscall_def split: if_splits option.splits node.splits)

lemma stream_loop_inv:
  assumes cs: "1 \<le> chunk_size" and v: "verify \<or> samples = []"
  shows "length expected = length samples \<Longrightarrow> filled_upto samples filled written \<Longrightarrow>
    \<exists>res w'. stream_loop env f fsize chunk_size verify samples expected filled written w
               = Some (res, w') \<and>
       (\<forall>E F. res = Inr (E, F) \<longrightarrow> filled_upto samples F fsize) \<and>
       (\<forall>e. res = Inl e \<longrightarrow> (\<exists>ev. e = OSError ev))"
proof (induction "nat (fsize - written)" arbitrary: written w expected filled rule: less_induct)
  case less
  show ?case
  proof (cases "written < fsize")
    case False
    then have "stream_loop env f fsize chunk_size verify samples expected filled written w
        = Some (Inr (expected, filled), w)"
      by (subst stream_loop.simps) simp
    moreover have "filled_upto samples filled fsize"
    proof (rule filled_upto_mono)
      show "filled_upto samples filled written" by (rule less.prems(2))
      show "fsize \<le> written" using False by simp
    qed
    ultimately show ?thesis by simp
  next
    case True
    let ?n = "min chunk_size (fsize - written)"
    have n1: "1 \<le> ?n" using cs True by simp
    then have n0: "0 \<le> ?n" by linarith
    from token_bytes_ok[OF n0, of env w] obtain data where
      tb: "token_bytes env ?n w = (Inr data, w\<lparr>rpos := rpos w + nat ?n\<rparr>)"
      and ld: "length data = nat ?n" by blast
    let ?w1 = "w\<lparr>rpos := rpos w + nat ?n\<rparr>"
    have ldi: "int (length data) = ?n" using ld n0 by linarith
    obtain E F where cap: "(if verify \<and> samples \<noteq> []
                    then capture_expected_from_chunk samples expected filled data written
                    else Inr (expected, filled)) = Inr (E, F)"
      and lE: "length E = length samples"
      and inv': "filled_upto samples F (written + ?n)"
    proof (cases "samples = []")
      case True
      have "filled_upto samples filled (written + ?n)"
        using True less.prems(2) by (simp add: filled_upto_def)
      then show ?thesis using that[of expected filled] True less.prems(1) by simp
    next
      case False
      then have vt: "verify" using v by simp
      have lf: "length filled = length samples" using less.prems(2) by (simp add: filled_upto_def)
      from capture_returns[OF less.prems(1) lf, of data written] obtain E F where
        c: "capture_expected_from_chunk samples expected filled data written = Inr (E, F)"
        and l: "length E = length samples" "length F = length samples"
        and m: "\<forall>i<length samples. E ! i = capture_buf (samples ! i) data written (expected ! i) \<and>
                         F ! i = capture_mask (samples ! i) data written (filled ! i)"
        by blast
      have "filled_upto samples F (written + int (length data))"
      proof (rule filled_upto_step)
        show "filled_upto samples filled written" by (rule less.prems(2))
        show "length F = length samples" by (rule l(2))
        show "\<forall>i<length samples. F ! i = capture_mask (samples ! i) data written (filled ! i)"
          using m by simp
      qed
      then show ?thesis using that[of E F] c l(1) False vt ldi by simp
    qed
    obtain r w2 where fw: "file_write env f written data ?w1 = (r, w2)"
      by (cases "file_write env f written data ?w1")
    show ?thesis
    proof (cases r)
      case (Inl e)
      have "stream_loop env f fsize chunk_size verify samples expected filled written w
              = Some (Inl e, w2)"
        using True tb cap fw Inl by (subst stream_loop.simps) simp
      moreover have "\<exists>ev. e = OSError ev" using fw Inl by (auto dest: file_write_error)
      ultimately show ?thesis by simp
    next
      case (Inr u)
      have step: "stream_loop env f fsize chunk_size verify samples expected filled written w
          = stream_loop env f fsize chunk_size verify samples E F (written + ?n) w2"
        using True tb cap fw Inr by (subst stream_loop.simps) simp
      have dec: "nat (fsize - (written + ?n)) < nat (fsize - written)" using n1 True by linarith
      from less.hyps[OF dec lE inv', of w2] show ?thesis unfolding step .
    qed
  qed
qed

section \<open>Runs: what a function did, read off the trace\<close>

lemma same_kinds_refl: "same_kinds w w"
  by (simp add: same_kinds_def split: option.splits node.splits)

lemma same_kinds_fs: "fs w' = fs w \<Longrightarrow> same_kinds w w'"
  by (simp add: same_kinds_def split: option.splits node.splits)

lemma same_kinds_trans:
  assumes "same_kinds w w1" "same_kinds w1 w2"
  shows "same_kinds w w2"
  unfolding same_kinds_def
proof
  fix q
  from assms(1) have a: "case fs w q of None \<Rightarrow> fs w1 q = None
          | Some (File bs) \<Rightarrow> (\<exists>bs'. fs w1 q = Some (File bs'))
          | Some nd \<Rightarrow> fs w1 q = Some nd" by (simp add: same_kinds_def)
  from assms(2) have b: "case fs w1 q of None \<Rightarrow> fs w2 q = None
          | Some (File bs) \<Rightarrow> (\<exists>bs'. fs w2 q = Some (File bs'))
          | Some nd \<Rightarrow> fs w2 q = Some nd" by (simp add: same_kinds_def)
  show "case fs w q of None \<Rightarrow> fs w2 q = None
          | Some (File bs) \<Rightarrow> (\<exists>bs'. fs w2 q = Some (File bs'))
          | Some nd \<Rightarrow> fs w2 q = Some nd"
    using a b by (auto split: option.splits node.splits)
qed

lemma same_kinds_update:
  "fs w f = Some (File bs) \<Longrightarrow> fs w' = (fs w)(f \<mapsto> File bs') \<Longrightarrow> same_kinds w w'"
  by (simp add: same_kinds_def split: option.splits node.splits)

lemma run_bind:
  assumes r1: "run A K env w (Inr x, w1)" and r2: "run A K env w1 rw"
  shows "run A K env w rw"
proof -
  from r1 obtain tr1 where t1: "trace w1 = trace w @ tr1"
    and a1: "\<forall>ev\<in>set tr1. A ev"
    and k1: "\<forall>i<length tr1. K (tr1 ! i) \<longrightarrow> \<not> fault env (trace w @ take i tr1) (tr1 ! i)"
    and s1: "(\<forall>ev\<in>set tr1. \<not> is_deletion ev) \<longrightarrow> same_kinds w w1"
    unfolding run_def by auto
  from r2 obtain tr2 where t2: "trace (snd rw) = trace w1 @ tr2"
    and a2: "\<forall>ev\<in>set tr2. A ev"
    and k2: "\<forall>i<length tr2. K (tr2 ! i) \<longrightarrow> fault env (trace w1 @ take i tr2) (tr2 ! i) \<longrightarrow>
             Suc i = length tr2 \<and> fst rw = Inl (OSError (tr2 ! i))"
    and s2: "(\<forall>ev\<in>set tr2. \<not> is_deletion ev) \<longrightarrow> same_kinds w1 (snd rw)"
    and m2: "\<forall>p k off. fst rw = Inl (RuntimeError (VerificationMismatch p k off)) \<longrightarrow>
             tr2 \<noteq> [] \<and> (\<exists>f n. last tr2 = Read f off n)"
    unfolding run_def by auto
  let ?tr = "tr1 @ tr2"
  have c1: "trace (snd rw) = trace w @ ?tr" using t1 t2 by simp
  have c2: "\<forall>ev\<in>set ?tr. A ev" using a1 a2 by auto
  have c3: "\<forall>i<length ?tr. K (?tr ! i) \<longrightarrow> fault env (trace w @ take i ?tr) (?tr ! i) \<longrightarrow>
             Suc i = length ?tr \<and> fst rw = Inl (OSError (?tr ! i))"
  proof (intro allI impI)
    fix i assume i: "i < length ?tr" and k: "K (?tr ! i)"
      and f: "fault env (trace w @ take i ?tr) (?tr ! i)"
    show "Suc i = length ?tr \<and> fst rw = Inl (OSError (?tr ! i))"
    proof (cases "i < length tr1")
      case True
      then have "?tr ! i = tr1 ! i" "take i ?tr = take i tr1" by (simp_all add: nth_append)
      then show ?thesis using k f k1 True by auto
    next
      case False
      let ?j = "i - length tr1"
      have j: "?j < length tr2" using i False by simp
      have e: "?tr ! i = tr2 ! ?j" using False by (simp add: nth_append)
      have p: "trace w @ take i ?tr = trace w1 @ take ?j tr2" using False t1 by simp
      have "Suc ?j = length tr2 \<and> fst rw = Inl (OSError (tr2 ! ?j))"
        using k2 j k f unfolding e p by blast
      then show ?thesis using e False by auto
    qed
  qed
  have c4: "(\<forall>ev\<in>set ?tr. \<not> is_deletion ev) \<longrightarrow> same_kinds w (snd rw)"
    using s1 s2 by (auto intro: same_kinds_trans)
  have c5: "\<forall>p k off. fst rw = Inl (RuntimeError (VerificationMismatch p k off)) \<longrightarrow>
             ?tr \<noteq> [] \<and> (\<exists>f n. last ?tr = Read f off n)"
    using m2 by auto
  show ?thesis unfolding run_def using c1 c2 c3 c4 c5 by blast
qed

lemma run_quiet:
  assumes "trace w' = trace w" "fs w' = fs w" "not_mismatch r"
  shows "run A K env w (r, w')"
  unfolding run_def using assms
  by (intro exI[of _ "[]"]) (simp add: same_kinds_fs not_mismatch_def)

lemma run_single:
  assumes "trace w' = trace w @ [ev]" "A ev"
    and "K ev \<Longrightarrow> fault env (trace w) ev \<Longrightarrow> r = Inl (OSError ev)"
    and "\<not> is_deletion ev \<Longrightarrow> same_kinds w w'"
    and "not_mismatch r"
  shows "run A K env w (r, w')"
  unfolding run_def using assms
  by (intro exI[of _ "[ev]"]) (simp add: not_mismatch_def)

lemma run_mono:
  assumes "run A K env w rw" "\<And>ev. A ev \<Longrightarrow> A' ev" "\<And>ev. K' ev \<Longrightarrow> K ev"
  shows "run A' K' env w rw"
proof -
  from assms(1) obtain tr where t: "trace (snd rw) = trace w @ tr"
    and a: "\<forall>ev\<in>set tr. A ev"
    and k: "\<forall>i<length tr. K (tr ! i) \<longrightarrow> fault env (trace w @ take i tr) (tr ! i) \<longrightarrow>
             Suc i = length tr \<and> fst rw = Inl (OSError (tr ! i))"
    and s: "(\<forall>ev\<in>set tr. \<not> is_deletion ev) \<longrightarrow> same_kinds w (snd rw)"
    and m: "\<forall>p k off. fst rw = Inl (RuntimeError (VerificationMismatch p k off)) \<longrightarrow>
             tr \<noteq> [] \<and> (\<exists>f n. last tr = Read f off n)"
    unfolding run_def by auto
  have a': "\<forall>ev\<in>set tr. A' ev" using a assms(2) by blast
  have k': "\<forall>i<length tr. K' (tr ! i) \<longrightarrow> fault env (trace w @ take i tr) (tr ! i) \<longrightarrow>
             Suc i = length tr \<and> fst rw = Inl (OSError (tr ! i))"
    using k assms(3) by blast
  show ?thesis unfolding run_def using t a' k' s m by blast
qed

lemma run_change_result:
  assumes "run A K env w (Inr x, w')" "not_mismatch r"
  shows "run A K env w (r, w')"
proof -
  from assms(1) obtain tr where t: "trace w' = trace w @ tr"
    and a: "\<forall>ev\<in>set tr. A ev"
    and k: "\<forall>i<length tr. K (tr ! i) \<longrightarrow> \<not> fault env (trace w @ take i tr) (tr ! i)"
    and s: "(\<forall>ev\<in>set tr. \<not> is_deletion ev) \<longrightarrow> same_kinds w w'"
    unfolding run_def by auto
  show ?thesis unfolding run_def using t a k s assms(2)
    by (intro exI[of _ tr]) (simp add: not_mismatch_def)
qed

lemma not_mismatch_simps [simp]:
  "not_mismatch (Inr x)"
  "not_mismatch (Inl (OSError ev))"
  "not_mismatch (Inl (FileNotFoundError p))"
  "not_mismatch (Inl (IsADirectoryError p))"
  "not_mismatch (Inl (NotADirectoryError p))"
  "not_mismatch (Inl (ValueError s))"
  "not_mismatch (Inl IndexError)"
  "not_mismatch (Inl EOFError)"
  "not_mismatch (Inl (RuntimeError CaptureFailed))"
  "not_mismatch (Inl (RuntimeError (RefusingSymlink p)))"
  by (simp_all add: not_mismatch_def)

lemma syscall_cases:
  "syscall env ev w = (r, w') \<Longrightarrow>
     w' = w\<lparr>trace := trace w @ [ev]\<rparr> \<and> (fault env (trace w) ev \<longrightarrow> r = Inl (OSError ev)) \<and>
     (\<not> fault env (trace w) ev \<longrightarrow> r = Inr ())"
  by (auto simp: syscall_def split: if_splits)

lemma run_path_stat_size: "A (Stat p) \<Longrightarrow> run A K env w (path_stat_size env p w)"
  by (auto simp: path_stat_size_def syscall_def same_kinds_fs intro!: run_single
           split: option.splits node.splits)

lemma run_open_rw: "A (Open p) \<Longrightarrow> run A K env w (open_rw env p w)"
  by (auto simp: open_rw_def syscall_def same_kinds_fs intro!: run_single
           split: option.splits node.splits)

lemma run_file_seek: "A (Seek f pos) \<Longrightarrow> run A K env w (file_seek env f pos w)"
  by (auto simp: file_seek_def syscall_def same_kinds_fs intro!: run_single)

lemma run_file_write:
  "A (Write f pos (length data)) \<Longrightarrow> run A K env w (file_write env f pos data w)"
  by (auto simp: file_write_def syscall_def same_kinds_fs intro!: run_single
           intro: same_kinds_update split: option.splits node.splits)

lemma run_file_read: "A (Read f pos n) \<Longrightarrow> run A K env w (file_read env f pos n w)"
  by (auto simp: file_read_def syscall_def same_kinds_fs intro!: run_single
           split: option.splits node.splits)

lemma run_file_flush: "A (Flush f) \<Longrightarrow> run A K env w (file_flush env f w)"
  by (auto simp: file_flush_def syscall_def same_kinds_fs intro!: run_single)

lemma run_os_fsync: "A (Fsync f) \<Longrightarrow> run A K env w (os_fsync env f w)"
  by (auto simp: os_fsync_def syscall_def same_kinds_fs intro!: run_single)

lemma run_file_truncate: "A (Truncate f) \<Longrightarrow> run A K env w (file_truncate env f n w)"
  by (auto simp: file_truncate_def syscall_def intro!: run_single
           split: option.splits node.splits)

lemma run_path_rename: "A (Rename src dst) \<Longrightarrow> run A K env w (path_rename env src dst w)"
  by (auto simp: path_rename_def syscall_def intro!: run_single
           split: option.splits node.splits)

lemma run_path_unlink: "A (Unlink p) \<Longrightarrow> run A K env w (path_unlink env p w)"
  by (auto simp: path_unlink_def syscall_def intro!: run_single
           split: option.splits node.splits)

lemma run_hint:
  assumes "trace w' = trace w @ [ev]" "fs w' = fs w" "A ev" "\<not> K ev" "\<not> is_deletion ev" "not_mismatch r"
  shows "run A K env w (r, w')"
proof (rule run_single)
  show "trace w' = trace w @ [ev]" by (rule assms(1))
  show "A ev" by (rule assms(3))
  show "r = Inl (OSError ev)" if "K ev" using that assms(4) by contradiction
  show "same_kinds w w'" using assms(2) by (rule same_kinds_fs)
  show "not_mismatch r" by (rule assms(6))
qed

lemma run_fsync_dir:
  "A (FsyncDir d) \<Longrightarrow> \<not> K (FsyncDir d) \<Longrightarrow> not_mismatch r \<Longrightarrow>
   run A K env w (r, fsync_dir_best_effort d w)"
  by (rule run_hint[where ev = "FsyncDir d"]) (simp_all add: fsync_dir_best_effort_def)

lemma run_drop_cache:
  "A (Fadvise f) \<Longrightarrow> \<not> K (Fadvise f) \<Longrightarrow> not_mismatch r \<Longrightarrow>
   run A K env w (r, linux_drop_page_cache_best_effort f n w)"
  by (rule run_hint[where ev = "Fadvise f"]) (simp_all add: linux_drop_page_cache_best_effort_def)

lemma not_mismatch_Inl [simp]:
  "not_mismatch (Inl e) = (\<forall>p k off. e \<noteq> RuntimeError (VerificationMismatch p k off))"
  by (simp add: not_mismatch_def)

lemma token_bytes_quiet:
  "token_bytes env n w = (r, w') \<Longrightarrow> trace w' = trace w \<and> fs w' = fs w \<and> not_mismatch r"
  by (auto simp: token_bytes_def split: if_splits)

lemma randbelow_quiet:
  "randbelow env k w = (r, w') \<Longrightarrow> trace w' = trace w \<and> fs w' = fs w \<and> not_mismatch r"
  by (auto simp: randbelow_def split: if_splits)

lemma rand_name_hex_quiet:
  "rand_name_hex env n w = (r, w') \<Longrightarrow> trace w' = trace w \<and> fs w' = fs w \<and> not_mismatch r"
  by (auto simp: rand_name_hex_def token_hex_def dest: token_bytes_quiet split: prod.splits sum.splits)

lemma sample_loop_quiet:
  "sample_loop env fsize sl n acc w = (r, w') \<Longrightarrow>
     trace w' = trace w \<and> fs w' = fs w \<and> not_mismatch r"
proof (induction n arbitrary: acc w)
  case 0
  then show ?case by auto
next
  case (Suc n)
  obtain r1 w1 where rb: "randbelow env (fsize - sl + 1) w = (r1, w1)"
    by (cases "randbelow env (fsize - sl + 1) w")
  note q = randbelow_quiet[OF rb]
  show ?case
  proof (cases r1)
    case (Inl e)
    then show ?thesis using Suc.prems rb q by auto
  next
    case (Inr start)
    then have "sample_loop env fsize sl n (acc @ [\<lparr>offset = start, length_bytes = sl\<rparr>]) w1 = (r, w')"
      using Suc.prems rb by simp
    from Suc.IH[OF this] show ?thesis using q by simp
  qed
qed

lemma choose_samples_quiet:
  "choose_samples env fsize n sl w = (r, w') \<Longrightarrow>
     trace w' = trace w \<and> fs w' = fs w \<and> not_mismatch r"
  by (auto simp: choose_samples_def dest: sample_loop_quiet split: if_splits)

lemma build_pass_count_quiet:
  "build_pass_count env lo hi rnd w = (r, w') \<Longrightarrow>
     trace w' = trace w \<and> fs w' = fs w \<and> not_mismatch r"
  by (auto simp: build_pass_count_def dest: randbelow_quiet split: if_splits prod.splits sum.splits)

lemma capture_loop_error:
  "capture_loop ss k expected filled chunk_data chunk_start = Inl e \<Longrightarrow> e = IndexError"
  by (induction ss k expected filled chunk_data chunk_start rule: capture_loop.induct)
     (auto simp: Let_def split: if_splits)

lemma bytearrays_error:
  "bytearrays ss = Inl e \<Longrightarrow> e = ValueError ''negative count''"
  by (induction ss arbitrary: e) (auto simp: bytearray_def split: if_splits sum.splits)

lemma run_Inl:
  "run A K env w (Inl e :: error + 'a, w') \<Longrightarrow> run A K env w (Inl e :: error + 'b, w')"
  by (simp add: run_def)

lemma run_stream_loop_aux:
  assumes "stream_loop env f fsize chunk_size verify samples expected filled written w = Some rw"
  shows "(\<forall>pos n. A (Write f pos n)) \<longrightarrow> run A K env w rw"
proof (rule stream_loop.raw_induct[where P = "\<lambda>env f fsize chunk_size verify samples expected
          filled written w rw. (\<forall>pos n. A (Write f pos n)) \<longrightarrow> run A K env w rw", OF _ assms],
       goal_cases)
  case (1 sl env f fsize chunk_size verify samples expected filled written w rw)
  note IH = 1(1) and body = 1(2)
  show ?case
  proof
  assume A': "\<forall>pos n. A (Write f pos n)"
  then have A: "\<And>pos n. A (Write f pos n)" by blast
  show "run A K env w rw"
  proof (cases "written < fsize")
    case False
    then have rw: "rw = (Inr (expected, filled), w)" using body by simp
    show ?thesis unfolding rw by (intro run_quiet) simp_all
  next
    case True
    let ?n = "min chunk_size (fsize - written)"
    obtain r1 w1 where tb: "token_bytes env ?n w = (r1, w1)" by (cases "token_bytes env ?n w")
    note q1 = token_bytes_quiet[OF tb]
    have run1: "run A K env w (r1, w1)" using q1 by (simp add: run_quiet)
    show ?thesis
    proof (cases r1)
      case (Inl e)
      then have rw: "rw = (Inl e, w1)" using body True tb by simp
      have "run A K env w (Inl e :: error + byte list, w1)" using run1 Inl by simp
      then show ?thesis unfolding rw by (rule run_Inl)
    next
      case (Inr data)
      let ?c = "if verify \<and> samples \<noteq> []
                then capture_expected_from_chunk samples expected filled data written
                else Inr (expected, filled)"
      show ?thesis
      proof (cases ?c)
        case cInl: (Inl e)
        then have e: "e = IndexError"
          by (auto simp: capture_expected_from_chunk_def dest: capture_loop_error split: if_splits)
        have rw: "rw = (Inl e, w1)" using body True tb Inr cInl by simp
        show ?thesis unfolding rw using q1 e by (intro run_quiet) simp_all
      next
        case cInr: (Inr ef)
        obtain E F where ef: "ef = (E, F)" by (cases ef)
        obtain r2 w2 where fw: "file_write env f written data w1 = (r2, w2)"
          by (cases "file_write env f written data w1")
        have run2: "run A K env w1 (r2, w2)"
          using run_file_write[of A f written data K env w1] A fw by simp
        have run1': "run A K env w (Inr data, w1)" using run1 Inr by simp
        have run12: "run A K env w (r2, w2)" by (rule run_bind[OF run1' run2])
        show ?thesis
        proof (cases r2)
          case (Inl e)
          then have rw: "rw = (Inl e, w2)" using body True tb Inr cInr ef fw by simp
          have "run A K env w (Inl e :: error + unit, w2)" using run12 Inl by simp
          then show ?thesis unfolding rw by (rule run_Inl)
        next
          case r2Inr: (Inr u)
          then have "sl env f fsize chunk_size verify samples E F (written + ?n) w2 = Some rw"
            using body True tb Inr cInr ef fw by simp
          from IH[OF this] A' have run3: "run A K env w2 rw" by blast
          have "run A K env w (Inr u, w2)" using run12 r2Inr by simp
          from run_bind[OF this run3] show ?thesis .
        qed
      qed
    qed
  qed
qed
qed

lemma run_stream_loop:
  assumes "stream_loop env f fsize chunk_size verify samples expected filled written w = Some rw"
    and "\<And>pos n. A (Write f pos n)"
  shows "run A K env w rw"
  using run_stream_loop_aux[OF assms(1), of A K] assms(2) by blast

lemma file_seek_Inr: "file_seek env f pos w = (Inr x, w') \<Longrightarrow> x = pos"
  by (auto simp: file_seek_def syscall_def split: if_splits)

lemma run_mismatch_after_read:
  assumes rd: "file_read env f pos n w = (Inr got, w')" and A: "A (Read f pos n)"
  shows "run A K env w (Inl (RuntimeError (VerificationMismatch p k pos)) :: error + 'a, w')"
proof -
  have nf: "\<not> fault env (trace w) (Read f pos n)"
    using rd by (auto simp: file_read_def syscall_def split: if_splits)
  have w': "w' = w\<lparr>trace := trace w @ [Read f pos n]\<rparr>"
    using rd by (auto simp: file_read_def syscall_def split: if_splits option.splits node.splits)
  show ?thesis
    unfolding run_def
    by (rule exI[of _ "[Read f pos n]"]) (simp add: w' A nf same_kinds_fs)
qed

lemma run_readback_loop:
  assumes A: "\<And>ev. \<not> is_deletion ev \<Longrightarrow> A ev"
  shows "run A K env w (readback_loop env f p samples i expected w)"
proof (induction samples arbitrary: i w)
  case Nil
  show ?case by (simp add: run_quiet)
next
  case (Cons s ss)
  obtain r1 w1 where sk: "file_seek env f (offset s) w = (r1, w1)"
    by (cases "file_seek env f (offset s) w")
  have run1: "run A K env w (r1, w1)"
    using run_file_seek[of A f "offset s" K env w] A sk by simp
  show ?case
  proof (cases r1)
    case (Inl e)
    have "run A K env w (Inl e :: error + int, w1)" using run1 Inl by simp
    then have "run A K env w (Inl e :: error + unit, w1)" by (rule run_Inl)
    then show ?thesis using sk Inl by simp
  next
    case (Inr pos)
    have pos: "pos = offset s" using sk Inr by (auto dest: file_seek_Inr)
    have run1': "run A K env w (Inr pos, w1)" using run1 Inr by simp
    obtain r2 w2 where rd: "file_read env f pos (length_bytes s) w1 = (r2, w2)"
      by (cases "file_read env f pos (length_bytes s) w1")
    have run2: "run A K env w1 (r2, w2)"
      using run_file_read[of A f pos "length_bytes s" K env w1] A rd by simp
    have run12: "run A K env w (r2, w2)" by (rule run_bind[OF run1' run2])
    show ?thesis
    proof (cases r2)
      case (Inl e)
      have "run A K env w (Inl e :: error + byte list, w2)" using run12 Inl by simp
      then have "run A K env w (Inl e :: error + unit, w2)" by (rule run_Inl)
      then show ?thesis using sk \<open>r1 = Inr pos\<close> rd Inl by simp
    next
      case r2: (Inr got)
      have run12': "run A K env w (Inr got, w2)" using run12 r2 by simp
      consider (short) "length expected \<le> i"
        | (diff) "\<not> length expected \<le> i" "got \<noteq> expected ! i"
        | (same) "\<not> length expected \<le> i" "got = expected ! i" by blast
      then show ?thesis
      proof cases
        case short
        have "run A K env w (Inl IndexError :: error + unit, w2)"
          by (rule run_change_result[OF run12']) simp
        then show ?thesis using sk \<open>r1 = Inr pos\<close> rd r2 short by simp
      next
        case diff
        have "run A K env w1
                (Inl (RuntimeError (VerificationMismatch p (i + 1) pos)) :: error + unit, w2)"
          using rd r2 A by (intro run_mismatch_after_read[where got = got]) simp_all
        from run_bind[OF run1' this]
        show ?thesis using sk \<open>r1 = Inr pos\<close> rd r2 diff pos by simp
      next
        case same
        have "run A K env w2 (readback_loop env f p ss (Suc i) expected w2)" by (rule Cons.IH)
        from run_bind[OF run12' this]
        show ?thesis using sk \<open>r1 = Inr pos\<close> rd r2 same by simp
      qed
    qed
  qed
qed

lemma run_verify_pass:
  assumes A: "\<And>ev. \<not> is_deletion ev \<Longrightarrow> A ev" and K: "\<And>ev. K ev \<Longrightarrow> \<not> is_hint ev"
  shows "run A K env w (verify_pass env f fsize p dc samples expected filled w)"
proof (cases "list_all all_filled filled")
  case False
  then show ?thesis by (simp add: verify_pass_def run_quiet)
next
  case True
  obtain r1 w1 where rb: "readback_loop env f p samples 0 expected w = (r1, w1)"
    by (cases "readback_loop env f p samples 0 expected w")
  have run1: "run A K env w (r1, w1)"
    using run_readback_loop[where A = A and K = K and env = env and w = w and f = f and p = p
        and samples = samples and i = 0 and expected = expected, OF A] rb by simp
  show ?thesis
  proof (cases r1)
    case (Inl e)
    then show ?thesis using True rb run1 by (simp add: verify_pass_def)
  next
    case (Inr u)
    show ?thesis
    proof (cases dc)
      case False
      then show ?thesis using True rb run1 Inr by (simp add: verify_pass_def)
    next
      case dcT: True
      have "run A K env w1 (Inr () :: error + unit, linux_drop_page_cache_best_effort f fsize w1)"
      proof (rule run_drop_cache)
        show "A (Fadvise f)" by (rule A) simp
        show "\<not> K (Fadvise f)" using K[of "Fadvise f"] by auto
        show "not_mismatch (Inr () :: error + unit)" by simp
      qed
      from run_bind[OF _ this, of w u] run1 Inr
      show ?thesis using True rb dcT by (simp add: verify_pass_def)
    qed
  qed
qed

lemma run_one_pass:
  assumes A: "\<And>ev. \<not> is_deletion ev \<Longrightarrow> A ev" and K: "\<And>ev. K ev \<Longrightarrow> \<not> is_hint ev"
    and r: "one_pass env f fsize cs v vs vl dc p w = Some rw"
  shows "run A K env w rw"
proof -
  obtain r0 w1 where c: "(if v then choose_samples env fsize vs vl w else (Inr [], w)) = (r0, w1)"
    by (cases "if v then choose_samples env fsize vs vl w else (Inr [], w)")
  have q0: "trace w1 = trace w \<and> fs w1 = fs w \<and> not_mismatch r0"
    using c by (auto dest: choose_samples_quiet split: if_splits)
  have run0: "run A K env w (r0, w1)" using q0 by (simp add: run_quiet)
  show ?thesis
  proof (cases r0)
    case (Inl e)
    then have rw: "rw = (Inl e, w1)" using r c by (simp add: one_pass_def)
    have "run A K env w (Inl e :: error + Sample list, w1)" using run0 Inl by simp
    then show ?thesis unfolding rw by (rule run_Inl)
  next
    case r0: (Inr samples)
    have run0': "run A K env w (Inr samples, w1)" using run0 r0 by simp
    show ?thesis
    proof (cases "bytearrays samples")
      case (Inl e)
      then have rw: "rw = (Inl e, w1)" using r c r0 by (simp add: one_pass_def)
      have "e = ValueError ''negative count''" using Inl by (rule bytearrays_error)
      then have "not_mismatch (Inl e :: error + unit)" by simp
      from run_change_result[OF run0' this] show ?thesis unfolding rw .
    next
      case ba: (Inr expected)
      obtain r2 w2 where sk: "file_seek env f 0 w1 = (r2, w2)" by (cases "file_seek env f 0 w1")
      have "run A K env w1 (r2, w2)"
        using run_file_seek[of A f 0 K env w1] A sk by simp
      from run_bind[OF run0' this] have run02: "run A K env w (r2, w2)" .
      show ?thesis
      proof (cases r2)
        case (Inl e)
        then have rw: "rw = (Inl e, w2)" using r c r0 ba sk by (simp add: one_pass_def)
        have "run A K env w (Inl e :: error + int, w2)" using run02 Inl by simp
        then show ?thesis unfolding rw by (rule run_Inl)
      next
        case r2: (Inr pos)
        have run02': "run A K env w (Inr pos, w2)" using run02 r2 by simp
        let ?sl = "stream_loop env f fsize cs v samples expected
                     (map (\<lambda>s. bytes_times [0] (length_bytes s)) samples) pos w2"
        show ?thesis
        proof (cases ?sl)
          case None
          then show ?thesis using r c r0 ba sk r2 by (simp add: one_pass_def)
        next
          case (Some rw3)
          obtain r3 w3 where rw3: "rw3 = (r3, w3)" by (cases rw3)
          have "run A K env w2 rw3" using Some A by (intro run_stream_loop[where f = f]) simp_all
          from run_bind[OF run02' this] have run03: "run A K env w (r3, w3)" unfolding rw3 .
          show ?thesis
          proof (cases r3)
            case (Inl e)
            then have rw: "rw = (Inl e, w3)" using r c r0 ba sk r2 Some rw3 by (simp add: one_pass_def)
            have "run A K env w (Inl e :: error + byte list list \<times> byte list list, w3)"
              using run03 Inl by simp
            then show ?thesis unfolding rw by (rule run_Inl)
          next
            case r3: (Inr ef)
            obtain E F where ef: "ef = (E, F)" by (cases ef)
            have run03': "run A K env w (Inr ef, w3)" using run03 r3 by simp
            obtain r4 w4 where fl: "file_flush env f w3 = (r4, w4)" by (cases "file_flush env f w3")
            have "run A K env w3 (r4, w4)" using run_file_flush[of A f K env w3] A fl by simp
            from run_bind[OF run03' this] have run04: "run A K env w (r4, w4)" .
            show ?thesis
            proof (cases r4)
              case (Inl e)
              then have rw: "rw = (Inl e, w4)"
                using r c r0 ba sk r2 Some rw3 r3 ef fl by (simp add: one_pass_def)
              show ?thesis unfolding rw using run04 Inl by simp
            next
              case r4: (Inr u4)
              have run04': "run A K env w (Inr u4, w4)" using run04 r4 by simp
              obtain r5 w5 where fy: "os_fsync env f w4 = (r5, w5)" by (cases "os_fsync env f w4")
              have "run A K env w4 (r5, w5)" using run_os_fsync[of A f K env w4] A fy by simp
              from run_bind[OF run04' this] have run05: "run A K env w (r5, w5)" .
              show ?thesis
              proof (cases r5)
                case (Inl e)
                then have rw: "rw = (Inl e, w5)"
                  using r c r0 ba sk r2 Some rw3 r3 ef fl r4 fy by (simp add: one_pass_def)
                show ?thesis unfolding rw using run05 Inl by simp
              next
                case r5: (Inr u5)
                have run05': "run A K env w (Inr (), w5)" using run05 r5 by simp
                let ?w6 = "if dc then linux_drop_page_cache_best_effort f fsize w5 else w5"
                have run06: "run A K env w (Inr () :: error + unit, ?w6)"
                proof (cases dc)
                  case False
                  then show ?thesis using run05' by simp
                next
                  case True
                  have "run A K env w5
                          (Inr () :: error + unit, linux_drop_page_cache_best_effort f fsize w5)"
                  proof (rule run_drop_cache)
                    show "A (Fadvise f)" by (rule A) simp
                    show "\<not> K (Fadvise f)" using K[of "Fadvise f"] by auto
                    show "not_mismatch (Inr () :: error + unit)" by simp
                  qed
                  from run_bind[OF run05' this] show ?thesis using True by simp
                qed
                show ?thesis
                proof (cases "v \<and> samples \<noteq> []")
                  case True
                  then have rw: "rw = verify_pass env f fsize p dc samples E F ?w6"
                    using r c r0 ba sk r2 Some rw3 r3 ef fl r4 fy r5 by (simp add: one_pass_def)
                  have "run A K env ?w6 (verify_pass env f fsize p dc samples E F ?w6)"
                    using A K by (rule run_verify_pass)
                  from run_bind[OF run06 this] show ?thesis unfolding rw .
                next
                  case False
                  then have rw: "rw = (Inr (), ?w6)"
                    using r c r0 ba sk r2 Some rw3 r3 ef fl r4 fy r5
                    by (simp add: one_pass_def split: if_splits)
                  show ?thesis unfolding rw by (rule run06)
                qed
              qed
            qed
          qed
        qed
      qed
    qed
  qed
qed

lemma run_pass_loop:
  assumes A: "\<And>ev. \<not> is_deletion ev \<Longrightarrow> A ev" and K: "\<And>ev. K ev \<Longrightarrow> \<not> is_hint ev"
  shows "pass_loop env f fsize cs v vs vl dc ps w = Some rw \<Longrightarrow> run A K env w rw"
proof (induction ps arbitrary: w)
  case Nil
  then have rw: "rw = (Inr (), w)" by simp
  show ?case unfolding rw by (simp add: run_quiet)
next
  case (Cons p ps)
  show ?case
  proof (cases "one_pass env f fsize cs v vs vl dc p w")
    case None
    then show ?thesis using Cons.prems by simp
  next
    case (Some rw1)
    obtain r1 w1 where rw1: "rw1 = (r1, w1)" by (cases rw1)
    have run1: "run A K env w (r1, w1)"
      using run_one_pass[OF A K Some] unfolding rw1 by simp
    show ?thesis
    proof (cases r1)
      case (Inl e)
      then have "rw = (Inl e, w1)" using Cons.prems Some rw1 by simp
      then show ?thesis using run1 Inl by simp
    next
      case (Inr u)
      then have "pass_loop env f fsize cs v vs vl dc ps w1 = Some rw"
        using Cons.prems Some rw1 by simp
      from Cons.IH[OF this] have "run A K env w1 rw" .
      from run_bind[OF _ this, of w u] run1 Inr show ?thesis by simp
    qed
  qed
qed

lemma run_overwrite_random_streaming:
  assumes A: "\<And>ev. \<not> is_deletion ev \<Longrightarrow> A ev" and K: "\<And>ev. K ev \<Longrightarrow> \<not> is_hint ev"
    and r: "overwrite_random_streaming env path passes cs v vs vl dc w = Some rw"
  shows "run A K env w rw"
proof -
  obtain r1 w1 where st: "path_stat_size env path w = (r1, w1)"
    by (cases "path_stat_size env path w")
  have run1: "run A K env w (r1, w1)"
    using run_path_stat_size[of A path K env w] A st by simp
  show ?thesis
  proof (cases r1)
    case (Inl e)
    then have rw: "rw = (Inl e, w1)" using r st by (simp add: overwrite_random_streaming_def)
    have "run A K env w (Inl e :: error + int, w1)" using run1 Inl by simp
    then show ?thesis unfolding rw by (rule run_Inl)
  next
    case r1: (Inr fsize)
    have run1': "run A K env w (Inr fsize, w1)" using run1 r1 by simp
    show ?thesis
    proof (cases "fsize = 0")
      case True
      then have rw: "rw = (Inr (), w1)" using r st r1 by (simp add: overwrite_random_streaming_def)
      show ?thesis unfolding rw by (rule run_change_result[OF run1']) simp
    next
      case False
      obtain r2 w2 where op: "open_rw env path w1 = (r2, w2)" by (cases "open_rw env path w1")
      have "run A K env w1 (r2, w2)" using run_open_rw[of A path K env w1] A op by simp
      from run_bind[OF run1' this] have run12: "run A K env w (r2, w2)" .
      show ?thesis
      proof (cases r2)
        case (Inl e)
        then have rw: "rw = (Inl e, w2)"
          using r st r1 False op by (simp add: overwrite_random_streaming_def)
        have "run A K env w (Inl e :: error + Path, w2)" using run12 Inl by simp
        then show ?thesis unfolding rw by (rule run_Inl)
      next
        case (Inr f)
        then have "pass_loop env f fsize cs v vs vl dc [1 .. passes] w2 = Some rw"
          using r st r1 False op by (simp add: overwrite_random_streaming_def)
        from run_pass_loop[OF A K this] have "run A K env w2 rw" .
        from run_bind[OF _ this, of w f] run12 Inr show ?thesis by simp
      qed
    qed
  qed
qed

lemma with_name_error: "with_name p n = Inl e \<Longrightarrow> \<exists>s. e = ValueError s"
  by (auto simp: with_name_def split: if_splits)

lemma candidate_loop_quiet:
  "candidate_loop env current candidate tries w = (r, w') \<Longrightarrow>
     trace w' = trace w \<and> fs w' = fs w \<and> not_mismatch r"
proof (induction env current candidate tries w rule: candidate_loop.induct)
  case (1 env current candidate tries w)
  show ?case
  proof (cases "path_exists w candidate \<and> tries < 10")
    case False
    then show ?thesis using "1.prems" by (subst (asm) candidate_loop.simps) auto
  next
    case True
    obtain r1 w1 where rn: "rand_name_hex env 16 w = (r1, w1)" by (cases "rand_name_hex env 16 w")
    note q = rand_name_hex_quiet[OF rn]
    show ?thesis
    proof (cases r1)
      case (Inl e)
      then show ?thesis using "1.prems" True rn q by (subst (asm) candidate_loop.simps) auto
    next
      case r1: (Inr new_name)
      show ?thesis
      proof (cases "with_name current new_name")
        case (Inl e)
        then have nm: "not_mismatch (Inl e :: error + Path)" by (auto dest: with_name_error)
        have "r = Inl e \<and> w' = w1" using "1.prems" True rn r1 Inl
          by (subst (asm) candidate_loop.simps) auto
        then show ?thesis using q nm by simp
      next
        case (Inr candidate')
        then have "candidate_loop env current candidate' (tries + 1) w1 = (r, w')"
          using "1.prems" True rn r1 by (subst (asm) candidate_loop.simps) simp
        from "1.IH"[OF True rn[symmetric] r1 Inr this] show ?thesis using q by simp
      qed
    qed
  qed
qed

lemma run_swallow:
  assumes "run A K env w (r, w')" and AK: "\<And>ev. A ev \<Longrightarrow> \<not> K ev"
  shows "run A K env w (Inr x, w')"
proof -
  from assms(1) obtain tr where t: "trace w' = trace w @ tr"
    and a: "\<forall>ev\<in>set tr. A ev"
    and s: "(\<forall>ev\<in>set tr. \<not> is_deletion ev) \<longrightarrow> same_kinds w w'"
    unfolding run_def by auto
  have k: "\<forall>i<length tr. K (tr ! i) \<longrightarrow> fault env (trace w @ take i tr) (tr ! i) \<longrightarrow>
             Suc i = length tr \<and> (Inr x :: error + 'b) = Inl (OSError (tr ! i))"
    using a AK by (auto simp: all_set_conv_all_nth)
  show ?thesis unfolding run_def using t a k s by (intro exI[of _ tr]) simp
qed

lemma run_truncate_best_effort:
  assumes K: "\<And>ev. K ev \<Longrightarrow> propagating ev"
  shows "run (\<lambda>ev. \<not> propagating ev) K env w (Inr x, truncate_best_effort env current w)"
proof -
  let ?A = "\<lambda>ev. \<not> propagating ev"
  have AK: "\<And>ev. ?A ev \<Longrightarrow> \<not> K ev" using K by blast
  have nK: "?A (Open p)" "?A (Truncate p)" "?A (Flush p)" "?A (Fsync p)" for p
    by simp_all
  obtain r1 w1 where op: "open_rw env current w = (r1, w1)" by (cases "open_rw env current w")
  have run1: "run ?A K env w (r1, w1)"
    using run_open_rw[of ?A current K env w] nK op by simp
  show ?thesis
  proof (cases r1)
    case (Inl e)
    then have e: "truncate_best_effort env current w = w1" using op by (simp add: truncate_best_effort_def)
    show ?thesis unfolding e by (rule run_swallow[OF run1 AK])
  next
    case r1: (Inr f)
    have run1': "run ?A K env w (Inr f, w1)" using run1 r1 by simp
    obtain r2 w2 where tr: "file_truncate env f 0 w1 = (r2, w2)" by (cases "file_truncate env f 0 w1")
    have "run ?A K env w1 (r2, w2)" using run_file_truncate[of ?A f K env w1 0] nK tr by simp
    from run_bind[OF run1' this] have run12: "run ?A K env w (r2, w2)" .
    show ?thesis
    proof (cases r2)
      case (Inl e)
      then have e: "truncate_best_effort env current w = w2"
        using op r1 tr by (simp add: truncate_best_effort_def)
      show ?thesis unfolding e by (rule run_swallow[OF run12 AK])
    next
      case r2: (Inr u2)
      have run12': "run ?A K env w (Inr u2, w2)" using run12 r2 by simp
      obtain r3 w3 where fl: "file_flush env f w2 = (r3, w3)" by (cases "file_flush env f w2")
      have "run ?A K env w2 (r3, w3)" using run_file_flush[of ?A f K env w2] nK fl by simp
      from run_bind[OF run12' this] have run13: "run ?A K env w (r3, w3)" .
      show ?thesis
      proof (cases r3)
        case (Inl e)
        then have e: "truncate_best_effort env current w = w3"
          using op r1 tr r2 fl by (simp add: truncate_best_effort_def)
        show ?thesis unfolding e by (rule run_swallow[OF run13 AK])
      next
        case r3: (Inr u3)
        have run13': "run ?A K env w (Inr u3, w3)" using run13 r3 by simp
        obtain r4 w4 where fy: "os_fsync env f w3 = (r4, w4)" by (cases "os_fsync env f w3")
        have "run ?A K env w3 (r4, w4)" using run_os_fsync[of ?A f K env w3] nK fy by simp
        from run_bind[OF run13' this] have run14: "run ?A K env w (r4, w4)" .
        have e: "truncate_best_effort env current w = w4"
          using op r1 tr r2 fl r3 fy by (simp add: truncate_best_effort_def)
        show ?thesis unfolding e by (rule run_swallow[OF run14 AK])
      qed
    qed
  qed
qed

lemma run_rename_once:
  assumes A: "\<And>ev. \<not> is_read ev \<Longrightarrow> A ev" and K: "\<And>ev. K ev \<Longrightarrow> propagating ev"
  shows "run A K env w (rename_once env current w)"
proof -
  obtain r1 w1 where rn: "rand_name_hex env 16 w = (r1, w1)" by (cases "rand_name_hex env 16 w")
  note q1 = rand_name_hex_quiet[OF rn]
  have run1: "run A K env w (r1, w1)" using q1 by (simp add: run_quiet)
  show ?thesis
  proof (cases r1)
    case (Inl e)
    have "run A K env w (Inl e :: error + string, w1)" using run1 Inl by simp
    then have "run A K env w (Inl e :: error + Path, w1)" by (rule run_Inl)
    then show ?thesis using rn Inl by (simp add: rename_once_def)
  next
    case r1: (Inr new_name)
    have run1': "run A K env w (Inr new_name, w1)" using run1 r1 by simp
    show ?thesis
    proof (cases "with_name current new_name")
      case (Inl e)
      then have "not_mismatch (Inl e :: error + Path)" by (auto dest: with_name_error)
      from run_change_result[OF run1' this]
      show ?thesis using rn r1 Inl by (simp add: rename_once_def)
    next
      case wn: (Inr candidate)
      obtain r2 w2 where cl: "candidate_loop env current candidate 0 w1 = (r2, w2)"
        by (cases "candidate_loop env current candidate 0 w1")
      note q2 = candidate_loop_quiet[OF cl]
      have "run A K env w1 (r2, w2)" using q2 by (simp add: run_quiet)
      from run_bind[OF run1' this] have run12: "run A K env w (r2, w2)" .
      show ?thesis
      proof (cases r2)
        case (Inl e)
        then show ?thesis using rn r1 wn cl run12 by (simp add: rename_once_def)
      next
        case r2: (Inr cand)
        have run12': "run A K env w (Inr cand, w2)" using run12 r2 by simp
        obtain r3 w3 where mv: "path_rename env current cand w2 = (r3, w3)"
          by (cases "path_rename env current cand w2")
        have "run A K env w2 (r3, w3)"
          using run_path_rename[of A current cand K env w2] A mv by simp
        from run_bind[OF run12' this] have run13: "run A K env w (r3, w3)" .
        show ?thesis
        proof (cases r3)
          case (Inl e)
          have "run A K env w (Inl e :: error + unit, w3)" using run13 Inl by simp
          then have "run A K env w (Inl e :: error + Path, w3)" by (rule run_Inl)
          then show ?thesis using rn r1 wn cl r2 mv Inl by (simp add: rename_once_def)
        next
          case r3: (Inr u)
          have run13': "run A K env w (Inr u, w3)" using run13 r3 by simp
          have "run A K env w3 (Inr cand :: error + Path, fsync_dir_best_effort (parent cand) w3)"
          proof (rule run_fsync_dir)
            show "A (FsyncDir (parent cand))" by (rule A) simp
            show "\<not> K (FsyncDir (parent cand))" using K[of "FsyncDir (parent cand)"] by auto
            show "not_mismatch (Inr cand :: error + Path)" by simp
          qed
          from run_bind[OF run13' this]
          show ?thesis using rn r1 wn cl r2 mv r3 by (simp add: rename_once_def)
        qed
      qed
    qed
  qed
qed

lemma run_rename_loop:
  assumes A: "\<And>ev. \<not> is_read ev \<Longrightarrow> A ev" and K: "\<And>ev. K ev \<Longrightarrow> propagating ev"
  shows "run A K env w (rename_loop env n current w)"
proof (induction n arbitrary: current w)
  case 0
  show ?case by (simp add: run_quiet)
next
  case (Suc n)
  obtain r1 w1 where ro: "rename_once env current w = (r1, w1)" by (cases "rename_once env current w")
  have run1: "run A K env w (r1, w1)"
    using run_rename_once[where A = A and K = K and env = env and w = w and current = current, OF A K] ro
    by simp
  show ?case
  proof (cases r1)
    case (Inl e)
    then show ?thesis using ro run1 by simp
  next
    case (Inr current')
    have "run A K env w (Inr current', w1)" using run1 Inr by simp
    from run_bind[OF this Suc.IH[of w1 current']] show ?thesis using ro Inr by simp
  qed
qed

lemma run_rename_truncate_unlink:
  assumes A: "\<And>ev. \<not> is_read ev \<Longrightarrow> A ev" and K: "\<And>ev. K ev \<Longrightarrow> propagating ev"
  shows "run A K env w (rename_truncate_unlink env path n keep w)"
proof -
  obtain r1 w1 where rl: "rename_loop env (nat (max 0 n)) path w = (r1, w1)"
    by (cases "rename_loop env (nat (max 0 n)) path w")
  have run1: "run A K env w (r1, w1)"
    using run_rename_loop[where A = A and K = K and env = env and w = w and current = path
        and n = "nat (max 0 n)", OF A K] rl by simp
  show ?thesis
  proof (cases r1)
    case (Inl e)
    then show ?thesis using rl run1 by (simp add: rename_truncate_unlink_def)
  next
    case r1: (Inr current)
    have run1': "run A K env w (Inr current, w1)" using run1 r1 by simp
    let ?w2 = "truncate_best_effort env current w1"
    have "run (\<lambda>ev. \<not> propagating ev) K env w1 (Inr current, ?w2)"
      using K by (rule run_truncate_best_effort)
    then have "run A K env w1 (Inr current, ?w2)"
    proof (rule run_mono)
      fix ev assume np: "\<not> propagating ev"
      have "\<not> is_read ev" using np by (cases ev) auto
      then show "A ev" by (rule A)
    qed simp
    from run_bind[OF run1' this] have run12: "run A K env w (Inr current, ?w2)" .
    have hint: "run A K env w' (Inr current :: error + Path, fsync_dir_best_effort (parent current) w')" for w'
    proof (rule run_fsync_dir)
      show "A (FsyncDir (parent current))" by (rule A) simp
      show "\<not> K (FsyncDir (parent current))" using K[of "FsyncDir (parent current)"] by auto
      show "not_mismatch (Inr current :: error + Path)" by simp
    qed
    show ?thesis
    proof (cases keep)
      case True
      from run_bind[OF run12 hint[of ?w2]]
      show ?thesis using rl r1 True by (simp add: rename_truncate_unlink_def Let_def)
    next
      case False
      obtain r3 w3 where ul: "path_unlink env current ?w2 = (r3, w3)"
        by (cases "path_unlink env current ?w2")
      have "run A K env ?w2 (r3, w3)"
        using run_path_unlink[of A current K env ?w2] A ul by simp
      from run_bind[OF run12 this] have run13: "run A K env w (r3, w3)" .
      show ?thesis
      proof (cases r3)
        case (Inl e)
        have "run A K env w (Inl e :: error + unit, w3)" using run13 Inl by simp
        then have "run A K env w (Inl e :: error + Path, w3)" by (rule run_Inl)
        then show ?thesis using rl r1 False ul Inl by (simp add: rename_truncate_unlink_def Let_def)
      next
        case (Inr u)
        have "run A K env w (Inr u, w3)" using run13 Inr by simp
        from run_bind[OF this hint[of w3]]
        show ?thesis using rl r1 False ul Inr by (simp add: rename_truncate_unlink_def Let_def)
      qed
    qed
  qed
qed

lemma propagating_not_hint: "propagating ev \<Longrightarrow> \<not> is_hint ev"
  by (cases ev) auto

lemma declined_error: "declined env = Inl e \<Longrightarrow> e = EOFError"
  by (auto simp: declined_def split: option.splits)

lemma run_failed_call:
  assumes "run A K env w (res, w')" and "trace w' = trace w @ tr" and "i < length tr"
    and "K (tr ! i)" and "fault env (trace w @ take i tr) (tr ! i)"
  shows "Suc i = length tr \<and> res = Inl (OSError (tr ! i))"
proof -
  from assms(1) obtain tr' where t: "trace w' = trace w @ tr'"
    and k: "\<forall>i<length tr'. K (tr' ! i) \<longrightarrow> fault env (trace w @ take i tr') (tr' ! i) \<longrightarrow>
             Suc i = length tr' \<and> res = Inl (OSError (tr' ! i))"
    unfolding run_def by auto
  have "tr' = tr" using t assms(2) by simp
  then show ?thesis using k assms(3,4,5) by blast
qed

lemma wipe_file_split:
  assumes Kh: "\<And>ev. K ev \<Longrightarrow> \<not> is_hint ev"
    and r: "wipe_file env file_path lo hi rnd cs v vs vl rp dc force keep w = Some (res, w')"
  shows "run (\<lambda>ev. \<not> is_deletion ev) K env w (res, w') \<or>
         (\<exists>w3 r4. run (\<lambda>ev. \<not> is_deletion ev) K env w (Inr () :: error + unit, w3) \<and>
                  rename_truncate_unlink env file_path rp keep w3 = (r4, w') \<and>
                  res = (case r4 of Inl e \<Rightarrow> Inl e | Inr final_path \<Rightarrow> Inr ()))"
proof -
  let ?A = "\<lambda>ev. \<not> is_deletion ev"
  define rw where "rw = (res, w')"
  have r: "wipe_file env file_path lo hi rnd cs v vs vl rp dc force keep w = Some rw"
    using r rw_def by simp
  have goal1: "run ?A K env w rw \<Longrightarrow> ?thesis" unfolding rw_def by blast
  consider (pre) "\<not> path_exists w file_path \<or> is_dir w file_path \<or> is_symlink w file_path"
    | (go) "path_exists w file_path" "\<not> is_dir w file_path" "\<not> is_symlink w file_path" by blast
  then show ?thesis
  proof cases
    case pre
    then obtain e where rw: "rw = (Inl e, w)" and nm: "not_mismatch (Inl e :: error + unit)"
      using r by (auto simp: wipe_file_def split: if_splits)
    have "run ?A K env w rw" unfolding rw using nm by (intro run_quiet) simp_all
    then show ?thesis by (rule goal1)
  next
    case go
    let ?d = "if \<not> force then declined env else Inr False"
    show ?thesis
    proof (cases ?d)
      case (Inl e)
      then have rw: "rw = (Inl e, w)" using r go by (simp add: wipe_file_def)
      have "e = EOFError" using Inl by (auto dest: declined_error split: if_splits)
      then have "run ?A K env w rw" unfolding rw by (intro run_quiet) simp_all
      then show ?thesis by (rule goal1)
    next
      case d: (Inr stop)
      show ?thesis
      proof (cases stop)
        case True
        then have rw: "rw = (Inr (), w)" using r go d by (simp add: wipe_file_def)
        have "run ?A K env w rw" unfolding rw by (intro run_quiet) simp_all
        then show ?thesis by (rule goal1)
      next
        case False
        obtain r1 w1 where bp: "build_pass_count env lo hi rnd w = (r1, w1)"
          by (cases "build_pass_count env lo hi rnd w")
        note q1 = build_pass_count_quiet[OF bp]
        have run1: "run ?A K env w (r1, w1)" using q1 by (simp add: run_quiet)
        show ?thesis
        proof (cases r1)
          case (Inl e)
          then have rw: "rw = (Inl e, w1)" using r go d False bp by (simp add: wipe_file_def)
          have "run ?A K env w (Inl e :: error + int, w1)" using run1 Inl by simp
          then have "run ?A K env w rw" unfolding rw by (rule run_Inl)
          then show ?thesis by (rule goal1)
        next
          case r1: (Inr passes)
          have run1': "run ?A K env w (Inr passes, w1)" using run1 r1 by simp
          obtain r2 w2 where st: "path_stat_size env file_path w1 = (r2, w2)"
            by (cases "path_stat_size env file_path w1")
          have "run ?A K env w1 (r2, w2)"
            using run_path_stat_size[of ?A file_path K env w1] st by simp
          from run_bind[OF run1' this] have run12: "run ?A K env w (r2, w2)" .
          show ?thesis
          proof (cases r2)
            case (Inl e)
            then have rw: "rw = (Inl e, w2)" using r go d False bp r1 st by (simp add: wipe_file_def)
            have "run ?A K env w (Inl e :: error + int, w2)" using run12 Inl by simp
            then have "run ?A K env w rw" unfolding rw by (rule run_Inl)
            then show ?thesis by (rule goal1)
          next
            case r2: (Inr fsize)
            have run12': "run ?A K env w (Inr fsize, w2)" using run12 r2 by simp
            let ?ow = "if 0 < fsize
                       then overwrite_random_streaming env file_path passes cs v vs vl dc w2
                       else Some (Inr (), w2)"
            show ?thesis
            proof (cases ?ow)
              case None
              then show ?thesis using r go d False bp r1 st r2 by (simp add: wipe_file_def)
            next
              case (Some rw3)
              obtain r3 w3 where rw3: "rw3 = (r3, w3)" by (cases rw3)
              have "run ?A K env w2 rw3"
              proof (cases "0 < fsize")
                case True
                then have "overwrite_random_streaming env file_path passes cs v vs vl dc w2 = Some rw3"
                  using Some by simp
                then show ?thesis using Kh by (intro run_overwrite_random_streaming) simp_all
              next
                case False
                then have "rw3 = (Inr (), w2)" using Some by simp
                then show ?thesis by (simp add: run_quiet)
              qed
              from run_bind[OF run12' this] have run13: "run ?A K env w (r3, w3)" unfolding rw3 .
              show ?thesis
              proof (cases r3)
                case (Inl e)
                then have rw: "rw = (Inl e, w3)"
                  using r go d False bp r1 st r2 Some rw3 by (simp add: wipe_file_def)
                have "run ?A K env w rw" unfolding rw using run13 Inl by simp
                then show ?thesis by (rule goal1)
              next
                case r3: (Inr u)
                have run13': "run ?A K env w (Inr (), w3)" using run13 r3 by simp
                obtain r4 w4 where del: "rename_truncate_unlink env file_path rp keep w3 = (r4, w4)"
                  by (cases "rename_truncate_unlink env file_path rp keep w3")
                have "rw = (case r4 of Inl e \<Rightarrow> Inl e | Inr final_path \<Rightarrow> Inr (), w4)"
                  using r go d False bp r1 st r2 Some rw3 r3 del
                  by (simp add: wipe_file_def split: sum.splits)
                then have "w' = w4" "res = (case r4 of Inl e \<Rightarrow> Inl e | Inr final_path \<Rightarrow> Inr ())"
                  unfolding rw_def by simp_all
                then show ?thesis using run13' del by blast
              qed
            qed
          qed
        qed
      qed
    qed
  qed
qed

lemma run_no_read_mismatch:
  assumes "run (\<lambda>ev. \<not> is_read ev) K env w (Inl (RuntimeError (VerificationMismatch p k off)) :: error + 'a, w')"
  shows False
proof -
  from assms obtain tr where a: "\<forall>ev\<in>set tr. \<not> is_read ev"
    and m: "tr \<noteq> [] \<and> (\<exists>f n. last tr = Read f off n)"
    unfolding run_def by auto
  from m obtain f n where "last tr = Read f off n" "tr \<noteq> []" by blast
  then have "Read f off n \<in> set tr" by (metis last_in_set)
  then show False using a by auto
qed

lemma run_wipe_file:
  assumes K: "\<And>ev. K ev \<Longrightarrow> propagating ev"
    and r: "wipe_file env file_path lo hi rnd cs v vs vl rp dc force keep w = Some (res, w')"
  shows "run (\<lambda>ev. True) K env w (res, w')"
proof -
  have Kh: "\<And>ev. K ev \<Longrightarrow> \<not> is_hint ev" using K propagating_not_hint by blast
  from wipe_file_split[where K = K, OF Kh r]
  consider (a) "run (\<lambda>ev. \<not> is_deletion ev) K env w (res, w')"
    | (b) w3 r4 where "run (\<lambda>ev. \<not> is_deletion ev) K env w (Inr () :: error + unit, w3)"
        "rename_truncate_unlink env file_path rp keep w3 = (r4, w')"
        "res = (case r4 of Inl e \<Rightarrow> Inl e | Inr final_path \<Rightarrow> Inr ())"
    by blast
  then show ?thesis
  proof cases
    case a
    then show ?thesis by (rule run_mono) simp_all
  next
    case b
    have r1: "run (\<lambda>ev. True) K env w (Inr () :: error + unit, w3)"
      using b(1) by (rule run_mono) simp_all
    have "run (\<lambda>ev. True) K env w3 (rename_truncate_unlink env file_path rp keep w3)"
      using K by (intro run_rename_truncate_unlink) simp_all
    then have r2: "run (\<lambda>ev. True) K env w3 (r4, w')" using b(2) by simp
    from run_bind[OF r1 r2] have r12: "run (\<lambda>ev. True) K env w (r4, w')" .
    show ?thesis
    proof (cases r4)
      case (Inl e)
      then have "res = Inl e" using b(3) by simp
      moreover have "run (\<lambda>ev. True) K env w (Inl e :: error + Path, w')" using r12 Inl by simp
      ultimately show ?thesis by (auto intro: run_Inl)
    next
      case (Inr final_path)
      then have res: "res = Inr ()" using b(3) by simp
      have "run (\<lambda>ev. True) K env w (Inr final_path, w')" using r12 Inr by simp
      then show ?thesis unfolding res by (rule run_change_result) simp
    qed
  qed
qed

section \<open>Verification mismatch\<close>

lemma regular_file:
  assumes "path_exists w p" "\<not> is_dir w p" "\<not> is_symlink w p"
  shows "\<exists>bs. fs w p = Some (File bs)"
proof -
  have n: "(40::nat) = Suc 39" by simp
  have f: "follow 40 (fs w) p =
      (case fs w p of None \<Rightarrow> None | Some (Symlink q) \<Rightarrow> follow 39 (fs w) q | Some _ \<Rightarrow> Some p)"
    unfolding n by (simp only: follow.simps)
  show ?thesis
  proof (cases "fs w p")
    case None
    then show ?thesis using assms(1) f by (simp add: path_exists_def resolve_def)
  next
    case (Some nd)
    show ?thesis
    proof (cases nd)
      case (File bs)
      then show ?thesis using Some by simp
    next
      case Dir
      then have "resolve (fs w) p = Some p" using Some f by (simp add: resolve_def)
      then show ?thesis using assms(2) Some Dir by (simp add: is_dir_def)
    next
      case (Symlink q)
      then show ?thesis using assms(3) Some by (simp add: is_symlink_def)
    qed
  qed
qed

lemma file_seek_ok:
  assumes "\<not> fault env (trace w) (Seek f pos)" "0 \<le> pos"
  shows "file_seek env f pos w = (Inr pos, w\<lparr>trace := trace w @ [Seek f pos]\<rparr>)"
  using assms by (simp add: file_seek_def syscall_def)

lemma file_read_ok:
  assumes "\<not> fault env (trace w) (Read f (offset s) (length_bytes s))" "fs w f = Some (File bs)"
  shows "file_read env f (offset s) (length_bytes s) w
           = (Inr (read_back env bs s), w\<lparr>trace := trace w @ [Read f (offset s) (length_bytes s)]\<rparr>)"
  using assms by (simp add: file_read_def syscall_def read_back_def)

lemma readback_first_mismatch:
  assumes nf: "\<And>tr pos n. \<not> fault env tr (Seek f pos) \<and> \<not> fault env tr (Read f pos n)"
  shows "fs w f = Some (File bs) \<Longrightarrow> \<forall>s\<in>set ss. 0 \<le> offset s \<Longrightarrow>
         k + length ss \<le> length expected \<Longrightarrow> i < length ss \<Longrightarrow>
         read_back env bs (ss ! i) \<noteq> expected ! (k + i) \<Longrightarrow>
         \<forall>j<i. read_back env bs (ss ! j) = expected ! (k + j) \<Longrightarrow>
         \<exists>w'. readback_loop env f p ss k expected w
                = (Inl (RuntimeError (VerificationMismatch p (k + i + 1) (offset (ss ! i)))), w')"
proof (induction ss arbitrary: k i w)
  case Nil
  then show ?case by simp
next
  case (Cons s ss)
  let ?w1 = "w\<lparr>trace := trace w @ [Seek f (offset s)]\<rparr>"
  let ?w2 = "?w1\<lparr>trace := trace ?w1 @ [Read f (offset s) (length_bytes s)]\<rparr>"
  have off: "0 \<le> offset s" using Cons.prems(2) by simp
  have sk: "file_seek env f (offset s) w = (Inr (offset s), ?w1)"
    using nf off by (intro file_seek_ok) simp_all
  have fs1: "fs ?w1 f = Some (File bs)" using Cons.prems(1) by simp
  have rd: "file_read env f (offset s) (length_bytes s) ?w1 = (Inr (read_back env bs s), ?w2)"
    using nf fs1 by (intro file_read_ok) simp_all
  have kl: "\<not> length expected \<le> k" using Cons.prems(3) by simp
  show ?case
  proof (cases i)
    case 0
    then have "read_back env bs s \<noteq> expected ! k" using Cons.prems(5) by simp
    then show ?thesis using sk rd kl 0 by simp
  next
    case (Suc i')
    have same: "read_back env bs s = expected ! k" using Cons.prems(6) Suc by force
    have step: "readback_loop env f p (s # ss) k expected w
                  = readback_loop env f p ss (Suc k) expected ?w2"
      using sk rd kl same by simp
    have a1: "fs ?w2 f = Some (File bs)" using Cons.prems(1) by simp
    have a2: "\<forall>s\<in>set ss. 0 \<le> offset s" using Cons.prems(2) by simp
    have a3: "Suc k + length ss \<le> length expected" using Cons.prems(3) by simp
    have a4: "i' < length ss" using Cons.prems(4) Suc by simp
    have a5: "read_back env bs (ss ! i') \<noteq> expected ! (Suc k + i')" using Cons.prems(5) Suc by simp
    have a6: "\<forall>j<i'. read_back env bs (ss ! j) = expected ! (Suc k + j)"
    proof (intro allI impI)
      fix j assume "j < i'"
      then have "Suc j < i" using Suc by simp
      then have "read_back env bs ((s # ss) ! Suc j) = expected ! (k + Suc j)"
        using Cons.prems(6) by blast
      then show "read_back env bs (ss ! j) = expected ! (Suc k + j)" by simp
    qed
    from Cons.IH[OF a1 a2 a3 a4 a5 a6]
    obtain w' where "readback_loop env f p ss (Suc k) expected ?w2
        = (Inl (RuntimeError (VerificationMismatch p (Suc k + i' + 1) (offset (ss ! i')))), w')"
      by blast
    then show ?thesis unfolding step using Suc by simp
  qed
qed

lemma wipe_file_mismatch_checked:
  assumes "wipe_file env file_path lo hi rnd cs v vs vl rp dc force keep w
             = Some (Inl (RuntimeError (VerificationMismatch p k off)), w')"
  shows "path_exists w file_path \<and> \<not> is_dir w file_path \<and> \<not> is_symlink w file_path"
  using assms by (auto simp: wipe_file_def split: if_splits)

lemma wipe_file_mismatch_run:
  assumes r: "wipe_file env file_path lo hi rnd cs v vs vl rp dc force keep w
             = Some (Inl (RuntimeError (VerificationMismatch p k off)), w')"
  shows "run (\<lambda>ev. \<not> is_deletion ev) (\<lambda>ev. \<not> is_hint ev) env w
           (Inl (RuntimeError (VerificationMismatch p k off)) :: error + unit, w')"
proof -
  let ?K = "\<lambda>ev. \<not> is_hint ev"
  from wipe_file_split[where K = ?K, OF _ r]
  consider (a) "run (\<lambda>ev. \<not> is_deletion ev) ?K env w
                  (Inl (RuntimeError (VerificationMismatch p k off)) :: error + unit, w')"
    | (b) w3 r4 where "rename_truncate_unlink env file_path rp keep w3 = (r4, w')"
        "(Inl (RuntimeError (VerificationMismatch p k off)) :: error + unit)
           = (case r4 of Inl e \<Rightarrow> Inl e | Inr final_path \<Rightarrow> Inr ())"
    by blast
  then show ?thesis
  proof cases
    case a
    then show ?thesis .
  next
    case b
    have r4: "r4 = Inl (RuntimeError (VerificationMismatch p k off))"
      using b(2) by (cases r4) simp_all
    have "run (\<lambda>ev. \<not> is_read ev) propagating env w3
            (rename_truncate_unlink env file_path rp keep w3)"
      by (rule run_rename_truncate_unlink) simp_all
    then have False using b(1) r4 run_no_read_mismatch by metis
    then show ?thesis ..
  qed
qed

section \<open>Refusals of \<^verbatim>\<open>wipe_file\<close>\<close>

text \<open>
  Claim C7, as amended. \<^verbatim>\<open>wipe_file\<close> refuses with FileNotFoundError a path that does
  not exist once symbolic links are followed (no entry, or a dangling link), with
  IsADirectoryError a path that is a directory once links are followed, and with the
  "Refusing to wipe a symlink" error a symbolic link to anything else. In particular a
  missing path gives the first, a directory the second, and a symbolic link always one
  of the three. In every one of these cases the world is unchanged: no entry is
  touched and no call is made, so nothing is done to the referent of a link.
\<close>

theorem wipe_file_refuses:
  "(\<not> path_exists w file_path
    \<longrightarrow> wipe_file env file_path min_passes max_passes randomize_pass_count chunk_size verify
          verify_samples verify_len rename_passes drop_cache_linux force keep w
          = Some (Inl (FileNotFoundError file_path), w)) \<and>
   (path_exists w file_path \<and> is_dir w file_path
    \<longrightarrow> wipe_file env file_path min_passes max_passes randomize_pass_count chunk_size verify
          verify_samples verify_len rename_passes drop_cache_linux force keep w
          = Some (Inl (IsADirectoryError file_path), w)) \<and>
   (path_exists w file_path \<and> \<not> is_dir w file_path \<and> is_symlink w file_path
    \<longrightarrow> wipe_file env file_path min_passes max_passes randomize_pass_count chunk_size verify
          verify_samples verify_len rename_passes drop_cache_linux force keep w
          = Some (Inl (RuntimeError (RefusingSymlink file_path)), w)) \<and>
   (fs w file_path = None \<longrightarrow> \<not> path_exists w file_path) \<and>
   (fs w file_path = Some Dir \<longrightarrow> path_exists w file_path \<and> is_dir w file_path) \<and>
   (is_symlink w file_path
    \<longrightarrow> (\<exists>e. wipe_file env file_path min_passes max_passes randomize_pass_count chunk_size verify
               verify_samples verify_len rename_passes drop_cache_linux force keep w
               = Some (Inl e, w) \<and>
             (e = FileNotFoundError file_path \<or> e = IsADirectoryError file_path \<or>
              e = RuntimeError (RefusingSymlink file_path))))"
proof -
  have n: "(40::nat) = Suc 39" by simp
  have f: "follow 40 (fs w) file_path =
      (case fs w file_path of None \<Rightarrow> None | Some (Symlink q) \<Rightarrow> follow 39 (fs w) q
       | Some _ \<Rightarrow> Some file_path)"
    unfolding n by (simp only: follow.simps)
  have c4: "\<not> path_exists w file_path" if "fs w file_path = None"
    using that f by (simp add: path_exists_def resolve_def)
  have c5: "path_exists w file_path \<and> is_dir w file_path" if "fs w file_path = Some Dir"
    using that f by (simp add: path_exists_def is_dir_def resolve_def)
  show ?thesis using c4 c5 by (auto simp: wipe_file_def)
qed

theorem wipe_file_refuses_witness:
  "wipe_file example_env (Path ''/tmp'' ''none'') 3 7 True 4096 False 6 64 2 False True False
     example_world = Some (Inl (FileNotFoundError (Path ''/tmp'' ''none'')), example_world) \<and>
   (\<exists>e. wipe_file example_env (Path ''/tmp'' ''link'') 3 7 True 4096 False 6 64 2 False True False
          dangling_world = Some (Inl e, dangling_world))"
proof -
  have h1: "fs example_world (Path ''/tmp'' ''none'') = None" by (simp add: example_world_def)
  have a: "\<not> path_exists example_world (Path ''/tmp'' ''none'')"
    using wipe_file_refuses[where w = example_world and file_path = "Path ''/tmp'' ''none''"] h1
    by blast
  have p1: "wipe_file example_env (Path ''/tmp'' ''none'') 3 7 True 4096 False 6 64 2 False True
      False example_world = Some (Inl (FileNotFoundError (Path ''/tmp'' ''none'')), example_world)"
    using wipe_file_refuses[where w = example_world and file_path = "Path ''/tmp'' ''none''"
        and env = example_env and min_passes = 3 and max_passes = 7 and randomize_pass_count = True
        and chunk_size = 4096 and verify = False and verify_samples = 6 and verify_len = 64
        and rename_passes = 2 and drop_cache_linux = False and force = True and keep = False] a
    by blast
  have h2: "is_symlink dangling_world (Path ''/tmp'' ''link'')"
    by (simp add: dangling_world_def is_symlink_def)
  have p2: "\<exists>e. wipe_file example_env (Path ''/tmp'' ''link'') 3 7 True 4096 False 6 64 2 False
      True False dangling_world = Some (Inl e, dangling_world)"
    using wipe_file_refuses[where w = dangling_world and file_path = "Path ''/tmp'' ''link''"
        and env = example_env and min_passes = 3 and max_passes = 7 and randomize_pass_count = True
        and chunk_size = 4096 and verify = False and verify_samples = 6 and verify_len = 64
        and rename_passes = 2 and drop_cache_linux = False and force = True and keep = False] h2
    by blast
  show ?thesis using p1 p2 by blast
qed

text \<open>
  The claim as stated fails for a dangling symbolic link: the error is the one for a
  missing path, not the one for a symbolic link.
\<close>

theorem dangling_symlink_reported_missing:
  "is_symlink dangling_world (Path ''/tmp'' ''link'') \<and>
   fst (the (wipe_file example_env (Path ''/tmp'' ''link'') 3 7 True 4096 False 6 64 2 False True
               False dangling_world))
     = Inl (FileNotFoundError (Path ''/tmp'' ''link'')) \<and>
   fst (the (wipe_file example_env (Path ''/tmp'' ''link'') 3 7 True 4096 False 6 64 2 False True
               False dangling_world))
     \<noteq> Inl (RuntimeError (RefusingSymlink (Path ''/tmp'' ''link'')))"
  by code_simp

section \<open>The deletion sequence\<close>

lemma with_name_parent: "with_name p n = Inr c \<Longrightarrow> parent c = parent p \<and> name c = n \<and> n \<noteq> []"
  by (auto simp: with_name_def split: if_splits)

lemma candidate_loop_parent:
  "candidate_loop env current candidate tries w = (Inr c, w') \<Longrightarrow>
     parent candidate = parent current \<Longrightarrow> parent c = parent current"
proof (induction env current candidate tries w rule: candidate_loop.induct)
  case (1 env current candidate tries w)
  show ?case
  proof (cases "path_exists w candidate \<and> tries < 10")
    case False
    then show ?thesis using "1.prems" by (subst (asm) candidate_loop.simps) auto
  next
    case True
    obtain r1 w1 where rn: "rand_name_hex env 16 w = (r1, w1)" by (cases "rand_name_hex env 16 w")
    show ?thesis
    proof (cases r1)
      case (Inl e)
      then show ?thesis using "1.prems" True rn by (subst (asm) candidate_loop.simps) auto
    next
      case r1: (Inr new_name)
      show ?thesis
      proof (cases "with_name current new_name")
        case (Inl e)
        then show ?thesis using "1.prems" True rn r1 by (subst (asm) candidate_loop.simps) auto
      next
        case (Inr candidate')
        then have "candidate_loop env current candidate' (tries + 1) w1 = (Inr c, w')"
          using "1.prems" True rn r1 by (subst (asm) candidate_loop.simps) simp
        moreover have "parent candidate' = parent current" using Inr by (auto dest: with_name_parent)
        ultimately show ?thesis using "1.IH"[OF True rn[symmetric] r1 Inr] by blast
      qed
    qed
  qed
qed

lemma path_rename_success:
  assumes "path_rename env src dst w = (Inr u, w')" "fs w src = Some nd"
  shows "trace w' = trace w @ [Rename src dst] \<and> rpos w' = rpos w \<and> fs w' dst = Some nd \<and>
         (\<forall>q. q \<noteq> dst \<longrightarrow> fs w' q = (if q = src then None else fs w q))"
  using assms
  by (auto simp: path_rename_def syscall_def split: if_splits option.splits)

lemma rename_once_success:
  assumes r: "rename_once env current w = (Inr cur', w')" and isfile: "fs w current = Some nd"
  shows "parent cur' = parent current \<and> fs w' cur' = Some nd \<and>
         (\<forall>q. q \<noteq> cur' \<longrightarrow> fs w' q = (if q = current then None else fs w q)) \<and>
         trace w' = trace w @ [Rename current cur', FsyncDir (parent current)]"
proof -
  obtain r1 w1 where rn: "rand_name_hex env 16 w = (r1, w1)" by (cases "rand_name_hex env 16 w")
  note q1 = rand_name_hex_quiet[OF rn]
  from r rn obtain new_name where r1: "r1 = Inr new_name"
    by (cases r1) (auto simp: rename_once_def)
  from r rn r1 obtain candidate where wn: "with_name current new_name = Inr candidate"
    by (cases "with_name current new_name") (auto simp: rename_once_def)
  obtain r2 w2 where cl: "candidate_loop env current candidate 0 w1 = (r2, w2)"
    by (cases "candidate_loop env current candidate 0 w1")
  note q2 = candidate_loop_quiet[OF cl]
  from r rn r1 wn cl obtain cand where r2: "r2 = Inr cand"
    by (cases r2) (auto simp: rename_once_def)
  have "parent candidate = parent current" using wn by (auto dest: with_name_parent)
  from candidate_loop_parent[OF cl[unfolded r2] this] have pc: "parent cand = parent current" .
  obtain r3 w3 where mv: "path_rename env current cand w2 = (r3, w3)"
    by (cases "path_rename env current cand w2")
  from r rn r1 wn cl r2 mv obtain u where r3: "r3 = Inr u"
    by (cases r3) (auto simp: rename_once_def)
  have res: "cur' = cand" "w' = fsync_dir_best_effort (parent cand) w3"
    using r rn r1 wn cl r2 mv r3 by (auto simp: rename_once_def)
  have f2: "fs w2 = fs w" "trace w2 = trace w" using q1 q2 by simp_all
  have "fs w2 current = Some nd" using isfile f2 by simp
  from path_rename_success[OF mv[unfolded r3] this]
  show ?thesis unfolding res using pc f2 by (simp add: fsync_dir_best_effort_def)
qed

lemma rename_stage_0: "rename_stage d 0 []"
  by (simp add: rename_stage_def)

lemma rename_stage_Suc:
  assumes "rename_stage d n rs" "parent a = d" "parent b = d"
  shows "rename_stage d (Suc n) ([Rename a b, FsyncDir d] @ rs)"
  unfolding rename_stage_def
proof (intro conjI allI impI)
  show "length ([Rename a b, FsyncDir d] @ rs) = 2 * Suc n"
    using assms(1) by (simp add: rename_stage_def)
next
  fix i assume i: "i < Suc n"
  show "\<exists>a' b'. ([Rename a b, FsyncDir d] @ rs) ! (2 * i) = Rename a' b' \<and> parent a' = d \<and> parent b' = d"
  proof (cases i)
    case 0
    then show ?thesis using assms(2,3) by simp
  next
    case (Suc j)
    then have "j < n" using i by simp
    then have "\<exists>a' b'. rs ! (2 * j) = Rename a' b' \<and> parent a' = d \<and> parent b' = d"
      using assms(1) by (simp add: rename_stage_def)
    then show ?thesis using Suc by simp
  qed
  show "([Rename a b, FsyncDir d] @ rs) ! (2 * i + 1) = FsyncDir d"
  proof (cases i)
    case 0
    then show ?thesis by simp
  next
    case (Suc j)
    then have "j < n" using i by simp
    then have "rs ! (2 * j + 1) = FsyncDir d" using assms(1) by (simp add: rename_stage_def)
    then show ?thesis using Suc by simp
  qed
qed

lemma rename_loop_success:
  "rename_loop env n current w = (Inr cur', w') \<Longrightarrow> fs w current = Some nd \<Longrightarrow>
   path0 = current \<or> fs w path0 = None \<Longrightarrow> parent current = d \<Longrightarrow>
   parent cur' = d \<and> fs w' cur' = Some nd \<and> (path0 = cur' \<or> fs w' path0 = None) \<and>
   (\<exists>rs. rename_stage d n rs \<and> trace w' = trace w @ rs) \<and> (n = 0 \<longrightarrow> cur' = current)"
proof (induction n arbitrary: current w)
  case 0
  then show ?case using rename_stage_0[of d] by auto
next
  case (Suc n)
  obtain r1 w1 where ro: "rename_once env current w = (r1, w1)" by (cases "rename_once env current w")
  from Suc.prems(1) ro obtain c1 where r1: "r1 = Inr c1" by (cases r1) auto
  have rest: "rename_loop env n c1 w1 = (Inr cur', w')" using Suc.prems(1) ro r1 by simp
  from rename_once_success[OF ro[unfolded r1] Suc.prems(2)]
  have p1: "parent c1 = parent current" and f1: "fs w1 c1 = Some nd"
    and o1: "\<forall>q. q \<noteq> c1 \<longrightarrow> fs w1 q = (if q = current then None else fs w q)"
    and t1: "trace w1 = trace w @ [Rename current c1, FsyncDir (parent current)]"
    by simp_all
  have inv: "path0 = c1 \<or> fs w1 path0 = None"
    using o1 Suc.prems(3) by (cases "path0 = c1") auto
  have pd: "parent c1 = d" using p1 Suc.prems(4) by simp
  from Suc.IH[OF rest f1 inv pd]
  obtain rs where a: "parent cur' = d" "fs w' cur' = Some nd" "path0 = cur' \<or> fs w' path0 = None"
    and rs: "rename_stage d n rs" "trace w' = trace w1 @ rs"
    by blast
  have "rename_stage d (Suc n) ([Rename current c1, FsyncDir d] @ rs)"
    using rs(1) Suc.prems(4) pd by (rule rename_stage_Suc)
  moreover have "trace w' = trace w @ ([Rename current c1, FsyncDir d] @ rs)"
    using rs(2) t1 Suc.prems(4) by simp
  ultimately show ?case using a by blast
qed

lemma resolve_file: "m p = Some (File bs) \<Longrightarrow> resolve m p = Some p"
proof -
  assume a: "m p = Some (File bs)"
  have n: "(40::nat) = Suc 39" by simp
  show ?thesis unfolding resolve_def n using a by (simp only: follow.simps) simp
qed

lemma truncate_best_effort_ok:
  assumes nf: "\<forall>tr f. \<not> fault env tr (Open f) \<and> \<not> fault env tr (Truncate f) \<and>
                      \<not> fault env tr (Flush f) \<and> \<not> fault env tr (Fsync f)"
    and isfile: "fs w current = Some (File bs)"
  shows "fs (truncate_best_effort env current w) = (fs w)(current \<mapsto> File [])"
    and "trace (truncate_best_effort env current w)
           = trace w @ [Open current, Truncate current, Flush current, Fsync current]"
  using nf isfile resolve_file[where m = "fs w" and p = current, OF isfile]
  by (simp_all add: truncate_best_effort_def open_rw_def file_truncate_def file_flush_def
        os_fsync_def syscall_def)

lemma path_unlink_success:
  assumes "path_unlink env p w = (Inr u, w')"
  shows "fs w' = (fs w)(p := None) \<and> trace w' = trace w @ [Unlink p]"
  using assms
  by (auto simp: path_unlink_def syscall_def split: if_splits option.splits node.splits)

lemma deletion_sequence_facts:
  assumes isfile: "fs w path = Some (File bs)"
    and nf: "\<forall>tr f. \<not> fault env tr (Open f) \<and> \<not> fault env tr (Truncate f) \<and>
                      \<not> fault env tr (Flush f) \<and> \<not> fault env tr (Fsync f)"
    and ok: "rename_truncate_unlink env path rename_passes keep w = (Inr final, w')"
  shows "parent final = parent path \<and> (rename_passes \<le> 0 \<longrightarrow> final = path) \<and>
     (\<exists>rs. rename_stage (parent path) (nat (max 0 rename_passes)) rs \<and>
        trace w' = trace w @ rs @ [Open final, Truncate final, Flush final, Fsync final] @
                   (if keep then [FsyncDir (parent path)]
                    else [Unlink final, FsyncDir (parent path)])) \<and>
     (keep \<longrightarrow> fs w' final = Some (File []) \<and> (final = path \<or> fs w' path = None)) \<and>
     (\<not> keep \<longrightarrow> fs w' final = None \<and> fs w' path = None)"
proof -
  let ?n = "nat (max 0 rename_passes)"
  obtain r1 w1 where rl: "rename_loop env ?n path w = (r1, w1)"
    by (cases "rename_loop env ?n path w")
  from ok rl obtain current where r1: "r1 = Inr current"
    by (cases r1) (auto simp: rename_truncate_unlink_def)
  from rename_loop_success[OF rl[unfolded r1] isfile, of path "parent path"]
  obtain rs where pc: "parent current = parent path" and f1: "fs w1 current = Some (File bs)"
    and inv: "path = current \<or> fs w1 path = None"
    and rs: "rename_stage (parent path) ?n rs" "trace w1 = trace w @ rs"
    and n0: "?n = 0 \<longrightarrow> current = path"
    by auto
  let ?w2 = "truncate_best_effort env current w1"
  note tr = truncate_best_effort_ok[OF nf f1]
  show ?thesis
  proof (cases keep)
    case True
    then have res: "final = current" "w' = fsync_dir_best_effort (parent current) ?w2"
      using ok rl r1 by (auto simp: rename_truncate_unlink_def Let_def)
    have t: "trace w' = trace w @ rs @ [Open final, Truncate final, Flush final, Fsync final] @
                   [FsyncDir (parent path)]"
      unfolding res using tr(2) rs(2) pc by (simp add: fsync_dir_best_effort_def)
    have f: "fs w' = (fs w1)(current \<mapsto> File [])"
      unfolding res using tr(1) by (simp add: fsync_dir_best_effort_def)
    have "fs w' final = Some (File [])" using f res(1) by simp
    moreover have "final = path \<or> fs w' path = None" using f inv res(1) by auto
    ultimately show ?thesis using True pc res(1) n0 rs(1) t by auto
  next
    case False
    obtain r3 w3 where ul: "path_unlink env current ?w2 = (r3, w3)"
      by (cases "path_unlink env current ?w2")
    from ok rl r1 False ul obtain u where r3: "r3 = Inr u"
      by (cases r3) (auto simp: rename_truncate_unlink_def Let_def)
    have res: "final = current" "w' = fsync_dir_best_effort (parent current) w3"
      using ok rl r1 False ul r3 by (auto simp: rename_truncate_unlink_def Let_def)
    note un = path_unlink_success[OF ul[unfolded r3]]
    have t: "trace w' = trace w @ rs @ [Open final, Truncate final, Flush final, Fsync final] @
                   [Unlink final, FsyncDir (parent path)]"
      unfolding res using un tr(2) rs(2) pc by (simp add: fsync_dir_best_effort_def)
    have f: "fs w' = (fs w1)(current := None)"
      unfolding res using un tr(1) by (simp add: fsync_dir_best_effort_def)
    have "fs w' final = None" using f res(1) by simp
    moreover have "fs w' path = None" using f inv by auto
    ultimately show ?thesis using False pc res(1) n0 rs(1) t by auto
  qed
qed






lemma hex_digit_not_slash: "hex_digit d \<noteq> CHR ''/''"
proof -
  have "d mod 16 < length ''0123456789abcdef''" by simp
  then have "hex_digit d \<in> set ''0123456789abcdef''"
    unfolding hex_digit_def by (rule nth_mem)
  then show ?thesis by auto
qed

lemma hexlify_digits: "c \<in> set (hexlify bs) \<Longrightarrow> \<exists>d. c = hex_digit d"
  by (induction bs) (auto simp: hexlify_def)

lemma hexlify_no_slash: "CHR ''/'' \<notin> set (hexlify bs)"
proof
  assume "CHR ''/'' \<in> set (hexlify bs)"
  then obtain d where "CHR ''/'' = hex_digit d" using hexlify_digits by blast
  then show False using hex_digit_not_slash[of d] by simp
qed

lemma length_hexlify: "length (hexlify bs) = 2 * length bs"
  by (induction bs) (simp_all add: hexlify_def)

lemma rand_name_hex_16:
  "\<exists>nm. rand_name_hex env 16 w = (Inr nm, w\<lparr>rpos := rpos w + 16\<rparr>) \<and> nm \<noteq> [] \<and>
        CHR ''/'' \<notin> set nm"
proof -
  let ?bs = "map (\<lambda>k. of_nat (entropy env k) :: byte) [rpos w ..< rpos w + 16]"
  have "rand_name_hex env 16 w = (Inr (hexlify ?bs), w\<lparr>rpos := rpos w + 16\<rparr>)"
    by (simp add: rand_name_hex_def token_hex_def token_bytes_def)
  moreover have "length (hexlify ?bs) = 32" by (simp add: length_hexlify)
  then have "hexlify ?bs \<noteq> []" by auto
  ultimately show ?thesis using hexlify_no_slash by blast
qed

lemma with_name_ok:
  "name p \<noteq> [] \<Longrightarrow> n \<noteq> [] \<Longrightarrow> CHR ''/'' \<notin> set n \<Longrightarrow> with_name p n = Inr (Path (parent p) n)"
  by (simp add: with_name_def)

lemma candidate_loop_total:
  assumes nm: "name current \<noteq> []"
  shows "\<exists>c w'. candidate_loop env current candidate tries w = (Inr c, w')"
proof (induction "10 - tries" arbitrary: candidate tries w rule: less_induct)
  case less
  show ?case
  proof (cases "path_exists w candidate \<and> tries < 10")
    case False
    then show ?thesis by (subst candidate_loop.simps) auto
  next
    case True
    obtain n where rn: "rand_name_hex env 16 w = (Inr n, w\<lparr>rpos := rpos w + 16\<rparr>)"
      and n: "n \<noteq> []" "CHR ''/'' \<notin> set n"
      using rand_name_hex_16[of env w] by blast
    have wn: "with_name current n = Inr (Path (parent current) n)" using nm n by (rule with_name_ok)
    have step: "candidate_loop env current candidate tries w
        = candidate_loop env current (Path (parent current) n) (tries + 1) (w\<lparr>rpos := rpos w + 16\<rparr>)"
      using True rn wn by (subst candidate_loop.simps) simp
    have "10 - (tries + 1) < 10 - tries" using True by auto
    from less.hyps[OF this] show ?thesis unfolding step .
  qed
qed

lemma candidate_loop_name:
  "candidate_loop env current candidate tries w = (Inr c, w') \<Longrightarrow>
     name candidate \<noteq> [] \<Longrightarrow> name c \<noteq> []"
proof (induction env current candidate tries w rule: candidate_loop.induct)
  case (1 env current candidate tries w)
  show ?case
  proof (cases "path_exists w candidate \<and> tries < 10")
    case False
    then show ?thesis using "1.prems" by (subst (asm) candidate_loop.simps) auto
  next
    case True
    obtain r1 w1 where rn: "rand_name_hex env 16 w = (r1, w1)" by (cases "rand_name_hex env 16 w")
    show ?thesis
    proof (cases r1)
      case (Inl e)
      then show ?thesis using "1.prems" True rn by (subst (asm) candidate_loop.simps) auto
    next
      case r1: (Inr new_name)
      show ?thesis
      proof (cases "with_name current new_name")
        case (Inl e)
        then show ?thesis using "1.prems" True rn r1 by (subst (asm) candidate_loop.simps) auto
      next
        case (Inr candidate')
        then have "candidate_loop env current candidate' (tries + 1) w1 = (Inr c, w')"
          using "1.prems" True rn r1 by (subst (asm) candidate_loop.simps) simp
        moreover have "name candidate' \<noteq> []" using Inr by (auto dest: with_name_parent)
        ultimately show ?thesis using "1.IH"[OF True rn[symmetric] r1 Inr] by blast
      qed
    qed
  qed
qed

lemma path_rename_ok:
  assumes "\<not> fault env (trace w) (Rename src dst)" "fs w src = Some (File bs)" "fs w dst \<noteq> Some Dir"
  shows "\<exists>w'. path_rename env src dst w = (Inr (), w')"
  using assms by (auto simp: path_rename_def syscall_def)

lemma rename_once_total:
  assumes nf: "\<forall>tr ev. \<not> fault env tr ev" and isfile: "fs w current = Some (File bs)"
    and nm: "name current \<noteq> []" and nodir: "\<forall>n. fs w (Path (parent current) n) \<noteq> Some Dir"
  shows "\<exists>cur' w'. rename_once env current w = (Inr cur', w') \<and> name cur' \<noteq> []"
proof -
  obtain n where rn: "rand_name_hex env 16 w = (Inr n, w\<lparr>rpos := rpos w + 16\<rparr>)"
    and n: "n \<noteq> []" "CHR ''/'' \<notin> set n"
    using rand_name_hex_16[of env w] by blast
  let ?w1 = "w\<lparr>rpos := rpos w + 16\<rparr>"
  have wn: "with_name current n = Inr (Path (parent current) n)" using nm n by (rule with_name_ok)
  obtain c w2 where cl: "candidate_loop env current (Path (parent current) n) 0 ?w1 = (Inr c, w2)"
    using candidate_loop_total[OF nm] by blast
  note q = candidate_loop_quiet[OF cl]
  have pc: "parent c = parent current" using cl by (rule candidate_loop_parent) simp
  have f2: "fs w2 = fs w" using q by simp
  have cdir: "fs w2 c \<noteq> Some Dir"
    using nodir pc f2 by (cases c) auto
  have "fs w2 current = Some (File bs)" using isfile f2 by simp
  with nf cdir obtain w3 where mv: "path_rename env current c w2 = (Inr (), w3)"
    using path_rename_ok[of env w2 current c bs] by auto
  have res: "rename_once env current w = (Inr c, fsync_dir_best_effort (parent c) w3)"
    using rn wn cl mv by (simp add: rename_once_def)
  have cn: "name c \<noteq> []" using cl by (rule candidate_loop_name) (simp add: n)
  show ?thesis using res cn by blast
qed


lemma rename_loop_total:
  assumes nf: "\<forall>tr ev. \<not> fault env tr ev"
  shows "fs w current = Some (File bs) \<Longrightarrow> name current \<noteq> [] \<Longrightarrow>
         \<forall>n. fs w (Path (parent current) n) \<noteq> Some Dir \<Longrightarrow>
         \<exists>cur' w'. rename_loop env k current w = (Inr cur', w')"
proof (induction k arbitrary: current w)
  case 0
  show ?case by simp
next
  case (Suc k)
  from rename_once_total[OF nf Suc.prems(1) Suc.prems(2) Suc.prems(3)]
  obtain c w1 where ro: "rename_once env current w = (Inr c, w1)" and cn: "name c \<noteq> []" by blast
  from rename_once_success[OF ro Suc.prems(1)]
  have pc: "parent c = parent current" and f1: "fs w1 c = Some (File bs)"
    and o1: "\<forall>q. q \<noteq> c \<longrightarrow> fs w1 q = (if q = current then None else fs w q)"
    by simp_all
  have nodir: "\<forall>n. fs w1 (Path (parent c) n) \<noteq> Some Dir"
  proof
    fix n
    show "fs w1 (Path (parent c) n) \<noteq> Some Dir"
    proof (cases "Path (parent c) n = c")
      case True
      then show ?thesis using f1 by simp
    next
      case False
      then have "fs w1 (Path (parent c) n)
          = (if Path (parent c) n = current then None else fs w (Path (parent c) n))"
        using o1 by blast
      then show ?thesis using Suc.prems(3) pc by auto
    qed
  qed
  from Suc.IH[OF f1 cn nodir] obtain cur' w' where "rename_loop env k c w1 = (Inr cur', w')"
    by blast
  then show ?case using ro by simp
qed

lemma rename_truncate_unlink_total:
  assumes nf: "\<forall>tr ev. \<not> fault env tr ev" and isfile: "fs w path = Some (File bs)"
    and nm: "name path \<noteq> []" and nodir: "\<forall>n. fs w (Path (parent path) n) \<noteq> Some Dir"
  shows "\<exists>final w'. rename_truncate_unlink env path rename_passes keep w = (Inr final, w')"
proof -
  let ?n = "nat (max 0 rename_passes)"
  from rename_loop_total[OF nf isfile nm nodir, of ?n]
  obtain current w1 where rl: "rename_loop env ?n path w = (Inr current, w1)" by blast
  from rename_loop_success[OF rl isfile, of path "parent path"]
  have f1: "fs w1 current = Some (File bs)" by simp
  let ?w2 = "truncate_best_effort env current w1"
  have nf': "\<forall>tr f. \<not> fault env tr (Open f) \<and> \<not> fault env tr (Truncate f) \<and>
                    \<not> fault env tr (Flush f) \<and> \<not> fault env tr (Fsync f)" using nf by simp
  note tr = truncate_best_effort_ok[OF nf' f1]
  show ?thesis
  proof (cases keep)
    case True
    then show ?thesis using rl by (simp add: rename_truncate_unlink_def Let_def)
  next
    case False
    have "fs ?w2 current = Some (File [])" using tr(1) by simp
    then have "\<exists>w3. path_unlink env current ?w2 = (Inr (), w3)"
      using nf by (simp add: path_unlink_def syscall_def)
    then show ?thesis using rl False by (auto simp: rename_truncate_unlink_def Let_def)
  qed
qed

lemma rename_stage_no_write:
  assumes "rename_stage d n rs" "ev \<in> set rs"
  shows "\<not> is_write ev"
proof -
  from assms(2) obtain i where i: "i < length rs" "rs ! i = ev" by (auto simp: in_set_conv_nth)
  have len: "length rs = 2 * n" using assms(1) by (simp add: rename_stage_def)
  let ?k = "i div 2"
  have k: "?k < n" using i(1) len by simp
  have "i = 2 * ?k \<or> i = 2 * ?k + 1" by presburger
  then show ?thesis
  proof
    assume "i = 2 * ?k"
    moreover have "\<exists>a b. rs ! (2 * ?k) = Rename a b" using assms(1) k by (auto simp: rename_stage_def)
    ultimately show ?thesis using i(2) by auto
  next
    assume "i = 2 * ?k + 1"
    moreover have "rs ! (2 * ?k + 1) = FsyncDir d" using assms(1) k by (simp add: rename_stage_def)
    ultimately show ?thesis using i(2) by auto
  qed
qed

section \<open>A file of zero bytes\<close>

lemma build_pass_count_ok:
  assumes "1 \<le> lo \<and> lo \<le> hi"
  shows "\<exists>n w1. build_pass_count env lo hi rnd w = (Inr n, w1) \<and> fs w1 = fs w \<and> trace w1 = trace w"
proof (cases "\<not> rnd \<or> lo = hi")
  case True
  then show ?thesis using assms by (auto simp: build_pass_count_def)
next
  case False
  have "0 < hi - lo + 1" using assms by simp
  then show ?thesis using assms False by (simp add: build_pass_count_def randbelow_def)
qed

text \<open>
  Claim C9. Take a regular file of zero bytes with a valid pass range, the operator's
  consent (\<open>force\<close>, or YES at the prompt), no failing call, and no directory beside
  the target that a rename could hit. \<^verbatim>\<open>wipe_file\<close> returns normally. The calls it makes
  are one \<^verbatim>\<open>stat\<close>, the rename passes, then \<^verbatim>\<open>open\<close>, \<^verbatim>\<open>truncate\<close>, \<^verbatim>\<open>flush\<close> and
  \<^verbatim>\<open>fsync\<close> of the final path, then \<^verbatim>\<open>unlink\<close> (unless \<open>keep\<close>) and the directory sync: no
  \<^verbatim>\<open>write\<close> is among them. Without \<open>keep\<close>, neither the original nor the final path has
  an entry afterwards. \<^verbatim>\<open>overwrite_random_streaming\<close> itself, called on such a file,
  returns after its \<^verbatim>\<open>stat\<close>.
\<close>

theorem zero_byte_file:
  assumes zero: "fs w p = Some (File [])" and nm: "name p \<noteq> []"
    and bounds: "1 \<le> min_passes \<and> min_passes \<le> max_passes"
    and conf: "force \<or> (\<exists>s. answer env = Some s \<and> strip s = ''YES'')"
    and nf: "\<forall>tr ev. \<not> fault env tr ev"
    and nodir: "\<forall>n. fs w (Path (parent p) n) \<noteq> Some Dir"
  shows "(\<exists>w' final rs tr.
            wipe_file env p min_passes max_passes randomize_pass_count chunk_size verify
              verify_samples verify_len rename_passes drop_cache_linux force keep w
              = Some (Inr (), w') \<and>
            rename_stage (parent p) (nat (max 0 rename_passes)) rs \<and>
            tr = [Stat p] @ rs @ [Open final, Truncate final, Flush final, Fsync final] @
                 (if keep then [FsyncDir (parent p)] else [Unlink final, FsyncDir (parent p)]) \<and>
            trace w' = trace w @ tr \<and> (\<forall>ev\<in>set tr. \<not> is_write ev) \<and>
            (keep \<longrightarrow> fs w' final = Some (File [])) \<and>
            (\<not> keep \<longrightarrow> fs w' p = None \<and> fs w' final = None)) \<and>
         overwrite_random_streaming env p passes chunk_size verify verify_samples verify_len
           drop_cache_linux w = Some (Inr (), w\<lparr>trace := trace w @ [Stat p]\<rparr>)"
proof -
  have res: "resolve (fs w) p = Some p" using zero by (rule resolve_file)
  have pre: "path_exists w p" "\<not> is_dir w p" "\<not> is_symlink w p"
    using zero res by (simp_all add: path_exists_def is_dir_def is_symlink_def)
  have dec: "(if \<not> force then declined env else Inr False) = Inr False"
    using conf by (auto simp: declined_def)
  from build_pass_count_ok[OF bounds, of env randomize_pass_count w]
  obtain n w1 where bp: "build_pass_count env min_passes max_passes randomize_pass_count w = (Inr n, w1)"
    and f1: "fs w1 = fs w" and t1: "trace w1 = trace w" by blast
  let ?w2 = "w1\<lparr>trace := trace w1 @ [Stat p]\<rparr>"
  have st: "path_stat_size env p w1 = (Inr 0, ?w2)"
    using nf zero res f1 by (simp add: path_stat_size_def syscall_def)
  have z2: "fs ?w2 p = Some (File [])" using zero f1 by simp
  have nodir2: "\<forall>n. fs ?w2 (Path (parent p) n) \<noteq> Some Dir" using nodir f1 by simp
  from rename_truncate_unlink_total[OF nf z2 nm nodir2, of rename_passes keep]
  obtain final w4 where del: "rename_truncate_unlink env p rename_passes keep ?w2 = (Inr final, w4)"
    by blast
  have nf': "\<forall>tr f. \<not> fault env tr (Open f) \<and> \<not> fault env tr (Truncate f) \<and>
                    \<not> fault env tr (Flush f) \<and> \<not> fault env tr (Fsync f)" using nf by simp
  from deletion_sequence_facts[OF z2 nf' del]
  obtain rs where rs: "rename_stage (parent p) (nat (max 0 rename_passes)) rs"
    and t4: "trace w4 = trace ?w2 @ rs @ [Open final, Truncate final, Flush final, Fsync final] @
                   (if keep then [FsyncDir (parent p)] else [Unlink final, FsyncDir (parent p)])"
    and k4: "keep \<longrightarrow> fs w4 final = Some (File [])"
    and u4: "\<not> keep \<longrightarrow> fs w4 final = None \<and> fs w4 p = None"
    by auto
  let ?tr = "[Stat p] @ rs @ [Open final, Truncate final, Flush final, Fsync final] @
                 (if keep then [FsyncDir (parent p)] else [Unlink final, FsyncDir (parent p)])"
  have wf: "wipe_file env p min_passes max_passes randomize_pass_count chunk_size verify
              verify_samples verify_len rename_passes drop_cache_linux force keep w
              = Some (Inr (), w4)"
    using pre dec bp st del by (simp add: wipe_file_def)
  have tr: "trace w4 = trace w @ ?tr" using t4 t1 by simp
  have nw: "\<forall>ev\<in>set ?tr. \<not> is_write ev"
    using rename_stage_no_write[OF rs] by auto
  have first: "\<exists>w' final rs tr.
            wipe_file env p min_passes max_passes randomize_pass_count chunk_size verify
              verify_samples verify_len rename_passes drop_cache_linux force keep w
              = Some (Inr (), w') \<and>
            rename_stage (parent p) (nat (max 0 rename_passes)) rs \<and>
            tr = [Stat p] @ rs @ [Open final, Truncate final, Flush final, Fsync final] @
                 (if keep then [FsyncDir (parent p)] else [Unlink final, FsyncDir (parent p)]) \<and>
            trace w' = trace w @ tr \<and> (\<forall>ev\<in>set tr. \<not> is_write ev) \<and>
            (keep \<longrightarrow> fs w' final = Some (File [])) \<and>
            (\<not> keep \<longrightarrow> fs w' p = None \<and> fs w' final = None)"
    apply (rule exI[of _ w4])
    apply (rule exI[of _ final])
    apply (rule exI[of _ rs])
    apply (rule exI[of _ ?tr])
    using wf rs tr nw k4 u4 apply blast
    done
  have second: "overwrite_random_streaming env p passes chunk_size verify verify_samples verify_len
           drop_cache_linux w = Some (Inr (), w\<lparr>trace := trace w @ [Stat p]\<rparr>)"
    using nf zero res by (simp add: overwrite_random_streaming_def path_stat_size_def syscall_def)
  show ?thesis using first second by blast
qed

theorem zero_byte_file_witness:
  "\<exists>w'. wipe_file example_env (Path ''/tmp'' ''empty'') 3 7 True 4096 True 6 64 2 False True False
          (example_world\<lparr>fs := [Path ''/tmp'' ''empty'' \<mapsto> File []]\<rparr>) = Some (Inr (), w') \<and>
        fs w' (Path ''/tmp'' ''empty'') = None \<and> length (trace w') = 11"
proof -
  let ?P = "Path ''/tmp'' ''empty''"
  let ?w = "example_world\<lparr>fs := [?P \<mapsto> File []]\<rparr>"
  have zero: "fs ?w ?P = Some (File [])" by simp
  have nm: "name ?P \<noteq> []" by simp
  have bounds: "(1::int) \<le> 3 \<and> (3::int) \<le> 7" by simp
  have conf: "True \<or> (\<exists>s. answer example_env = Some s \<and> strip s = ''YES'')" by simp
  have nf: "\<forall>tr ev. \<not> fault example_env tr ev" by (simp add: example_env_def)
  have nodir: "\<forall>n. fs ?w (Path (parent ?P) n) \<noteq> Some Dir" by simp
  from zero_byte_file[OF zero nm bounds conf nf nodir, THEN conjunct1,
      of True 4096 True 6 64 2 False False]
  obtain w' final rs tr where
    a: "wipe_file example_env ?P 3 7 True 4096 True 6 64 2 False True False ?w = Some (Inr (), w')"
    and rs: "rename_stage (parent ?P) (nat (max 0 2)) rs"
    and tr: "tr = [Stat ?P] @ rs @ [Open final, Truncate final, Flush final, Fsync final] @
                 (if False then [FsyncDir (parent ?P)] else [Unlink final, FsyncDir (parent ?P)])"
    and t: "trace w' = trace ?w @ tr"
    and u: "\<not> False \<longrightarrow> fs w' ?P = None \<and> fs w' final = None"
    by blast
  have "length rs = 4" using rs by (simp add: rename_stage_def)
  then have "length (trace w') = 11" using t tr by (simp add: example_world_def)
  then show ?thesis using a u by blast
qed

section \<open>Name collisions in a rename pass\<close>

lemma rand_name_hex_16_length:
  "\<exists>nm. rand_name_hex env 16 w = (Inr nm, w\<lparr>rpos := rpos w + 16\<rparr>) \<and> length nm = 32 \<and>
        CHR ''/'' \<notin> set nm"
proof -
  let ?bs = "map (\<lambda>k. of_nat (entropy env k) :: byte) [rpos w ..< rpos w + 16]"
  have "rand_name_hex env 16 w = (Inr (hexlify ?bs), w\<lparr>rpos := rpos w + 16\<rparr>)"
    by (simp add: rand_name_hex_def token_hex_def token_bytes_def)
  moreover have "length (hexlify ?bs) = 32" by (simp add: length_hexlify)
  ultimately show ?thesis using hexlify_no_slash by blast
qed

lemma candidate_loop_bound:
  assumes nm: "name current \<noteq> []"
  shows "tries \<le> 10 \<Longrightarrow> parent candidate = parent current \<Longrightarrow> length (name candidate) = 32 \<Longrightarrow>
    \<exists>c w' k. candidate_loop env current candidate tries w = (Inr c, w') \<and>
       fs w' = fs w \<and> trace w' = trace w \<and> rpos w' = rpos w + 16 * k \<and> k \<le> 10 - tries \<and>
       (path_exists w' c \<longrightarrow> k = 10 - tries) \<and> parent c = parent current \<and>
       length (name c) = 32"
proof (induction "10 - tries" arbitrary: candidate tries w rule: less_induct)
  case less
  show ?case
  proof (cases "path_exists w candidate \<and> tries < 10")
    case False
    have r: "candidate_loop env current candidate tries w = (Inr candidate, w)"
      using False by (subst candidate_loop.simps) auto
    have "path_exists w candidate \<longrightarrow> 0 = 10 - tries" using False less.prems(1) by auto
    then show ?thesis using r less.prems(2,3)
      by (intro exI[of _ candidate] exI[of _ w] exI[of _ 0]) simp
  next
    case True
    obtain n where rn: "rand_name_hex env 16 w = (Inr n, w\<lparr>rpos := rpos w + 16\<rparr>)"
      and n: "length n = 32" "CHR ''/'' \<notin> set n"
      using rand_name_hex_16_length[of env w] by blast
    let ?w1 = "w\<lparr>rpos := rpos w + 16\<rparr>"
    let ?c1 = "Path (parent current) n"
    have n0: "n \<noteq> []" using n(1) by auto
    have wn: "with_name current n = Inr ?c1" using nm n0 n(2) by (rule with_name_ok)
    have step: "candidate_loop env current candidate tries w
        = candidate_loop env current ?c1 (tries + 1) ?w1"
      using True rn wn by (subst candidate_loop.simps) simp
    have dec: "10 - (tries + 1) < 10 - tries" using True by auto
    have le: "tries + 1 \<le> 10" using True by auto
    from less.hyps[OF dec le, of ?c1 ?w1] n(1)
    obtain c w' k where a: "candidate_loop env current ?c1 (tries + 1) ?w1 = (Inr c, w')"
      "fs w' = fs ?w1" "trace w' = trace ?w1" "rpos w' = rpos ?w1 + 16 * k" "k \<le> 10 - (tries + 1)"
      "path_exists w' c \<longrightarrow> k = 10 - (tries + 1)" "parent c = parent current"
      "length (name c) = 32"
      by auto
    have b1: "rpos w' = rpos w + 16 * Suc k" using a(4) by simp
    have b2: "Suc k \<le> 10 - tries" using a(5) True by auto
    have b3: "path_exists w' c \<longrightarrow> Suc k = 10 - tries" using a(6) True by auto
    show ?thesis
      unfolding step
      apply (rule exI[of _ c])
      apply (rule exI[of _ w'])
      apply (rule exI[of _ "Suc k"])
      using a(1,2,3,7,8) b1 b2 b3 apply simp
      done
  qed
qed

text \<open>
  Claim C10. One rename pass, for a path with a final component, picks a candidate \<open>c\<close>
  in the same directory after drawing at most 11 names (the first and at most 10
  regenerations; a name costs 16 draws), touching neither the file system nor the
  trace; if \<open>c\<close> still names an existing entry, exactly 11 names were drawn. The pass
  then calls \<^verbatim>\<open>rename\<close> onto \<open>c\<close> whether or not \<open>c\<close> exists. In particular, when \<open>c\<close>
  still names an existing file other than the current one and the call does not fail,
  the pass succeeds, the file is at \<open>c\<close> in place of the old entry, and the current
  path has no entry.
\<close>

theorem rename_collision_bounded:
  assumes nm: "name current \<noteq> []"
  shows "\<exists>c w1. fs w1 = fs w \<and> trace w1 = trace w \<and> parent c = parent current \<and>
           length (name c) = 32 \<and>
           rpos w1 \<le> rpos w + 16 * 11 \<and> (path_exists w1 c \<longrightarrow> rpos w1 = rpos w + 16 * 11) \<and>
           rename_once env current w =
             (case path_rename env current c w1 of
                (Inl e, w3) \<Rightarrow> (Inl e, w3)
              | (Inr u, w3) \<Rightarrow> (Inr c, fsync_dir_best_effort (parent c) w3)) \<and>
           (path_exists w1 c \<and> fs w current = Some (File bs) \<and> (\<exists>old. fs w c = Some (File old)) \<and>
            c \<noteq> current \<and> \<not> fault env (trace w) (Rename current c)
            \<longrightarrow> (\<exists>w'. rename_once env current w = (Inr c, w') \<and> fs w' c = Some (File bs) \<and>
                       fs w' current = None \<and>
                       trace w' = trace w @ [Rename current c, FsyncDir (parent current)]))"
proof -
  obtain n where rn: "rand_name_hex env 16 w = (Inr n, w\<lparr>rpos := rpos w + 16\<rparr>)"
    and n: "length n = 32" "CHR ''/'' \<notin> set n"
    using rand_name_hex_16_length[of env w] by blast
  let ?w0 = "w\<lparr>rpos := rpos w + 16\<rparr>"
  let ?c0 = "Path (parent current) n"
  have n0: "n \<noteq> []" using n(1) by auto
  have wn: "with_name current n = Inr ?c0" using nm n0 n(2) by (rule with_name_ok)
  from candidate_loop_bound[OF nm, of 0 ?c0 env ?w0] n(1)
  obtain c w1 k where a: "candidate_loop env current ?c0 0 ?w0 = (Inr c, w1)"
    "fs w1 = fs ?w0" "trace w1 = trace ?w0" "rpos w1 = rpos ?w0 + 16 * k" "k \<le> 10"
    "path_exists w1 c \<longrightarrow> k = 10" "parent c = parent current" "length (name c) = 32"
    by auto
  have c1: "fs w1 = fs w" "trace w1 = trace w" using a(2,3) by simp_all
  have c2: "rpos w1 \<le> rpos w + 16 * 11" using a(4,5) by simp
  have c3: "path_exists w1 c \<longrightarrow> rpos w1 = rpos w + 16 * 11" using a(4,6) by simp
  have c4: "rename_once env current w =
             (case path_rename env current c w1 of
                (Inl e, w3) \<Rightarrow> (Inl e, w3)
              | (Inr u, w3) \<Rightarrow> (Inr c, fsync_dir_best_effort (parent c) w3))"
    using rn wn a(1) by (simp add: rename_once_def)
  have c5: "\<exists>w'. rename_once env current w = (Inr c, w') \<and> fs w' c = Some (File bs) \<and>
                       fs w' current = None \<and>
                       trace w' = trace w @ [Rename current c, FsyncDir (parent current)]"
    if h: "path_exists w1 c \<and> fs w current = Some (File bs) \<and> (\<exists>old. fs w c = Some (File old)) \<and>
            c \<noteq> current \<and> \<not> fault env (trace w) (Rename current c)"
  proof -
    from h obtain old where old: "fs w1 c = Some (File old)" using c1 by auto
    have src: "fs w1 current = Some (File bs)" using h c1 by simp
    have nofault: "\<not> fault env (trace w1) (Rename current c)" using h c1 by simp
    have ne: "current \<noteq> c" using h by auto
    have mv: "path_rename env current c w1
        = (Inr (), w1\<lparr>trace := trace w1 @ [Rename current c],
                       fs := (fs w1)(current := None, c \<mapsto> File bs)\<rparr>)"
      using src old nofault ne by (simp add: path_rename_def syscall_def)
    show ?thesis
      unfolding c4 mv using ne c1 a(7) by (simp add: fsync_dir_best_effort_def)
  qed
  show ?thesis
    apply (rule exI[of _ c])
    apply (rule exI[of _ w1])
    using c1 a(7) a(8) c2 c3 c4 c5 apply blast
    done
qed

theorem rename_collision_bounded_witness:
  "\<exists>c w'. rename_once example_env (Path ''/tmp'' ''a.bin'') crowded_world = (Inr c, w') \<and>
          rpos w' = 176 \<and> fs w' c = Some (File [7]) \<and>
          fs w' (Path ''/tmp'' ''a.bin'') = None"
proof -
  let ?P = "Path ''/tmp'' ''a.bin''"
  have nm: "name ?P \<noteq> []" by simp
  from rename_collision_bounded[OF nm, of crowded_world example_env "[7]"]
  obtain c w1 where a: "fs w1 = fs crowded_world" "trace w1 = trace crowded_world"
    "length (name c) = 32"
    "path_exists w1 c \<longrightarrow> rpos w1 = rpos crowded_world + 16 * 11"
    "rename_once example_env ?P crowded_world =
             (case path_rename example_env ?P c w1 of
                (Inl e, w3) \<Rightarrow> (Inl e, w3)
              | (Inr u, w3) \<Rightarrow> (Inr c, fsync_dir_best_effort (parent c) w3))"
    "path_exists w1 c \<and> fs crowded_world ?P = Some (File [7]) \<and>
       (\<exists>old. fs crowded_world c = Some (File old)) \<and> c \<noteq> ?P \<and>
       \<not> fault example_env (trace crowded_world) (Rename ?P c)
       \<longrightarrow> (\<exists>w'. rename_once example_env ?P crowded_world = (Inr c, w') \<and>
                  fs w' c = Some (File [7]) \<and> fs w' ?P = None \<and>
                  trace w' = trace crowded_world @ [Rename ?P c, FsyncDir (parent ?P)])"
    by blast
  have ne: "c \<noteq> ?P" using a(3) by auto
  have fc: "fs w1 c = Some (File [])" using a(1) ne by (simp add: crowded_world_def)
  have ex: "path_exists w1 c"
    using resolve_file[where m = "fs w1" and p = c, OF fc] by (simp add: path_exists_def)
  have r176: "rpos w1 = 176" using a(4) ex by (simp add: crowded_world_def)
  have h: "path_exists w1 c \<and> fs crowded_world ?P = Some (File [7]) \<and>
       (\<exists>old. fs crowded_world c = Some (File old)) \<and> c \<noteq> ?P \<and>
       \<not> fault example_env (trace crowded_world) (Rename ?P c)"
    using ex ne by (simp add: crowded_world_def example_env_def)
  from a(6) h obtain w' where b: "rename_once example_env ?P crowded_world = (Inr c, w')"
    "fs w' c = Some (File [7])" "fs w' ?P = None" by blast
  have "rpos w' = 176"
  proof -
    have "\<not> fault example_env (trace w1) (Rename ?P c)" by (simp add: example_env_def)
    moreover have "fs w1 ?P = Some (File [7])" using a(1) by (simp add: crowded_world_def)
    ultimately have "path_rename example_env ?P c w1
        = (Inr (), w1\<lparr>trace := trace w1 @ [Rename ?P c],
                       fs := (fs w1)(?P := None, c \<mapsto> File [7])\<rparr>)"
      using fc ne[symmetric] by (simp add: path_rename_def syscall_def)
    then show ?thesis using a(5) b(1) r176 by (simp add: fsync_dir_best_effort_def)
  qed
  then show ?thesis using b by blast
qed

section \<open>Coverage of the samples by the streaming loop\<close>

lemma bytearrays_ok:
  "\<forall>s\<in>set ss. 0 \<le> length_bytes s \<Longrightarrow> \<exists>E. bytearrays ss = Inr E \<and> length E = length ss"
  by (induction ss) (auto simp: bytearray_def)

lemma choose_samples_valid:
  "\<exists>xs w'. choose_samples env fsize n sl w = (Inr xs, w') \<and>
     (\<forall>s\<in>set xs. 0 \<le> offset s \<and> 0 \<le> length_bytes s \<and> offset s + length_bytes s \<le> fsize)"
proof (cases "fsize \<le> 0 \<or> n \<le> 0 \<or> sl \<le> 0")
  case True
  then show ?thesis by (simp add: choose_samples_def)
next
  case False
  let ?sl = "min sl fsize"
  have "\<exists>xs. sample_loop env fsize ?sl (nat n) [] w = (Inr xs, w\<lparr>rpos := rpos w + nat n\<rparr>) \<and>
        length xs = length ([]::Sample list) + nat n \<and>
        (\<forall>s\<in>set xs. 0 \<le> offset s \<and> length_bytes s = ?sl \<and> offset s + length_bytes s \<le> fsize)"
    using False by (intro sample_loop_ok) auto
  then obtain xs where
    a: "sample_loop env fsize ?sl (nat n) [] w = (Inr xs, w\<lparr>rpos := rpos w + nat n\<rparr>)"
    and b: "\<forall>s\<in>set xs. 0 \<le> offset s \<and> length_bytes s = ?sl \<and> offset s + length_bytes s \<le> fsize"
    by blast
  have "0 \<le> ?sl" using False by simp
  then have "\<forall>s\<in>set xs. 0 \<le> offset s \<and> 0 \<le> length_bytes s \<and> offset s + length_bytes s \<le> fsize"
    using b by auto
  then show ?thesis using a False by (auto simp: choose_samples_def)
qed

lemma readback_loop_error:
  "readback_loop env f p ss i expected w = (Inl e, w') \<Longrightarrow> e \<noteq> RuntimeError CaptureFailed"
proof (induction ss arbitrary: i w)
  case Nil
  then show ?case by simp
next
  case (Cons s ss)
  obtain r1 w1 where sk: "file_seek env f (offset s) w = (r1, w1)"
    by (cases "file_seek env f (offset s) w")
  show ?case
  proof (cases r1)
    case (Inl e1)
    then have "e = e1" using Cons.prems sk by simp
    moreover have "\<exists>ev. e1 = OSError ev"
      using sk Inl by (auto simp: file_seek_def syscall_def split: if_splits)
    ultimately show ?thesis by auto
  next
    case r1: (Inr pos)
    obtain r2 w2 where rd: "file_read env f pos (length_bytes s) w1 = (r2, w2)"
      by (cases "file_read env f pos (length_bytes s) w1")
    show ?thesis
    proof (cases r2)
      case (Inl e2)
      then have "e = e2" using Cons.prems sk r1 rd by simp
      moreover have "\<exists>ev. e2 = OSError ev"
        using rd Inl by (auto simp: file_read_def syscall_def split: if_splits option.splits node.splits)
      ultimately show ?thesis by auto
    next
      case r2: (Inr got)
      consider (short) "length expected \<le> i"
        | (diff) "\<not> length expected \<le> i" "got \<noteq> expected ! i"
        | (same) "\<not> length expected \<le> i" "got = expected ! i" by blast
      then show ?thesis
      proof cases
        case short
        then show ?thesis using Cons.prems sk r1 rd r2 by auto
      next
        case diff
        then show ?thesis using Cons.prems sk r1 rd r2 by auto
      next
        case same
        then have "readback_loop env f p ss (Suc i) expected w2 = (Inl e, w')"
          using Cons.prems sk r1 rd r2 by simp
        then show ?thesis by (rule Cons.IH)
      qed
    qed
  qed
qed

lemma syscall_error: "syscall env ev w = (Inl e, w') \<Longrightarrow> e = OSError ev"
  by (auto simp: syscall_def split: if_splits)

lemma one_pass_no_capture_failure:
  assumes cs: "1 \<le> chunk_size"
  shows "\<exists>res w'. one_pass env f fsize chunk_size verify vs vl dc p w = Some (res, w') \<and>
           res \<noteq> Inl (RuntimeError CaptureFailed)"
proof -
  obtain samples w1 where
    c: "(if verify then choose_samples env fsize vs vl w else (Inr [], w)) = (Inr samples, w1)"
    and valid: "\<forall>s\<in>set samples. 0 \<le> offset s \<and> 0 \<le> length_bytes s \<and>
                  offset s + length_bytes s \<le> fsize"
    and v: "verify \<or> samples = []"
  proof (cases verify)
    case True
    from choose_samples_valid[of env fsize vs vl w] obtain xs w' where
      "choose_samples env fsize vs vl w = (Inr xs, w')"
      "\<forall>s\<in>set xs. 0 \<le> offset s \<and> 0 \<le> length_bytes s \<and> offset s + length_bytes s \<le> fsize"
      by blast
    then show ?thesis using that[of xs w'] True by simp
  next
    case False
    then show ?thesis using that[of "[]" w] by simp
  qed
  from bytearrays_ok[of samples] valid obtain expected where
    ba: "bytearrays samples = Inr expected" and le: "length expected = length samples" by auto
  obtain r2 w2 where sk: "file_seek env f 0 w1 = (r2, w2)" by (cases "file_seek env f 0 w1")
  show ?thesis
  proof (cases r2)
    case (Inl e)
    then have "\<exists>ev. e = OSError ev"
      using sk by (auto simp: file_seek_def syscall_def split: if_splits)
    moreover have "one_pass env f fsize chunk_size verify vs vl dc p w = Some (Inl e, w2)"
      using c ba sk Inl by (simp add: one_pass_def)
    ultimately show ?thesis by auto
  next
    case r2: (Inr pos)
    have pos: "pos = 0" using sk r2 by (auto dest: file_seek_Inr)
    let ?filled0 = "map (\<lambda>s. bytes_times [0] (length_bytes s)) samples"
    have init: "filled_upto samples ?filled0 0"
      using valid by (intro filled_upto_initial) simp
    from stream_loop_inv[OF cs v le init, of env f fsize w2]
    obtain r3 w3 where sl: "stream_loop env f fsize chunk_size verify samples expected ?filled0 0 w2
                              = Some (r3, w3)"
      and ok3: "\<forall>E F. r3 = Inr (E, F) \<longrightarrow> filled_upto samples F fsize"
      and er3: "\<forall>e. r3 = Inl e \<longrightarrow> (\<exists>ev. e = OSError ev)"
      by blast
    show ?thesis
    proof (cases r3)
      case (Inl e)
      then have "\<exists>ev. e = OSError ev" using er3 by simp
      moreover have "one_pass env f fsize chunk_size verify vs vl dc p w = Some (Inl e, w3)"
        using c ba sk r2 pos sl Inl by (simp add: one_pass_def)
      ultimately show ?thesis by auto
    next
      case r3: (Inr ef)
      obtain E F where ef: "ef = (E, F)" by (cases ef)
      have "filled_upto samples F fsize" using ok3 r3 ef by simp
      then have allf: "list_all all_filled F"
        using valid by (intro filled_upto_all_filled[where samples = samples and fsize = fsize]) simp_all
      obtain r4 w4 where fl: "file_flush env f w3 = (r4, w4)" by (cases "file_flush env f w3")
      show ?thesis
      proof (cases r4)
        case (Inl e)
        then have "e = OSError (Flush f)" using fl by (auto simp: file_flush_def dest: syscall_error)
        moreover have "one_pass env f fsize chunk_size verify vs vl dc p w = Some (Inl e, w4)"
          using c ba sk r2 pos sl r3 ef fl Inl by (simp add: one_pass_def)
        ultimately show ?thesis by auto
      next
        case r4: (Inr u4)
        obtain r5 w5 where fy: "os_fsync env f w4 = (r5, w5)" by (cases "os_fsync env f w4")
        show ?thesis
        proof (cases r5)
          case (Inl e)
          then have "e = OSError (Fsync f)" using fy by (auto simp: os_fsync_def dest: syscall_error)
          moreover have "one_pass env f fsize chunk_size verify vs vl dc p w = Some (Inl e, w5)"
            using c ba sk r2 pos sl r3 ef fl r4 fy Inl by (simp add: one_pass_def)
          ultimately show ?thesis by auto
        next
          case r5: (Inr u5)
          let ?w6 = "if dc then linux_drop_page_cache_best_effort f fsize w5 else w5"
          show ?thesis
          proof (cases "verify \<and> samples \<noteq> []")
            case False
            then have "one_pass env f fsize chunk_size verify vs vl dc p w = Some (Inr (), ?w6)"
              using c ba sk r2 pos sl r3 ef fl r4 fy r5 by (simp add: one_pass_def split: if_splits)
            then show ?thesis by auto
          next
            case True
            then have op: "one_pass env f fsize chunk_size verify vs vl dc p w
                = Some (verify_pass env f fsize p dc samples E F ?w6)"
              using c ba sk r2 pos sl r3 ef fl r4 fy r5 by (simp add: one_pass_def)
            obtain r7 w7 where rb: "readback_loop env f p samples 0 E ?w6 = (r7, w7)"
              by (cases "readback_loop env f p samples 0 E ?w6")
            show ?thesis
            proof (cases r7)
              case (Inl e)
              then have "e \<noteq> RuntimeError CaptureFailed" using rb by (auto dest: readback_loop_error)
              moreover have "verify_pass env f fsize p dc samples E F ?w6 = (Inl e, w7)"
                using allf rb Inl by (simp add: verify_pass_def)
              ultimately show ?thesis using op by auto
            next
              case (Inr u7)
              then have "\<exists>w8. verify_pass env f fsize p dc samples E F ?w6 = (Inr (), w8)"
                using allf rb by (simp add: verify_pass_def)
              then show ?thesis using op by auto
            qed
          qed
        qed
      qed
    qed
  qed
qed

text \<open>
  With a chunk size below 1 the loop never completes on a file with bytes left to write:
  a negative size makes \<^verbatim>\<open>secrets.token_bytes\<close> raise, and size 0 writes nothing for ever.
\<close>

lemma stream_loop_stuck:
  assumes "stream_loop env f fsize chunk_size verify samples expected filled written w = Some rw"
  shows "chunk_size \<le> 0 \<and> written < fsize \<longrightarrow> (\<exists>e. fst rw = Inl e)"
proof (rule stream_loop.raw_induct[where P = "\<lambda>env f fsize chunk_size verify samples expected
          filled written w rw. chunk_size \<le> 0 \<and> written < fsize \<longrightarrow> (\<exists>e. fst rw = Inl e)",
          OF _ assms], goal_cases)
  case (1 sl env f fsize chunk_size verify samples expected filled written w rw)
  note IH = 1(1) and body = 1(2)
  show ?case
  proof
    assume h: "chunk_size \<le> 0 \<and> written < fsize"
    let ?n = "min chunk_size (fsize - written)"
    have n: "?n \<le> 0" using h by simp
    obtain r1 w1 where tb: "token_bytes env ?n w = (r1, w1)" by (cases "token_bytes env ?n w")
    show "\<exists>e. fst rw = Inl e"
    proof (cases r1)
      case (Inl e)
      then have "rw = (Inl e, w1)" using body h tb by simp
      then show ?thesis by simp
    next
      case (Inr data)
      let ?c = "if verify \<and> samples \<noteq> []
                then capture_expected_from_chunk samples expected filled data written
                else Inr (expected, filled)"
      show ?thesis
      proof (cases ?c)
        case cInl: (Inl e)
        then have "rw = (Inl e, w1)" using body h tb Inr by simp
        then show ?thesis by simp
      next
        case cInr: (Inr ef)
        obtain E F where ef: "ef = (E, F)" by (cases ef)
        obtain r2 w2 where fw: "file_write env f written data w1 = (r2, w2)"
          by (cases "file_write env f written data w1")
        show ?thesis
        proof (cases r2)
          case (Inl e)
          then have "rw = (Inl e, w2)" using body h tb Inr cInr ef fw by simp
          then show ?thesis by simp
        next
          case r2: (Inr u)
          then have "sl env f fsize chunk_size verify samples E F (written + ?n) w2 = Some rw"
            using body h tb Inr cInr ef fw by simp
          from IH[OF this] have "chunk_size \<le> 0 \<and> written + ?n < fsize \<longrightarrow> (\<exists>e. fst rw = Inl e)" .
          moreover have "written + ?n < fsize" using n h by linarith
          ultimately show ?thesis using h by blast
        qed
      qed
    qed
  qed
qed



section \<open>A differing sample fails the pass\<close>

lemma stream_loop_lengths:
  assumes "stream_loop env f fsize chunk_size verify samples expected filled written w = Some rw"
  shows "length expected = length samples \<and> length filled = length samples \<longrightarrow>
         (\<forall>E F. fst rw = Inr (E, F) \<longrightarrow> length E = length samples \<and> length F = length samples)"
proof (rule stream_loop.raw_induct[where P = "\<lambda>env f fsize chunk_size verify samples expected
          filled written w rw. length expected = length samples \<and> length filled = length samples \<longrightarrow>
         (\<forall>E F. fst rw = Inr (E, F) \<longrightarrow> length E = length samples \<and> length F = length samples)",
          OF _ assms], goal_cases)
  case (1 sl env f fsize chunk_size verify samples expected filled written w rw)
  note IH = 1(1) and body = 1(2)
  show ?case
  proof
    assume len: "length expected = length samples \<and> length filled = length samples"
    show "\<forall>E F. fst rw = Inr (E, F) \<longrightarrow> length E = length samples \<and> length F = length samples"
    proof (cases "written < fsize")
      case False
      then have "rw = (Inr (expected, filled), w)" using body by simp
      then show ?thesis using len by simp
    next
      case True
      let ?n = "min chunk_size (fsize - written)"
      obtain r1 w1 where tb: "token_bytes env ?n w = (r1, w1)" by (cases "token_bytes env ?n w")
      show ?thesis
      proof (cases r1)
        case (Inl e)
        then have "rw = (Inl e, w1)" using body True tb by simp
        then show ?thesis by simp
      next
        case (Inr data)
        let ?c = "if verify \<and> samples \<noteq> []
                  then capture_expected_from_chunk samples expected filled data written
                  else Inr (expected, filled)"
        show ?thesis
        proof (cases ?c)
          case cInl: (Inl e)
          then have "rw = (Inl e, w1)" using body True tb Inr by simp
          then show ?thesis by simp
        next
          case cInr: (Inr ef)
          obtain E1 F1 where ef: "ef = (E1, F1)" by (cases ef)
          have len1: "length E1 = length samples \<and> length F1 = length samples"
          proof (cases "verify \<and> samples \<noteq> []")
            case False
            then show ?thesis using cInr ef len by auto
          next
            case vt: True
            from capture_returns[of expected samples filled data written] len
            obtain E' F' where
              "capture_expected_from_chunk samples expected filled data written = Inr (E', F')"
              "length E' = length samples" "length F' = length samples"
              by blast
            then show ?thesis using cInr ef vt by simp
          qed
          obtain r2 w2 where fw: "file_write env f written data w1 = (r2, w2)"
            by (cases "file_write env f written data w1")
          show ?thesis
          proof (cases r2)
            case (Inl e)
            then have "rw = (Inl e, w2)" using body True tb Inr cInr ef fw by simp
            then show ?thesis by simp
          next
            case r2: (Inr u)
            then have "sl env f fsize chunk_size verify samples E1 F1 (written + ?n) w2 = Some rw"
              using body True tb Inr cInr ef fw by simp
            from IH[OF this] len1 show ?thesis by blast
          qed
        qed
      qed
    qed
  qed
qed

lemma stream_loop_filled:
  assumes inside: "\<forall>s\<in>set samples. 0 \<le> offset s \<and> offset s + length_bytes s \<le> fsize"
    and le: "length expected = length samples"
    and r: "stream_loop env f fsize chunk_size True samples expected
              (map (\<lambda>s. bytes_times [0] (length_bytes s)) samples) 0 w = Some (Inr (E, F), w')"
  shows "list_all all_filled F \<and> length E = length samples"
proof -
  let ?filled0 = "map (\<lambda>s. bytes_times [0] (length_bytes s)) samples"
  have init: "filled_upto samples ?filled0 0"
    using inside by (intro filled_upto_initial) simp
  have ins: "\<forall>s\<in>set samples. offset s + length_bytes s \<le> fsize" using inside by simp
  have lenE: "length E = length samples"
    using stream_loop_lengths[OF r] le by simp
  have "list_all all_filled F"
  proof (cases "1 \<le> chunk_size")
    case True
    from stream_loop_inv[OF True _ le init, of True env f fsize w] r
    have "filled_upto samples F fsize" by auto
    then show ?thesis using ins by (rule filled_upto_all_filled)
  next
    case False
    show ?thesis
    proof (cases "0 < fsize")
      case True
      from stream_loop_stuck[OF r] False True show ?thesis by simp
    next
      case f: False
      then have "stream_loop env f fsize chunk_size True samples expected ?filled0 0 w
                   = Some (Inr (expected, ?filled0), w)"
        by (subst stream_loop.simps) simp
      then have F: "F = ?filled0" using r by simp
      have "filled_upto samples ?filled0 fsize"
      proof (rule filled_upto_mono)
        show "filled_upto samples ?filled0 0" by (rule init)
        show "fsize \<le> 0" using f by simp
      qed
      then show ?thesis unfolding F using ins by (rule filled_upto_all_filled)
    qed
  qed
  then show ?thesis using lenE by simp
qed

lemma drop_cache_fs [simp]:
  "fs (linux_drop_page_cache_best_effort f n w) = fs w"
  by (simp add: linux_drop_page_cache_best_effort_def)

lemma one_pass_mismatch:
  assumes smp: "choose_samples env fsize vs vl w = (Inr samples, w1)"
    and ba: "bytearrays samples = Inr expected"
    and sk: "file_seek env f 0 w1 = (Inr pos, w2)"
    and sl: "stream_loop env f fsize chunk_size True samples expected
               (map (\<lambda>s. bytes_times [0] (length_bytes s)) samples) pos w2
             = Some (Inr (captured, filled), w3)"
    and fl: "file_flush env f w3 = (Inr u4, w4)"
    and fy: "os_fsync env f w4 = (Inr u5, w5)"
    and isfile: "fs w5 f = Some (File bs)"
    and nf: "\<forall>tr pos n. \<not> fault env tr (Seek f pos) \<and> \<not> fault env tr (Read f pos n)"
    and i: "i < length samples"
    and diff: "read_back env bs (samples ! i) \<noteq> captured ! i"
    and first: "\<forall>j<i. read_back env bs (samples ! j) = captured ! j"
  shows "\<exists>w'. one_pass env f fsize chunk_size True vs vl dc p w
           = Some (Inl (RuntimeError (VerificationMismatch p (i + 1) (offset (samples ! i)))), w')"
proof -
  from choose_samples_valid[of env fsize vs vl w] smp
  have valid: "\<forall>s\<in>set samples. 0 \<le> offset s \<and> 0 \<le> length_bytes s \<and>
                 offset s + length_bytes s \<le> fsize" by auto
  from bytearrays_ok[of samples] valid ba have le: "length expected = length samples" by auto
  have pos: "pos = 0" using sk by (auto dest: file_seek_Inr)
  have inside: "\<forall>s\<in>set samples. 0 \<le> offset s \<and> offset s + length_bytes s \<le> fsize"
    using valid by simp
  from stream_loop_filled[OF inside le sl[unfolded pos]]
  have allf: "list_all all_filled filled" and lc: "length captured = length samples" by simp_all
  have ne: "samples \<noteq> []" using i by auto
  let ?w6 = "if dc then linux_drop_page_cache_best_effort f fsize w5 else w5"
  have op: "one_pass env f fsize chunk_size True vs vl dc p w
              = Some (verify_pass env f fsize p dc samples captured filled ?w6)"
    using smp ba sk sl fl fy ne by (simp add: one_pass_def)
  have f6: "fs ?w6 f = Some (File bs)" using isfile by simp
  have nf': "\<And>tr pos n. \<not> fault env tr (Seek f pos) \<and> \<not> fault env tr (Read f pos n)"
    using nf by blast
  have "\<exists>w'. readback_loop env f p samples 0 captured ?w6
          = (Inl (RuntimeError (VerificationMismatch p (0 + i + 1) (offset (samples ! i)))), w')"
    using f6 valid lc i diff first
    by (intro readback_first_mismatch[OF nf', where bs = bs]) simp_all
  then obtain w' where "readback_loop env f p samples 0 captured ?w6
          = (Inl (RuntimeError (VerificationMismatch p (i + 1) (offset (samples ! i)))), w')"
    by auto
  then have "verify_pass env f fsize p dc samples captured filled ?w6
          = (Inl (RuntimeError (VerificationMismatch p (i + 1) (offset (samples ! i)))), w')"
    using allf by (simp add: verify_pass_def)
  then show ?thesis using op by simp
qed

lemma pass_loop_append:
  "pass_loop env f fsize cs v vs vl dc ps1 w0 = Some (Inr (), w) \<Longrightarrow>
   pass_loop env f fsize cs v vs vl dc (ps1 @ ps) w0 = pass_loop env f fsize cs v vs vl dc ps w"
proof (induction ps1 arbitrary: w0)
  case Nil
  then show ?case by simp
next
  case (Cons p ps1)
  obtain r1 where o: "one_pass env f fsize cs v vs vl dc p w0 = r1" by simp
  show ?case
  proof (cases r1)
    case None
    then show ?thesis using Cons.prems o by simp
  next
    case (Some rw)
    obtain r w1 where rw: "rw = (r, w1)" by (cases rw)
    show ?thesis
    proof (cases r)
      case (Inl e)
      then show ?thesis using Cons.prems o Some rw by simp
    next
      case (Inr u)
      then have "pass_loop env f fsize cs v vs vl dc ps1 w1 = Some (Inr (), w)"
        using Cons.prems o Some rw by simp
      from Cons.IH[OF this] show ?thesis using o Some rw Inr by simp
    qed
  qed
qed

lemma failed_pass_fails_wipe:
  assumes chk: "path_exists w path \<and> \<not> is_dir w path \<and> \<not> is_symlink w path"
    and conf: "force \<or> declined env = Inr False"
    and bp: "build_pass_count env lo hi rnd w = (Inr passes, wa)"
    and st: "path_stat_size env path wa = (Inr fsize, wb)" and pos: "0 < fsize"
    and st2: "path_stat_size env path wb = (Inr fsize', wc)" and nz: "fsize' \<noteq> 0"
    and opn: "open_rw env path wc = (Inr f, wd)"
    and pl: "pass_loop env f fsize' cs v vs vl dc [1 .. passes] wd = Some (Inl e, w')"
  shows "overwrite_random_streaming env path passes cs v vs vl dc wb = Some (Inl e, w') \<and>
         wipe_file env path lo hi rnd cs v vs vl rp dc force keep w = Some (Inl e, w')"
proof -
  have ow: "overwrite_random_streaming env path passes cs v vs vl dc wb = Some (Inl e, w')"
    using st2 nz opn pl by (simp add: overwrite_random_streaming_def)
  have d: "(if \<not> force then declined env else Inr False) = Inr False" using conf by auto
  have "wipe_file env path lo hi rnd cs v vs vl rp dc force keep w = Some (Inl e, w')"
    using chk bp st pos ow unfolding wipe_file_def d by simp
  then show ?thesis using ow by simp
qed

text \<open>
  Claim C3. (1) When the reads of the samples succeed and sample \<open>i\<close> (counted from 0) is
  the first whose read-back differs from its expected bytes, the read-back loop of pass
  \<open>p\<close> raises the verification mismatch that names pass \<open>p\<close>, sample \<open>i + 1\<close> and the
  offset of that sample. (2) So does the whole pass: when pass \<open>p\<close> has chosen its
  samples, streamed the file and captured the expected bytes, flushed and synced, and
  sample \<open>i\<close> is the first whose read-back differs from its captured bytes, the pass
  returns that mismatch. (3) A pass that raises, after any number of passes that
  completed, ends the loop over the passes at once with that error and in that world:
  no later pass runs. (4) The error and world of a failed loop over the passes are
  those of \<^verbatim>\<open>overwrite_random_streaming\<close> and of \<^verbatim>\<open>wipe_file\<close>. (5) When \<^verbatim>\<open>wipe_file\<close> ends
  with a verification mismatch at offset \<open>off\<close>, the last call it made is the read at
  \<open>off\<close>, it made no \<^verbatim>\<open>rename\<close>, \<^verbatim>\<open>truncate\<close> or \<^verbatim>\<open>unlink\<close> call, every entry of the
  file system is still there, and the target is still a regular file.
\<close>

theorem verification_mismatch_aborts:
  "(fs w f = Some (File bs) \<and>
    (\<forall>tr pos n. \<not> fault env tr (Seek f pos) \<and> \<not> fault env tr (Read f pos n)) \<and>
    (\<forall>s\<in>set samples. 0 \<le> offset s) \<and> length samples \<le> length expected \<and>
    i < length samples \<and> read_back env bs (samples ! i) \<noteq> expected ! i \<and>
    (\<forall>j<i. read_back env bs (samples ! j) = expected ! j)
    \<longrightarrow> (\<exists>w1. readback_loop env f p samples 0 expected w
               = (Inl (RuntimeError (VerificationMismatch p (i + 1) (offset (samples ! i)))), w1))) \<and>
   (choose_samples env fsize verify_samples verify_len w = (Inr samples, wa) \<and>
    bytearrays samples = Inr zeros \<and>
    file_seek env f 0 wa = (Inr pos, wb) \<and>
    stream_loop env f fsize chunk_size True samples zeros
      (map (\<lambda>s. bytes_times [0] (length_bytes s)) samples) pos wb
      = Some (Inr (captured, filled), wc) \<and>
    file_flush env f wc = (Inr (), wd) \<and>
    os_fsync env f wd = (Inr (), we) \<and>
    fs we f = Some (File bs) \<and>
    (\<forall>tr pos n. \<not> fault env tr (Seek f pos) \<and> \<not> fault env tr (Read f pos n)) \<and>
    i < length samples \<and> read_back env bs (samples ! i) \<noteq> captured ! i \<and>
    (\<forall>j<i. read_back env bs (samples ! j) = captured ! j)
    \<longrightarrow> (\<exists>w1. one_pass env f fsize chunk_size True verify_samples verify_len drop_cache_linux p w
               = Some (Inl (RuntimeError (VerificationMismatch p (i + 1) (offset (samples ! i)))),
                       w1))) \<and>
   (pass_loop env f fsize chunk_size verify verify_samples verify_len drop_cache_linux ps0 w0
      = Some (Inr (), w) \<and>
    one_pass env f fsize chunk_size verify verify_samples verify_len drop_cache_linux p w
      = Some (Inl e, w1)
    \<longrightarrow> pass_loop env f fsize chunk_size verify verify_samples verify_len drop_cache_linux
          (ps0 @ p # ps) w0 = Some (Inl e, w1)) \<and>
   (path_exists w path \<and> \<not> is_dir w path \<and> \<not> is_symlink w path \<and>
    (force \<or> declined env = Inr False) \<and>
    build_pass_count env min_passes max_passes randomize_pass_count w = (Inr passes, wa) \<and>
    path_stat_size env path wa = (Inr fsize, wb) \<and> 0 < fsize \<and>
    path_stat_size env path wb = (Inr fsize', wc) \<and> fsize' \<noteq> 0 \<and>
    open_rw env path wc = (Inr f, wd) \<and>
    pass_loop env f fsize' chunk_size verify verify_samples verify_len drop_cache_linux
      [1 .. passes] wd = Some (Inl e, w')
    \<longrightarrow> overwrite_random_streaming env path passes chunk_size verify verify_samples verify_len
          drop_cache_linux wb = Some (Inl e, w') \<and>
        wipe_file env path min_passes max_passes randomize_pass_count chunk_size verify
          verify_samples verify_len rename_passes drop_cache_linux force keep w
          = Some (Inl e, w')) \<and>
   (wipe_file env path min_passes max_passes randomize_pass_count chunk_size verify verify_samples
      verify_len rename_passes drop_cache_linux force keep w
      = Some (Inl (RuntimeError (VerificationMismatch q k off)), w')
    \<longrightarrow> (\<exists>tr g n. trace w' = trace w @ tr \<and> tr \<noteq> [] \<and> last tr = Read g off n \<and>
                  (\<forall>ev\<in>set tr. \<not> is_deletion ev)) \<and>
        same_kinds w w' \<and> (\<exists>bs'. fs w' path = Some (File bs')))"
proof -
  have c1: "\<exists>w1. readback_loop env f p samples 0 expected w
               = (Inl (RuntimeError (VerificationMismatch p (i + 1) (offset (samples ! i)))), w1)"
    if h: "fs w f = Some (File bs) \<and>
      (\<forall>tr pos n. \<not> fault env tr (Seek f pos) \<and> \<not> fault env tr (Read f pos n)) \<and>
      (\<forall>s\<in>set samples. 0 \<le> offset s) \<and> length samples \<le> length expected \<and>
      i < length samples \<and> read_back env bs (samples ! i) \<noteq> expected ! i \<and>
      (\<forall>j<i. read_back env bs (samples ! j) = expected ! j)"
  proof -
    have nf: "\<And>tr pos n. \<not> fault env tr (Seek f pos) \<and> \<not> fault env tr (Read f pos n)"
      using h by blast
    have "\<exists>w'. readback_loop env f p samples 0 expected w
                = (Inl (RuntimeError (VerificationMismatch p (0 + i + 1) (offset (samples ! i)))), w')"
      using h by (intro readback_first_mismatch[OF nf, where bs = bs]) simp_all
    then show ?thesis by simp
  qed
  have c2: "\<exists>w1. one_pass env f fsize chunk_size True verify_samples verify_len drop_cache_linux p w
               = Some (Inl (RuntimeError (VerificationMismatch p (i + 1) (offset (samples ! i)))),
                       w1)"
    if h: "choose_samples env fsize verify_samples verify_len w = (Inr samples, wa) \<and>
      bytearrays samples = Inr zeros \<and>
      file_seek env f 0 wa = (Inr pos, wb) \<and>
      stream_loop env f fsize chunk_size True samples zeros
        (map (\<lambda>s. bytes_times [0] (length_bytes s)) samples) pos wb
        = Some (Inr (captured, filled), wc) \<and>
      file_flush env f wc = (Inr (), wd) \<and>
      os_fsync env f wd = (Inr (), we) \<and>
      fs we f = Some (File bs) \<and>
      (\<forall>tr pos n. \<not> fault env tr (Seek f pos) \<and> \<not> fault env tr (Read f pos n)) \<and>
      i < length samples \<and> read_back env bs (samples ! i) \<noteq> captured ! i \<and>
      (\<forall>j<i. read_back env bs (samples ! j) = captured ! j)"
  proof (rule one_pass_mismatch)
    show "choose_samples env fsize verify_samples verify_len w = (Inr samples, wa)" using h by blast
    show "bytearrays samples = Inr zeros" using h by blast
    show "file_seek env f 0 wa = (Inr pos, wb)" using h by blast
    show "stream_loop env f fsize chunk_size True samples zeros
        (map (\<lambda>s. bytes_times [0] (length_bytes s)) samples) pos wb
        = Some (Inr (captured, filled), wc)" using h by blast
    show "file_flush env f wc = (Inr (), wd)" using h by blast
    show "os_fsync env f wd = (Inr (), we)" using h by blast
    show "fs we f = Some (File bs)" using h by blast
    show "\<forall>tr pos n. \<not> fault env tr (Seek f pos) \<and> \<not> fault env tr (Read f pos n)"
      using h by blast
    show "i < length samples" using h by blast
    show "read_back env bs (samples ! i) \<noteq> captured ! i" using h by blast
    show "\<forall>j<i. read_back env bs (samples ! j) = captured ! j" using h by blast
  qed
  have c3: "pass_loop env f fsize chunk_size verify verify_samples verify_len drop_cache_linux
          (ps0 @ p # ps) w0 = Some (Inl e, w1)"
    if h: "pass_loop env f fsize chunk_size verify verify_samples verify_len drop_cache_linux ps0 w0
        = Some (Inr (), w) \<and>
      one_pass env f fsize chunk_size verify verify_samples verify_len drop_cache_linux p w
        = Some (Inl e, w1)"
  proof -
    have "pass_loop env f fsize chunk_size verify verify_samples verify_len drop_cache_linux
            (ps0 @ p # ps) w0
          = pass_loop env f fsize chunk_size verify verify_samples verify_len drop_cache_linux
              (p # ps) w"
      using h by (intro pass_loop_append) simp
    then show ?thesis using h by simp
  qed
  have c4: "overwrite_random_streaming env path passes chunk_size verify verify_samples verify_len
          drop_cache_linux wb = Some (Inl e, w') \<and>
        wipe_file env path min_passes max_passes randomize_pass_count chunk_size verify
          verify_samples verify_len rename_passes drop_cache_linux force keep w
          = Some (Inl e, w')"
    if h: "path_exists w path \<and> \<not> is_dir w path \<and> \<not> is_symlink w path \<and>
      (force \<or> declined env = Inr False) \<and>
      build_pass_count env min_passes max_passes randomize_pass_count w = (Inr passes, wa) \<and>
      path_stat_size env path wa = (Inr fsize, wb) \<and> 0 < fsize \<and>
      path_stat_size env path wb = (Inr fsize', wc) \<and> fsize' \<noteq> 0 \<and>
      open_rw env path wc = (Inr f, wd) \<and>
      pass_loop env f fsize' chunk_size verify verify_samples verify_len drop_cache_linux
        [1 .. passes] wd = Some (Inl e, w')"
  proof (rule failed_pass_fails_wipe)
    show "path_exists w path \<and> \<not> is_dir w path \<and> \<not> is_symlink w path" using h by blast
    show "force \<or> declined env = Inr False" using h by blast
    show "build_pass_count env min_passes max_passes randomize_pass_count w = (Inr passes, wa)"
      using h by blast
    show "path_stat_size env path wa = (Inr fsize, wb)" using h by blast
    show "0 < fsize" using h by blast
    show "path_stat_size env path wb = (Inr fsize', wc)" using h by blast
    show "fsize' \<noteq> 0" using h by blast
    show "open_rw env path wc = (Inr f, wd)" using h by blast
    show "pass_loop env f fsize' chunk_size verify verify_samples verify_len drop_cache_linux
        [1 .. passes] wd = Some (Inl e, w')" using h by blast
  qed
  have c5: "(\<exists>tr g n. trace w' = trace w @ tr \<and> tr \<noteq> [] \<and> last tr = Read g off n \<and>
                  (\<forall>ev\<in>set tr. \<not> is_deletion ev)) \<and>
        same_kinds w w' \<and> (\<exists>bs'. fs w' path = Some (File bs'))"
    if h: "wipe_file env path min_passes max_passes randomize_pass_count chunk_size verify
      verify_samples verify_len rename_passes drop_cache_linux force keep w
      = Some (Inl (RuntimeError (VerificationMismatch q k off)), w')"
  proof -
    from wipe_file_mismatch_run[OF h] obtain tr where t: "trace w' = trace w @ tr"
      and a: "\<forall>ev\<in>set tr. \<not> is_deletion ev"
      and s: "(\<forall>ev\<in>set tr. \<not> is_deletion ev) \<longrightarrow> same_kinds w w'"
      and m: "tr \<noteq> [] \<and> (\<exists>g n. last tr = Read g off n)"
      unfolding run_def by auto
    have sk: "same_kinds w w'" using a s by blast
    from wipe_file_mismatch_checked[OF h] obtain bs0 where "fs w path = Some (File bs0)"
      using regular_file by blast
    then have "\<exists>bs'. fs w' path = Some (File bs')"
      using sk by (auto simp: same_kinds_def split: option.splits node.splits dest!: spec[of _ path])
    then show ?thesis using t a m sk by blast
  qed
  show ?thesis
    apply (intro conjI impI)
    subgoal by (rule c1) blast
    subgoal by (rule c2) blast
    subgoal by (rule c3) blast
    subgoal using c4 by blast
    subgoal using c4 by blast
    subgoal using c5 by blast
    subgoal using c5 by blast
    subgoal using c5 by blast
    done
qed

theorem verification_mismatch_aborts_witness:
  "(\<exists>w1. readback_loop bad_device_env (Path ''/tmp'' ''a.bin'') 1 [\<lparr>offset = 0, length_bytes = 2\<rparr>] 0
           [[1, 2]] example_world
         = (Inl (RuntimeError (VerificationMismatch 1 1 0)), w1)) \<and>
   (\<exists>w1. one_pass late_flip_env (Path ''/tmp'' ''a.bin'') 10 4 True 2 2 False 1 example_world
         = Some (Inl (RuntimeError (VerificationMismatch 1 2 1)), w1)) \<and>
   fst (the (wipe_file late_flip_env (Path ''/tmp'' ''a.bin'') 2 2 False 4 True 2 2 2 False
               True False example_world))
     = Inl (RuntimeError (VerificationMismatch 1 2 1)) \<and>
   (\<exists>bs'. fs (snd (the (wipe_file late_flip_env (Path ''/tmp'' ''a.bin'') 2 2 False 4 True 2 2 2
                           False True False example_world))) (Path ''/tmp'' ''a.bin'')
           = Some (File bs'))"
proof -
  let ?P = "Path ''/tmp'' ''a.bin''"
  let ?S = "[\<lparr>offset = 0, length_bytes = 2\<rparr>]"
  let ?bs = "[1, 2, 3, 4, 5, 6, 7, 8, 9, 10] :: byte list"
  let ?r = "wipe_file late_flip_env ?P 2 2 False 4 True 2 2 2 False True False example_world"
  have h1: "fs example_world ?P = Some (File ?bs) \<and>
    (\<forall>tr pos n. \<not> fault bad_device_env tr (Seek ?P pos) \<and> \<not> fault bad_device_env tr (Read ?P pos n)) \<and>
    (\<forall>s\<in>set ?S. 0 \<le> offset s) \<and> length ?S \<le> length [[1, 2 :: byte]] \<and>
    0 < length ?S \<and> read_back bad_device_env ?bs (?S ! 0) \<noteq> [[1, 2]] ! 0 \<and>
    (\<forall>j<0. read_back bad_device_env ?bs (?S ! j) = [[1, 2]] ! j)"
    by (simp add: example_world_def bad_device_env_def read_back_def flip_first_def)
  from verification_mismatch_aborts[THEN conjunct1, rule_format, OF h1]
  have p1: "\<exists>w1. readback_loop bad_device_env ?P 1 ?S 0 [[1, 2]] example_world
         = (Inl (RuntimeError (VerificationMismatch 1 1 0)), w1)"
    by simp
  let ?T = "[\<lparr>offset = 3, length_bytes = 2\<rparr>, \<lparr>offset = 1, length_bytes = 2\<rparr>]"
  let ?Z = "[[0, 0], [0, 0]] :: byte list list"
  let ?C = "[[38, 45], [24, 31]] :: byte list list"
  let ?F = "[[1, 1], [1, 1]] :: byte list list"
  let ?D = "[17, 24, 31, 38, 45, 52, 59, 66, 73, 80] :: byte list"
  let ?c = "choose_samples late_flip_env 10 2 2 example_world"
  let ?k = "file_seek late_flip_env ?P 0 (snd ?c)"
  let ?s = "stream_loop late_flip_env ?P 10 4 True ?T ?Z
              (map (\<lambda>s. bytes_times [0] (length_bytes s)) ?T) 0 (snd ?k)"
  let ?fl = "file_flush late_flip_env ?P (snd (the ?s))"
  let ?fy = "os_fsync late_flip_env ?P (snd ?fl)"
  have "fst ?c = Inr ?T" by code_simp
  then have a1: "?c = (Inr ?T, snd ?c)" by (cases ?c) simp
  have a2: "bytearrays ?T = Inr ?Z" by (simp add: bytearray_def numeral_2_eq_2)
  have "fst ?k = Inr 0" by code_simp
  then have a3: "?k = (Inr 0, snd ?k)" by (cases ?k) simp
  have "case ?s of None \<Rightarrow> False | Some rw \<Rightarrow> fst rw = Inr (?C, ?F)" by code_simp
  then have a4: "?s = Some (Inr (?C, ?F), snd (the ?s))" by (cases ?s) auto
  have "fst ?fl = Inr ()" by code_simp
  then have a5: "?fl = (Inr (), snd ?fl)" by (cases ?fl) simp
  have "fst ?fy = Inr ()" by code_simp
  then have a6: "?fy = (Inr (), snd ?fy)" by (cases ?fy) simp
  have a7: "fs (snd ?fy) ?P = Some (File ?D)" by code_simp
  have a8: "\<forall>tr pos n. \<not> fault late_flip_env tr (Seek ?P pos) \<and>
                        \<not> fault late_flip_env tr (Read ?P pos n)"
    by (simp add: late_flip_env_def)
  have a9: "(1::nat) < length ?T" by simp
  have a10: "read_back late_flip_env ?D (?T ! 1) \<noteq> ?C ! 1"
    by (simp add: read_back_def late_flip_env_def flip_second_def)
  have a11: "\<forall>j<(1::nat). read_back late_flip_env ?D (?T ! j) = ?C ! j"
    by (simp add: read_back_def late_flip_env_def flip_second_def numeral_3_eq_3)
  have h2: "choose_samples late_flip_env 10 2 2 example_world = (Inr ?T, snd ?c) \<and>
    bytearrays ?T = Inr ?Z \<and>
    file_seek late_flip_env ?P 0 (snd ?c) = (Inr 0, snd ?k) \<and>
    stream_loop late_flip_env ?P 10 4 True ?T ?Z
      (map (\<lambda>s. bytes_times [0] (length_bytes s)) ?T) 0 (snd ?k)
      = Some (Inr (?C, ?F), snd (the ?s)) \<and>
    file_flush late_flip_env ?P (snd (the ?s)) = (Inr (), snd ?fl) \<and>
    os_fsync late_flip_env ?P (snd ?fl) = (Inr (), snd ?fy) \<and>
    fs (snd ?fy) ?P = Some (File ?D) \<and>
    (\<forall>tr pos n. \<not> fault late_flip_env tr (Seek ?P pos) \<and> \<not> fault late_flip_env tr (Read ?P pos n)) \<and>
    1 < length ?T \<and> read_back late_flip_env ?D (?T ! 1) \<noteq> ?C ! 1 \<and>
    (\<forall>j<1. read_back late_flip_env ?D (?T ! j) = ?C ! j)"
    using a1 a2 a3 a4 a5 a6 a7 a8 a9 a10 a11 by blast
  from verification_mismatch_aborts[THEN conjunct2, THEN conjunct1, rule_format, OF h2,
      where p = 1 and drop_cache_linux = False]
  have p2: "\<exists>w1. one_pass late_flip_env ?P 10 4 True 2 2 False 1 example_world
         = Some (Inl (RuntimeError (VerificationMismatch 1 2 1)), w1)"
    by (simp add: numeral_2_eq_2)
  have some: "case ?r of None \<Rightarrow> False | Some rw \<Rightarrow> True" by code_simp
  have res: "fst (the ?r) = Inl (RuntimeError (VerificationMismatch 1 2 1))" by code_simp
  from some obtain w' where eq: "?r = Some (Inl (RuntimeError (VerificationMismatch 1 2 1)), w')"
    using res by (cases ?r) auto
  from verification_mismatch_aborts[THEN conjunct2, THEN conjunct2, THEN conjunct2,
      THEN conjunct2, rule_format, OF eq]
  have "\<exists>bs'. fs w' ?P = Some (File bs')" by blast
  then show ?thesis using p1 p2 res eq by simp
qed

section \<open>The error of a failed call is raised by the last call\<close>

lemma ends_bind:
  assumes "ends w (Inr x, w1)" "ends w1 rw"
  shows "ends w rw"
  using assms by (auto simp: ends_def)

lemma ends_step:
  assumes "ends w m" and "\<And>x w1. m = (Inr x, w1) \<Longrightarrow> ends w1 (k x w1)"
  shows "ends w (case m of (Inl e, w1) \<Rightarrow> (Inl e, w1) | (Inr x, w1) \<Rightarrow> k x w1)"
proof (cases m)
  case (Pair r w1)
  show ?thesis
  proof (cases r)
    case (Inl e)
    then show ?thesis using assms(1) Pair by (simp add: ends_def)
  next
    case (Inr x)
    have "ends w (Inr x, w1)" using assms(1) Pair Inr by simp
    moreover have "ends w1 (k x w1)" using assms(2) Pair Inr by simp
    ultimately have "ends w (k x w1)" by (rule ends_bind)
    then show ?thesis using Pair Inr by simp
  qed
qed

lemma ends_opt_step:
  assumes "ends w m" and "\<And>x w1. m = (Inr x, w1) \<Longrightarrow> ends_opt w1 (k x w1)"
  shows "ends_opt w (case m of (Inl e, w1) \<Rightarrow> Some (Inl e, w1) | (Inr x, w1) \<Rightarrow> k x w1)"
proof (cases m)
  case (Pair r w1)
  show ?thesis
  proof (cases r)
    case (Inl e)
    then show ?thesis using assms(1) Pair by (simp add: ends_def ends_opt_def)
  next
    case (Inr x)
    have a: "ends w (Inr x, w1)" using assms(1) Pair Inr by simp
    have b: "ends_opt w1 (k x w1)" using assms(2) Pair Inr by simp
    have "ends_opt w (k x w1)"
    proof (cases "k x w1")
      case None
      then show ?thesis by (simp add: ends_opt_def)
    next
      case (Some rw)
      then have "ends w1 rw" using b by (simp add: ends_opt_def)
      from ends_bind[OF a this] show ?thesis using Some by (simp add: ends_opt_def)
    qed
    then show ?thesis using Pair Inr by simp
  qed
qed

lemma ends_opt_step_opt:
  assumes "ends_opt w m" and "\<And>x w1. m = Some (Inr x, w1) \<Longrightarrow> ends_opt w1 (k x w1)"
  shows "ends_opt w (case m of None \<Rightarrow> None | Some (Inl e, w1) \<Rightarrow> Some (Inl e, w1)
                     | Some (Inr x, w1) \<Rightarrow> k x w1)"
proof (cases m)
  case None
  then show ?thesis by (simp add: ends_opt_def)
next
  case (Some rw)
  obtain r w1 where rw: "rw = (r, w1)" by (cases rw)
  show ?thesis
  proof (cases r)
    case (Inl e)
    then show ?thesis using assms(1) Some rw by (simp add: ends_def ends_opt_def)
  next
    case (Inr x)
    have a: "ends w (Inr x, w1)" using assms(1) Some rw Inr by (simp add: ends_opt_def)
    have b: "ends_opt w1 (k x w1)" using assms(2) Some rw Inr by simp
    have "ends_opt w (k x w1)"
    proof (cases "k x w1")
      case None
      then show ?thesis by (simp add: ends_opt_def)
    next
      case s: (Some rw')
      then have "ends w1 rw'" using b by (simp add: ends_opt_def)
      from ends_bind[OF a this] show ?thesis using s by (simp add: ends_opt_def)
    qed
    then show ?thesis using Some rw Inr by simp
  qed
qed

lemma ends_pure:
  assumes "\<And>e. r = Inl e \<Longrightarrow> \<not> call_error e"
  shows "ends w (r, w)"
  using assms by (auto simp: ends_def)

lemma ends_opt_Some: "ends w rw \<Longrightarrow> ends_opt w (Some rw)"
  by (simp add: ends_opt_def)

lemma ends_optD: "ends_opt w r \<Longrightarrow> r = Some rw \<Longrightarrow> ends w rw"
  by (simp add: ends_opt_def)

lemma ends_more: "ends w (r, w1) \<Longrightarrow> length (trace w1) \<le> length (trace w2) \<Longrightarrow> ends w (Inr x, w2)"
  by (simp add: ends_def)

lemma ends_token_bytes: "ends w (token_bytes env n w)"
  by (simp add: ends_def token_bytes_def)

lemma ends_randbelow: "ends w (randbelow env k w)"
  by (simp add: ends_def randbelow_def)

lemma ends_rand_name_hex: "ends w (rand_name_hex env n w)"
  by (simp add: ends_def rand_name_hex_def token_hex_def token_bytes_def)

lemma ends_sample_loop: "ends w (sample_loop env fsize sl n acc w)"
proof (induction n arbitrary: acc w)
  case 0
  show ?case by (simp add: ends_def)
next
  case (Suc n)
  show ?case unfolding sample_loop.simps
    by (rule ends_step) (rule ends_randbelow, rule Suc.IH)
qed

lemma ends_choose_samples: "ends w (choose_samples env fsize n sl w)"
  by (simp add: choose_samples_def ends_sample_loop) (simp add: ends_def)

lemma ends_build_pass_count: "ends w (build_pass_count env lo hi rnd w)"
proof -
  have "ends w (case randbelow env (hi - lo + 1) w of (Inl e, w') \<Rightarrow> (Inl e, w')
                | (Inr r, w') \<Rightarrow> (Inr (lo + r), w'))"
    by (rule ends_step[OF ends_randbelow]) (simp add: ends_def)
  then show ?thesis by (simp add: build_pass_count_def) (simp add: ends_def)
qed

lemma ends_syscall: "ends w (syscall env ev w)"
  by (simp add: ends_def syscall_def)

lemma ends_path_stat_size: "ends w (path_stat_size env p w)"
  by (auto simp: ends_def path_stat_size_def syscall_def split: option.splits node.splits)

lemma ends_open_rw: "ends w (open_rw env p w)"
  by (auto simp: ends_def open_rw_def syscall_def split: option.splits node.splits)

lemma ends_file_seek: "ends w (file_seek env f pos w)"
  by (auto simp: ends_def file_seek_def syscall_def)

lemma ends_file_write: "ends w (file_write env f pos data w)"
  by (auto simp: ends_def file_write_def syscall_def split: option.splits node.splits)

lemma ends_file_read: "ends w (file_read env f pos n w)"
  by (auto simp: ends_def file_read_def syscall_def split: option.splits node.splits)

lemma ends_file_flush: "ends w (file_flush env f w)"
  by (auto simp: ends_def file_flush_def syscall_def)

lemma ends_os_fsync: "ends w (os_fsync env f w)"
  by (auto simp: ends_def os_fsync_def syscall_def)

lemma ends_path_rename: "ends w (path_rename env src dst w)"
  by (auto simp: ends_def path_rename_def syscall_def split: option.splits node.splits)

lemma ends_path_unlink: "ends w (path_unlink env p w)"
  by (auto simp: ends_def path_unlink_def syscall_def split: option.splits node.splits)

lemma ends_stream_loop_aux:
  assumes "stream_loop env f fsize chunk_size verify samples expected filled written w = Some rw"
  shows "ends w rw"
proof (rule stream_loop.raw_induct[where P = "\<lambda>env f fsize chunk_size verify samples expected
          filled written w rw. ends w rw", OF _ assms], goal_cases)
  case (1 sl env f fsize chunk_size verify samples expected filled written w rw)
  note IH = 1(1) and body = 1(2)
  show ?case
  proof (cases "written < fsize")
    case False
    then have "rw = (Inr (expected, filled), w)" using body by simp
    then show ?thesis by (simp add: ends_def)
  next
    case True
    let ?n = "min chunk_size (fsize - written)"
    obtain r1 w1 where tb: "token_bytes env ?n w = (r1, w1)" by (cases "token_bytes env ?n w")
    have e1: "ends w (r1, w1)" using ends_token_bytes[of w env ?n] tb by simp
    have t1: "trace w1 = trace w" using tb by (auto simp: token_bytes_def split: if_splits)
    show ?thesis
    proof (cases r1)
      case (Inl e)
      then have "rw = (Inl e, w1)" using body True tb by simp
      then show ?thesis using e1 Inl by (simp add: ends_def)
    next
      case (Inr data)
      let ?c = "if verify \<and> samples \<noteq> []
                then capture_expected_from_chunk samples expected filled data written
                else Inr (expected, filled)"
      show ?thesis
      proof (cases ?c)
        case cInl: (Inl e)
        then have e: "e = IndexError"
          by (auto simp: capture_expected_from_chunk_def dest: capture_loop_error split: if_splits)
        have "rw = (Inl e, w1)" using body True tb Inr cInl by simp
        then show ?thesis using e t1 by (simp add: ends_def)
      next
        case cInr: (Inr ef)
        obtain E F where ef: "ef = (E, F)" by (cases ef)
        obtain r2 w2 where fw: "file_write env f written data w1 = (r2, w2)"
          by (cases "file_write env f written data w1")
        have e2: "ends w1 (r2, w2)" using ends_file_write[of w1 env f written data] fw by simp
        have e12: "ends w (r2, w2)" using e2 t1 by (simp add: ends_def)
        show ?thesis
        proof (cases r2)
          case (Inl e)
          then have "rw = (Inl e, w2)" using body True tb Inr cInr ef fw by simp
          then show ?thesis using e12 Inl by (simp add: ends_def)
        next
          case r2: (Inr u)
          then have "sl env f fsize chunk_size verify samples E F (written + ?n) w2 = Some rw"
            using body True tb Inr cInr ef fw by simp
          from IH[OF this] have "ends w2 rw" .
          moreover have "ends w (Inr u, w2)" using e12 r2 by simp
          ultimately show ?thesis by (rule ends_bind[rotated])
        qed
      qed
    qed
  qed
qed

lemma ends_stream_loop:
  "ends_opt w (stream_loop env f fsize chunk_size verify samples expected filled written w)"
  by (cases "stream_loop env f fsize chunk_size verify samples expected filled written w")
     (auto simp: ends_opt_def dest: ends_stream_loop_aux)

lemma ends_readback_loop: "ends w (readback_loop env f p ss i expected w)"
proof (induction ss arbitrary: i w)
  case Nil
  show ?case by (simp add: ends_def)
next
  case (Cons s ss)
  show ?case unfolding readback_loop.simps
  proof (rule ends_step[OF ends_file_seek], rule ends_step[OF ends_file_read])
    fix x w1 xa w1a
    show "ends w1a (if length expected \<le> i then (Inl IndexError, w1a)
             else if xa \<noteq> expected ! i
               then (Inl (RuntimeError (VerificationMismatch p (i + 1) (offset s))), w1a)
             else readback_loop env f p ss (Suc i) expected w1a)"
      using Cons.IH[where i = "Suc i" and w = w1a] by (simp add: ends_def)
  qed
qed

lemma drop_cache_trace [simp]:
  "trace (linux_drop_page_cache_best_effort f n w) = trace w @ [Fadvise f]"
  by (simp add: linux_drop_page_cache_best_effort_def)

lemma fsync_dir_trace [simp]:
  "trace (fsync_dir_best_effort d w) = trace w @ [FsyncDir d]"
  by (simp add: fsync_dir_best_effort_def)

lemma ends_verify_pass: "ends w (verify_pass env f fsize p dc samples expected filled w)"
proof -
  obtain r1 w1 where rb: "readback_loop env f p samples 0 expected w = (r1, w1)"
    by (cases "readback_loop env f p samples 0 expected w")
  have "ends w (r1, w1)" using ends_readback_loop[of w env f p samples 0 expected] rb by simp
  then show ?thesis using rb
    by (cases r1) (auto simp: verify_pass_def ends_def)
qed

lemma ends_one_pass: "ends_opt w (one_pass env f fsize cs v vs vl dc p w)"
  unfolding one_pass_def
proof (rule ends_opt_step)
  show "ends w (if v then choose_samples env fsize vs vl w else (Inr [], w))"
    by (simp add: ends_choose_samples) (simp add: ends_def)
next
  fix samples w1
  show "ends_opt w1 (case bytearrays samples of Inl e \<Rightarrow> Some (Inl e, w1)
          | Inr expected \<Rightarrow>
              (case file_seek env f 0 w1 of (Inl e, w2) \<Rightarrow> Some (Inl e, w2)
               | (Inr pos, w2) \<Rightarrow>
                   (case stream_loop env f fsize cs v samples expected
                           (map (\<lambda>s. bytes_times [0] (length_bytes s)) samples) pos w2 of
                      None \<Rightarrow> None
                    | Some (Inl e, w3) \<Rightarrow> Some (Inl e, w3)
                    | Some (Inr (expected', filled'), w3) \<Rightarrow>
                        (case file_flush env f w3 of (Inl e, w4) \<Rightarrow> Some (Inl e, w4)
                         | (Inr u, w4) \<Rightarrow>
                             (case os_fsync env f w4 of (Inl e, w5) \<Rightarrow> Some (Inl e, w5)
                              | (Inr u, w5) \<Rightarrow>
                                  (if v \<and> samples \<noteq> []
                                   then Some (verify_pass env f fsize p dc samples expected' filled'
                                                (if dc then linux_drop_page_cache_best_effort f fsize w5
                                                 else w5))
                                   else Some (Inr (),
                                                if dc then linux_drop_page_cache_best_effort f fsize w5
                                                else w5)))))))"
  proof (cases "bytearrays samples")
    case (Inl e)
    then have "e = ValueError ''negative count''" by (rule bytearrays_error)
    then show ?thesis using Inl by (simp add: ends_opt_def ends_def)
  next
    case (Inr expected)
    show ?thesis unfolding Inr sum.case
    proof (rule ends_opt_step[OF ends_file_seek], rule ends_opt_step_opt[OF ends_stream_loop],
           clarify, rule ends_opt_step[OF ends_file_flush], rule ends_opt_step[OF ends_os_fsync])
      fix E F w5
      let ?w6 = "if dc then linux_drop_page_cache_best_effort f fsize w5 else w5"
      have l: "length (trace w5) \<le> length (trace ?w6)" by simp
      have "ends ?w6 (verify_pass env f fsize p dc samples E F ?w6)" by (rule ends_verify_pass)
      then have a: "ends w5 (verify_pass env f fsize p dc samples E F ?w6)"
        using l by (auto simp: ends_def)
      have b: "ends w5 (Inr () :: error + unit, ?w6)" using l by (simp add: ends_def)
      show "ends_opt w5 (if v \<and> samples \<noteq> []
              then Some (verify_pass env f fsize p dc samples E F ?w6)
              else Some (Inr (), ?w6))"
        using a b by (simp add: ends_opt_def)
    qed
  qed
qed

lemma ends_pass_loop: "ends_opt w (pass_loop env f fsize cs v vs vl dc ps w)"
proof (induction ps arbitrary: w)
  case Nil
  show ?case by (simp add: ends_opt_def ends_def)
next
  case (Cons p ps)
  show ?case unfolding pass_loop.simps
    by (rule ends_opt_step_opt[OF ends_one_pass]) (rule Cons.IH)
qed

lemma ends_overwrite_random_streaming:
  "ends_opt w (overwrite_random_streaming env path passes cs v vs vl dc w)"
  unfolding overwrite_random_streaming_def
proof (rule ends_opt_step[OF ends_path_stat_size])
  fix fsize w1
  show "ends_opt w1 (if fsize = 0 then Some (Inr (), w1)
          else case open_rw env path w1 of (Inl e, w2) \<Rightarrow> Some (Inl e, w2)
               | (Inr f, w2) \<Rightarrow> pass_loop env f fsize cs v vs vl dc [1..passes] w2)"
  proof (cases "fsize = 0")
    case True
    then show ?thesis by (simp add: ends_opt_def ends_def)
  next
    case False
    then show ?thesis
      by (simp del: upto.simps) (rule ends_opt_step[OF ends_open_rw], rule ends_pass_loop)
  qed
qed

lemma ends_with_name: "with_name p n = Inl e \<Longrightarrow> \<not> call_error e"
  by (auto simp: with_name_def split: if_splits)

lemma ends_candidate_loop: "ends w (candidate_loop env current candidate tries w)"
proof (induction env current candidate tries w rule: candidate_loop.induct)
  case (1 env current candidate tries w)
  show ?case
  proof (cases "path_exists w candidate \<and> tries < 10")
    case False
    then show ?thesis by (subst candidate_loop.simps) (auto simp: ends_def)
  next
    case True
    have "ends w (case rand_name_hex env 16 w of (Inl e, w') \<Rightarrow> (Inl e, w')
            | (Inr new_name, w') \<Rightarrow>
                (case with_name current new_name of Inl e \<Rightarrow> (Inl e, w')
                 | Inr candidate' \<Rightarrow> candidate_loop env current candidate' (tries + 1) w'))"
    proof (rule ends_step[OF ends_rand_name_hex])
      fix new_name w'
      assume rn: "rand_name_hex env 16 w = (Inr new_name, w')"
      show "ends w' (case with_name current new_name of Inl e \<Rightarrow> (Inl e, w')
                 | Inr candidate' \<Rightarrow> candidate_loop env current candidate' (tries + 1) w')"
      proof (cases "with_name current new_name")
        case (Inl e)
        then show ?thesis using ends_with_name[OF Inl] by (simp add: ends_def)
      next
        case (Inr candidate')
        from "1.IH"[OF True rn[symmetric] refl Inr] show ?thesis using Inr by simp
      qed
    qed
    then show ?thesis using True by (subst candidate_loop.simps) simp
  qed
qed

lemma ends_rename_once: "ends w (rename_once env current w)"
  unfolding rename_once_def
proof (rule ends_step[OF ends_rand_name_hex])
  fix new_name w1
  show "ends w1 (case with_name current new_name of Inl e \<Rightarrow> (Inl e, w1)
          | Inr candidate \<Rightarrow>
              (case candidate_loop env current candidate 0 w1 of (Inl e, w2) \<Rightarrow> (Inl e, w2)
               | (Inr candidate', w2) \<Rightarrow>
                   (case path_rename env current candidate' w2 of (Inl e, w3) \<Rightarrow> (Inl e, w3)
                    | (Inr u, w3) \<Rightarrow> (Inr candidate', fsync_dir_best_effort (parent candidate') w3))))"
  proof (cases "with_name current new_name")
    case (Inl e)
    then show ?thesis using ends_with_name[OF Inl] by (simp add: ends_def)
  next
    case (Inr candidate)
    show ?thesis unfolding Inr sum.case
      by (rule ends_step[OF ends_candidate_loop], rule ends_step[OF ends_path_rename])
         (simp add: ends_def)
  qed
qed

lemma ends_rename_loop: "ends w (rename_loop env n current w)"
proof (induction n arbitrary: current w)
  case 0
  show ?case by (simp add: ends_def)
next
  case (Suc n)
  show ?case unfolding rename_loop.simps
    by (rule ends_step[OF ends_rename_once]) (rule Suc.IH)
qed

lemma truncate_best_effort_grows:
  "length (trace w) \<le> length (trace (truncate_best_effort env current w))"
  by (auto simp: truncate_best_effort_def open_rw_def file_truncate_def file_flush_def
        os_fsync_def syscall_def split: option.splits node.splits)

lemma ends_rename_truncate_unlink: "ends w (rename_truncate_unlink env path n keep w)"
  unfolding rename_truncate_unlink_def
proof (rule ends_step[OF ends_rename_loop])
  fix current w1
  let ?w2 = "truncate_best_effort env current w1"
  have g: "length (trace w1) \<le> length (trace ?w2)" by (rule truncate_best_effort_grows)
  have a: "ends w1 (Inr current, fsync_dir_best_effort (parent current) ?w2)"
    using g by (simp add: ends_def)
  have "ends ?w2 (case path_unlink env current ?w2 of (Inl e, w3) \<Rightarrow> (Inl e, w3)
                  | (Inr u, w3) \<Rightarrow> (Inr current, fsync_dir_best_effort (parent current) w3))"
    by (rule ends_step[OF ends_path_unlink]) (simp add: ends_def)
  then have b: "ends w1 (case path_unlink env current ?w2 of (Inl e, w3) \<Rightarrow> (Inl e, w3)
                  | (Inr u, w3) \<Rightarrow> (Inr current, fsync_dir_best_effort (parent current) w3))"
    using g by (auto simp: ends_def)
  show "ends w1 (let w2 = truncate_best_effort env current w1
          in if keep then (Inr current, fsync_dir_best_effort (parent current) w2)
             else case path_unlink env current w2 of (Inl e, w3) \<Rightarrow> (Inl e, w3)
                  | (Inr u, w3) \<Rightarrow> (Inr current, fsync_dir_best_effort (parent current) w3))"
    using a b by (simp add: Let_def)
qed

lemma ends_wipe_file:
  assumes r: "wipe_file env path lo hi rnd cs v vs vl rp dc force keep w = Some (res, w')"
  shows "w' = w \<or> ends w (res, w')"
proof -
  consider (pre) "\<not> path_exists w path \<or> is_dir w path \<or> is_symlink w path"
    | (go) "path_exists w path" "\<not> is_dir w path" "\<not> is_symlink w path" by blast
  then show ?thesis
  proof cases
    case pre
    then show ?thesis using r by (auto simp: wipe_file_def split: if_splits)
  next
    case go
    let ?d = "if \<not> force then declined env else Inr False"
    show ?thesis
    proof (cases ?d)
      case (Inl e)
      then show ?thesis using r go by (simp add: wipe_file_def)
    next
      case d: (Inr stop)
      show ?thesis
      proof (cases stop)
        case True
        then show ?thesis using r go d by (simp add: wipe_file_def)
      next
        case False
        let ?body = "case build_pass_count env lo hi rnd w of
                (Inl e, w1) \<Rightarrow> Some (Inl e, w1)
              | (Inr passes, w1) \<Rightarrow>
                  (case path_stat_size env path w1 of
                     (Inl e, w2) \<Rightarrow> Some (Inl e, w2)
                   | (Inr fsize, w2) \<Rightarrow>
                       (case (if 0 < fsize
                              then overwrite_random_streaming env path passes cs v vs vl dc w2
                              else Some (Inr (), w2)) of
                          None \<Rightarrow> None
                        | Some (Inl e, w3) \<Rightarrow> Some (Inl e, w3)
                        | Some (Inr u, w3) \<Rightarrow>
                            (case rename_truncate_unlink env path rp keep w3 of
                               (Inl e, w4) \<Rightarrow> Some (Inl e, w4)
                             | (Inr final_path, w4) \<Rightarrow> Some (Inr (), w4))))"
        have eq: "wipe_file env path lo hi rnd cs v vs vl rp dc force keep w = ?body"
          using go d False by (simp add: wipe_file_def)
        have "ends_opt w ?body"
        proof (rule ends_opt_step[OF ends_build_pass_count],
               rule ends_opt_step[OF ends_path_stat_size], rule ends_opt_step_opt)
          fix fsize w2 passes
          show "ends_opt w2 (if 0 < fsize
                  then overwrite_random_streaming env path passes cs v vs vl dc w2
                  else Some (Inr (), w2))"
            using ends_overwrite_random_streaming[of w2 env path passes cs v vs vl dc]
            by (simp add: ends_opt_def ends_def)
        next
          fix w3
          have "ends w3 (rename_truncate_unlink env path rp keep w3)"
            by (rule ends_rename_truncate_unlink)
          then show "ends_opt w3 (case rename_truncate_unlink env path rp keep w3 of
                       (Inl e, w4) \<Rightarrow> Some (Inl e, w4)
                     | (Inr final_path, w4) \<Rightarrow> Some (Inr (), w4))"
            by (auto simp: ends_opt_def ends_def split: prod.splits sum.splits)
        qed
        then have "ends w (res, w')" using r eq by (simp add: ends_opt_def)
        then show ?thesis ..
      qed
    qed
  qed
qed

lemma ends_last:
  assumes "ends w (Inl e, w')" "call_error e" "trace w' = trace w @ tr"
  shows "tr \<noteq> [] \<and> raised_by e (last tr)"
  using assms by (auto simp: ends_def)

section \<open>Failures inside the truncate stage\<close>

lemma path_rename_trace: "path_rename env src dst w = (r, w') \<Longrightarrow> trace w' = trace w @ [Rename src dst]"
  by (auto simp: path_rename_def syscall_def split: if_splits option.splits)

lemma rename_once_trace:
  assumes "rename_once env current w = (r, w')"
  shows "\<exists>tr. trace w' = trace w @ tr \<and>
           (\<forall>ev\<in>set tr. (\<exists>a b. ev = Rename a b) \<or> (\<exists>d. ev = FsyncDir d))"
proof -
  obtain r1 w1 where rn: "rand_name_hex env 16 w = (r1, w1)" by (cases "rand_name_hex env 16 w")
  note q1 = rand_name_hex_quiet[OF rn]
  show ?thesis
  proof (cases r1)
    case (Inl e)
    then have "w' = w1" using assms rn by (simp add: rename_once_def)
    then show ?thesis using q1 by simp
  next
    case r1: (Inr new_name)
    show ?thesis
    proof (cases "with_name current new_name")
      case (Inl e)
      then have "w' = w1" using assms rn r1 by (simp add: rename_once_def)
      then show ?thesis using q1 by simp
    next
      case wn: (Inr candidate)
      obtain r2 w2 where cl: "candidate_loop env current candidate 0 w1 = (r2, w2)"
        by (cases "candidate_loop env current candidate 0 w1")
      note q2 = candidate_loop_quiet[OF cl]
      show ?thesis
      proof (cases r2)
        case (Inl e)
        then have "w' = w2" using assms rn r1 wn cl by (simp add: rename_once_def)
        then show ?thesis using q1 q2 by simp
      next
        case r2: (Inr cand)
        obtain r3 w3 where mv: "path_rename env current cand w2 = (r3, w3)"
          by (cases "path_rename env current cand w2")
        have t3: "trace w3 = trace w @ [Rename current cand]"
          using path_rename_trace[OF mv] q1 q2 by simp
        show ?thesis
        proof (cases r3)
          case (Inl e)
          then have "w' = w3" using assms rn r1 wn cl r2 mv by (simp add: rename_once_def)
          then show ?thesis using t3 by simp
        next
          case (Inr u)
          then have "w' = fsync_dir_best_effort (parent cand) w3"
            using assms rn r1 wn cl r2 mv by (simp add: rename_once_def)
          then have "trace w' = trace w @ [Rename current cand, FsyncDir (parent cand)]"
            using t3 by simp
          then show ?thesis by simp
        qed
      qed
    qed
  qed
qed

lemma rename_loop_trace:
  "rename_loop env n current w = (r, w') \<Longrightarrow>
   \<exists>tr. trace w' = trace w @ tr \<and>
      (\<forall>ev\<in>set tr. (\<exists>a b. ev = Rename a b) \<or> (\<exists>d. ev = FsyncDir d))"
proof (induction n arbitrary: current w)
  case 0
  then show ?case by simp
next
  case (Suc n)
  obtain r1 w1 where ro: "rename_once env current w = (r1, w1)" by (cases "rename_once env current w")
  from rename_once_trace[OF ro] obtain tr1 where t1: "trace w1 = trace w @ tr1"
    and a1: "\<forall>ev\<in>set tr1. (\<exists>a b. ev = Rename a b) \<or> (\<exists>d. ev = FsyncDir d)" by blast
  show ?case
  proof (cases r1)
    case (Inl e)
    then have "w' = w1" using Suc.prems ro by simp
    then show ?thesis using t1 a1 by blast
  next
    case (Inr c1)
    then have "rename_loop env n c1 w1 = (r, w')" using Suc.prems ro by simp
    from Suc.IH[OF this] obtain tr2 where t2: "trace w' = trace w1 @ tr2"
      and a2: "\<forall>ev\<in>set tr2. (\<exists>a b. ev = Rename a b) \<or> (\<exists>d. ev = FsyncDir d)" by blast
    have "trace w' = trace w @ (tr1 @ tr2)" using t1 t2 by simp
    moreover have "\<forall>ev\<in>set (tr1 @ tr2). (\<exists>a b. ev = Rename a b) \<or> (\<exists>d. ev = FsyncDir d)"
      using a1 a2 by auto
    ultimately show ?thesis by blast
  qed
qed

lemma truncate_best_effort_trace:
  "\<exists>tb. trace (truncate_best_effort env current w) = trace w @ tb \<and> tb \<noteq> [] \<and>
     (\<forall>ev\<in>set tb. is_truncate_stage ev) \<and>
     (\<forall>k<length tb. fault env (trace w @ take k tb) (tb ! k) \<longrightarrow> Suc k = length tb)"
proof -
  obtain r1 w1 where op: "open_rw env current w = (r1, w1)" by (cases "open_rw env current w")
  have t1: "trace w1 = trace w @ [Open current]"
    using op by (auto simp: open_rw_def syscall_def split: if_splits option.splits node.splits)
  show ?thesis
  proof (cases r1)
    case (Inl e)
    then have "truncate_best_effort env current w = w1" using op by (simp add: truncate_best_effort_def)
    then show ?thesis using t1 by (intro exI[of _ "[Open current]"]) simp
  next
    case r1: (Inr f)
    have n1: "\<not> fault env (trace w) (Open current)"
      using op r1 by (auto simp: open_rw_def syscall_def split: if_splits)
    obtain r2 w2 where tc: "file_truncate env f 0 w1 = (r2, w2)" by (cases "file_truncate env f 0 w1")
    have t2: "trace w2 = trace w @ [Open current, Truncate f]"
      using tc t1 by (auto simp: file_truncate_def syscall_def split: if_splits option.splits node.splits)
    show ?thesis
    proof (cases r2)
      case (Inl e)
      then have "truncate_best_effort env current w = w2"
        using op r1 tc by (simp add: truncate_best_effort_def)
      then show ?thesis using t2 n1
        by (intro exI[of _ "[Open current, Truncate f]"]) (simp add: less_Suc_eq)
    next
      case r2: (Inr u2)
      have n2: "\<not> fault env (trace w @ [Open current]) (Truncate f)"
        using tc r2 t1 by (auto simp: file_truncate_def syscall_def split: if_splits)
      obtain r3 w3 where fl: "file_flush env f w2 = (r3, w3)" by (cases "file_flush env f w2")
      have t3: "trace w3 = trace w @ [Open current, Truncate f, Flush f]"
        using fl t2 by (auto simp: file_flush_def syscall_def split: if_splits)
      show ?thesis
      proof (cases r3)
        case (Inl e)
        then have "truncate_best_effort env current w = w3"
          using op r1 tc r2 fl by (simp add: truncate_best_effort_def)
        then show ?thesis using t3 n1 n2
          by (intro exI[of _ "[Open current, Truncate f, Flush f]"]) (auto simp: less_Suc_eq)
      next
        case r3: (Inr u3)
        have n3: "\<not> fault env (trace w @ [Open current, Truncate f]) (Flush f)"
          using fl r3 t2 by (auto simp: file_flush_def syscall_def split: if_splits)
        have t4: "trace (snd (os_fsync env f w3))
                    = trace w @ [Open current, Truncate f, Flush f, Fsync f]"
          using t3 by (simp add: os_fsync_def syscall_def)
        have "truncate_best_effort env current w = snd (os_fsync env f w3)"
          using op r1 tc r2 fl r3 by (simp add: truncate_best_effort_def)
        then show ?thesis using t4 n1 n2 n3
          by (intro exI[of _ "[Open current, Truncate f, Flush f, Fsync f]"])
             (auto simp: less_Suc_eq)
      qed
    qed
  qed
qed

lemma path_unlink_cases:
  "path_unlink env p w = (r, w') \<Longrightarrow>
     trace w' = trace w @ [Unlink p] \<and> (\<forall>e. r = Inl e \<longrightarrow> raised_by e (Unlink p))"
  by (auto simp: path_unlink_def syscall_def split: if_splits option.splits node.splits)

lemma truncate_stage_swallowed:
  assumes r: "rename_truncate_unlink env path rp keep w = (res, w')"
    and t: "trace w' = trace w @ tr" and i: "i < length tr" and ts: "is_truncate_stage (tr ! i)"
  shows "Suc i < length tr \<and>
         (fault env (trace w @ take i tr) (tr ! i) \<longrightarrow> \<not> is_truncate_stage (tr ! Suc i)) \<and>
         res \<noteq> Inl (OSError (tr ! i)) \<and>
         (keep \<longrightarrow> (\<exists>final. res = Inr final)) \<and>
         (\<not> keep \<longrightarrow> (\<exists>j p. i < j \<and> j < length tr \<and> tr ! j = Unlink p \<and>
                          (\<forall>e. res = Inl e \<longrightarrow> Suc j = length tr \<and> raised_by e (Unlink p))))"
proof -
  let ?n = "nat (max 0 rp)"
  obtain r1 w1 where rl: "rename_loop env ?n path w = (r1, w1)"
    by (cases "rename_loop env ?n path w")
  from rename_loop_trace[OF rl] obtain tr1 where t1: "trace w1 = trace w @ tr1"
    and a1: "\<forall>ev\<in>set tr1. (\<exists>a b. ev = Rename a b) \<or> (\<exists>d. ev = FsyncDir d)" by blast
  have nts: "\<not> is_truncate_stage (tr1 ! k)" if "k < length tr1" for k
  proof -
    have "tr1 ! k \<in> set tr1" using that by simp
    then have "(\<exists>a b. tr1 ! k = Rename a b) \<or> (\<exists>d. tr1 ! k = FsyncDir d)" using a1 by blast
    then show ?thesis by auto
  qed
  show ?thesis
  proof (cases r1)
    case (Inl e)
    then have "w' = w1" using r rl by (simp add: rename_truncate_unlink_def)
    then have "tr = tr1" using t t1 by simp
    then have "\<not> is_truncate_stage (tr ! i)" using nts[of i] i by simp
    then show ?thesis using ts by simp
  next
    case r1: (Inr current)
    let ?w2 = "truncate_best_effort env current w1"
    from truncate_best_effort_trace[of env current w1] obtain tb where
      t2: "trace ?w2 = trace w1 @ tb" and ne: "tb \<noteq> []"
      and a2: "\<forall>ev\<in>set tb. is_truncate_stage ev"
      and f2: "\<forall>k<length tb. fault env (trace w1 @ take k tb) (tb ! k) \<longrightarrow> Suc k = length tb"
      by blast
    have "\<exists>rest. tr = tr1 @ tb @ rest \<and> rest \<noteq> [] \<and> (\<forall>ev\<in>set rest. \<not> is_truncate_stage ev) \<and>
        (keep \<longrightarrow> (\<exists>final. res = Inr final)) \<and>
        (\<not> keep \<longrightarrow> (\<exists>p. rest ! 0 = Unlink p \<and>
                      (\<forall>e. res = Inl e \<longrightarrow> length rest = 1 \<and> raised_by e (Unlink p))))"
    proof (cases keep)
      case True
      then have w': "w' = fsync_dir_best_effort (parent current) ?w2" and res: "res = Inr current"
        using r rl r1 by (simp_all add: rename_truncate_unlink_def Let_def)
      have "trace w' = trace w @ tr1 @ tb @ [FsyncDir (parent current)]"
        unfolding w' using t1 t2 by (simp add: fsync_dir_best_effort_def)
      then have "tr = tr1 @ tb @ [FsyncDir (parent current)]" using t by simp
      then show ?thesis using res True
        by (intro exI[of _ "[FsyncDir (parent current)]"]) simp
    next
      case False
      obtain r3 w3 where ul: "path_unlink env current ?w2 = (r3, w3)"
        by (cases "path_unlink env current ?w2")
      note u = path_unlink_cases[OF ul]
      have t3: "trace w3 = trace w @ tr1 @ tb @ [Unlink current]" using u t1 t2 by simp
      show ?thesis
      proof (cases r3)
        case (Inl e)
        then have w': "w' = w3" and res: "res = Inl e"
          using r rl r1 False ul by (simp_all add: rename_truncate_unlink_def Let_def)
        have tr: "tr = tr1 @ tb @ [Unlink current]" using t t3 w' by simp
        have rb: "raised_by e (Unlink current)" using u Inl by simp
        show ?thesis using tr res False rb
          by (intro exI[of _ "[Unlink current]"]) simp
      next
        case (Inr u3)
        then have w': "w' = fsync_dir_best_effort (parent current) w3" and res: "res = Inr current"
          using r rl r1 False ul by (simp_all add: rename_truncate_unlink_def Let_def)
        have "trace w' = trace w @ tr1 @ tb @ [Unlink current, FsyncDir (parent current)]"
          unfolding w' using t3 by (simp add: fsync_dir_best_effort_def)
        then have tr: "tr = tr1 @ tb @ [Unlink current, FsyncDir (parent current)]" using t by simp
        show ?thesis using tr res False
          by (intro exI[of _ "[Unlink current, FsyncDir (parent current)]"]) simp
      qed
    qed
    then obtain rest where tr: "tr = tr1 @ tb @ rest" and rne: "rest \<noteq> []"
      and a3: "\<forall>ev\<in>set rest. \<not> is_truncate_stage ev"
      and k3: "keep \<longrightarrow> (\<exists>final. res = Inr final)"
      and u3: "\<not> keep \<longrightarrow> (\<exists>p. rest ! 0 = Unlink p \<and>
                      (\<forall>e. res = Inl e \<longrightarrow> length rest = 1 \<and> raised_by e (Unlink p)))"
      by blast
    have lo: "length tr1 \<le> i"
    proof (rule ccontr)
      assume "\<not> length tr1 \<le> i"
      then have k: "i < length tr1" by simp
      then have "tr ! i = tr1 ! i" using tr by (simp add: nth_append)
      then show False using nts[OF k] ts by simp
    qed
    have hi: "i < length tr1 + length tb"
    proof (rule ccontr)
      assume h: "\<not> i < length tr1 + length tb"
      let ?m = "i - (length tr1 + length tb)"
      have m: "?m < length rest" using i h tr by auto
      have "tr ! i = (tb @ rest) ! (i - length tr1)" using lo tr by (simp add: nth_append)
      also have "\<dots> = rest ! ?m"
      proof -
        have "\<not> i - length tr1 < length tb" using h lo by linarith
        moreover have "i - length tr1 - length tb = ?m" by simp
        ultimately show ?thesis by (simp add: nth_append)
      qed
      finally have e: "tr ! i = rest ! ?m" .
      have "rest ! ?m \<in> set rest" using m by simp
      then have "\<not> is_truncate_stage (rest ! ?m)" using a3 by blast
      then show False using ts e by simp
    qed
    let ?k = "i - length tr1"
    let ?j = "length tr1 + length tb"
    have k: "?k < length tb" using lo hi by linarith
    have "tr ! i = (tb @ rest) ! ?k" using lo tr by (simp add: nth_append)
    then have ei: "tr ! i = tb ! ?k" using k by (simp add: nth_append)
    have ej: "tr ! ?j = rest ! 0" using tr by (simp add: nth_append)
    have lj: "?j < length tr" using tr rne by simp
    have c1: "Suc i < length tr" using hi lj by simp
    have c2: "\<not> is_truncate_stage (tr ! Suc i)"
      if f: "fault env (trace w @ take i tr) (tr ! i)"
    proof -
      have "take i tr = tr1 @ take ?k (tb @ rest)" using lo tr by simp
      then have "take i tr = tr1 @ take ?k tb" using k by simp
      then have "trace w @ take i tr = trace w1 @ take ?k tb" using t1 by simp
      then have "fault env (trace w1 @ take ?k tb) (tb ! ?k)" using f ei by simp
      then have "Suc ?k = length tb" using f2 k by blast
      then have "Suc i = ?j" using lo by linarith
      then have "tr ! Suc i = rest ! 0" using ej by simp
      moreover have "rest ! 0 \<in> set rest" using rne by simp
      ultimately show ?thesis using a3 by auto
    qed
    have c3: "res \<noteq> Inl (OSError (tr ! i))"
    proof
      assume h: "res = Inl (OSError (tr ! i))"
      then have nk: "\<not> keep" using k3 by auto
      then obtain p where "raised_by (OSError (tr ! i)) (Unlink p)" using u3 h by blast
      then have "tr ! i = Unlink p" by simp
      then show False using ts by simp
    qed
    have c5: "\<exists>j p. i < j \<and> j < length tr \<and> tr ! j = Unlink p \<and>
                (\<forall>e. res = Inl e \<longrightarrow> Suc j = length tr \<and> raised_by e (Unlink p))"
      if nk: "\<not> keep"
    proof -
      from u3 nk obtain p where p: "rest ! 0 = Unlink p"
        and q: "\<forall>e. res = Inl e \<longrightarrow> length rest = 1 \<and> raised_by e (Unlink p)" by blast
      have "\<forall>e. res = Inl e \<longrightarrow> Suc ?j = length tr \<and> raised_by e (Unlink p)"
        using q tr by auto
      then show ?thesis using hi lj ej p by (intro exI[of _ ?j] exI[of _ p]) simp
    qed
    show ?thesis
    proof (intro conjI impI)
      show "Suc i < length tr" by (rule c1)
      show "\<not> is_truncate_stage (tr ! Suc i)" if "fault env (trace w @ take i tr) (tr ! i)"
        using that by (rule c2)
      show "res \<noteq> Inl (OSError (tr ! i))" by (rule c3)
      show "\<exists>final. res = Inr final" if keep using that k3 by blast
      show "\<exists>j p. i < j \<and> j < length tr \<and> tr ! j = Unlink p \<and>
                (\<forall>e. res = Inl e \<longrightarrow> Suc j = length tr \<and> raised_by e (Unlink p))"
        if "\<not> keep" using that by (rule c5)
    qed
  qed
qed

section \<open>Failures of the rename and unlink calls\<close>

lemma path_rename_raised:
  "path_rename env src dst w = (Inl e, w') \<Longrightarrow> raised_by e (Rename src dst)"
  by (auto simp: path_rename_def syscall_def split: if_splits option.splits)

lemma candidate_loop_no_call_error:
  assumes "candidate_loop env current candidate tries w = (Inl e, w')"
  shows "\<not> call_error e"
proof
  assume c: "call_error e"
  have "ends w (Inl e :: error + Path, w')"
    using ends_candidate_loop[of w env current candidate tries] assms by simp
  then have "length (trace w) < length (trace w')" using c by (simp add: ends_def)
  moreover have "trace w' = trace w" using candidate_loop_quiet[OF assms] by simp
  ultimately show False by simp
qed

lemma rename_once_error_source:
  assumes r: "rename_once env current w = (Inl e, w')" and c: "call_error e"
  shows "\<exists>a b. raised_by e (Rename a b)"
proof -
  obtain r1 w1 where rn: "rand_name_hex env 16 w = (r1, w1)" by (cases "rand_name_hex env 16 w")
  show ?thesis
  proof (cases r1)
    case (Inl e1)
    then have "e = e1" using r rn by (simp add: rename_once_def)
    moreover have "\<exists>s. e1 = ValueError s"
      using rn Inl by (auto simp: rand_name_hex_def token_hex_def token_bytes_def split: if_splits)
    ultimately show ?thesis using c by auto
  next
    case r1: (Inr new_name)
    show ?thesis
    proof (cases "with_name current new_name")
      case (Inl e1)
      then have "e = e1" using r rn r1 by (simp add: rename_once_def)
      then show ?thesis using ends_with_name[OF Inl] c by simp
    next
      case wn: (Inr candidate)
      obtain r2 w2 where cl: "candidate_loop env current candidate 0 w1 = (r2, w2)"
        by (cases "candidate_loop env current candidate 0 w1")
      show ?thesis
      proof (cases r2)
        case (Inl e1)
        then have "e = e1" using r rn r1 wn cl by (simp add: rename_once_def)
        then show ?thesis using candidate_loop_no_call_error[OF cl[unfolded Inl]] c by simp
      next
        case r2: (Inr cand)
        obtain r3 w3 where mv: "path_rename env current cand w2 = (r3, w3)"
          by (cases "path_rename env current cand w2")
        show ?thesis
        proof (cases r3)
          case (Inl e1)
          then have "e = e1" using r rn r1 wn cl r2 mv by (simp add: rename_once_def)
          then show ?thesis using path_rename_raised[OF mv[unfolded Inl]] by blast
        next
          case (Inr u)
          then show ?thesis using r rn r1 wn cl r2 mv by (simp add: rename_once_def)
        qed
      qed
    qed
  qed
qed

lemma rename_loop_error_source:
  "rename_loop env n current w = (Inl e, w') \<Longrightarrow> call_error e \<Longrightarrow>
   \<exists>a b. raised_by e (Rename a b)"
proof (induction n arbitrary: current w)
  case 0
  then show ?case by simp
next
  case (Suc n)
  obtain r1 w1 where ro: "rename_once env current w = (r1, w1)" by (cases "rename_once env current w")
  show ?case
  proof (cases r1)
    case (Inl e1)
    then have "rename_once env current w = (Inl e, w1)" using Suc.prems(1) ro by simp
    then show ?thesis using Suc.prems(2) by (rule rename_once_error_source)
  next
    case (Inr c1)
    then have "rename_loop env n c1 w1 = (Inl e, w')" using Suc.prems(1) ro by simp
    then show ?thesis using Suc.prems(2) by (rule Suc.IH)
  qed
qed

lemma rename_truncate_unlink_error_source:
  assumes r: "rename_truncate_unlink env path rp keep w = (Inl e, w')" and c: "call_error e"
  shows "(\<exists>a b. raised_by e (Rename a b)) \<or> (\<exists>p. raised_by e (Unlink p))"
proof -
  let ?n = "nat (max 0 rp)"
  obtain r1 w1 where rl: "rename_loop env ?n path w = (r1, w1)"
    by (cases "rename_loop env ?n path w")
  show ?thesis
  proof (cases r1)
    case (Inl e1)
    then have "rename_loop env ?n path w = (Inl e, w1)"
      using r rl by (simp add: rename_truncate_unlink_def)
    then show ?thesis using c rename_loop_error_source by blast
  next
    case r1: (Inr current)
    let ?w2 = "truncate_best_effort env current w1"
    have nk: "\<not> keep" using r rl r1 by (auto simp: rename_truncate_unlink_def Let_def)
    obtain r3 w3 where ul: "path_unlink env current ?w2 = (r3, w3)"
      by (cases "path_unlink env current ?w2")
    have "r3 = Inl e"
      using r rl r1 nk ul by (cases r3) (simp_all add: rename_truncate_unlink_def Let_def)
    then have "raised_by e (Unlink current)" using path_unlink_cases[OF ul] by simp
    then show ?thesis by blast
  qed
qed

lemma rename_failure_propagates:
  assumes nm: "name current \<noteq> []"
  shows "\<exists>c w1. fs w1 = fs w \<and> trace w1 = trace w \<and> parent c = parent current \<and>
     length (name c) = 32 \<and>
     (\<forall>e w3. path_rename env current c w1 = (Inl e, w3)
              \<longrightarrow> rename_once env current w = (Inl e, w3)) \<and>
     (fs w current = Some (File bs) \<and> fs w c = Some Dir \<and>
      \<not> fault env (trace w) (Rename current c)
      \<longrightarrow> rename_once env current w
            = (Inl (IsADirectoryError c), w1\<lparr>trace := trace w @ [Rename current c]\<rparr>))"
proof -
  obtain n where rn: "rand_name_hex env 16 w = (Inr n, w\<lparr>rpos := rpos w + 16\<rparr>)"
    and n: "length n = 32" "CHR ''/'' \<notin> set n"
    using rand_name_hex_16_length[of env w] by blast
  let ?w0 = "w\<lparr>rpos := rpos w + 16\<rparr>"
  let ?c0 = "Path (parent current) n"
  have n0: "n \<noteq> []" using n(1) by auto
  have wn: "with_name current n = Inr ?c0" using nm n0 n(2) by (rule with_name_ok)
  from candidate_loop_bound[OF nm, of 0 ?c0 env ?w0] n(1)
  obtain c w1 k where a: "candidate_loop env current ?c0 0 ?w0 = (Inr c, w1)"
    "fs w1 = fs ?w0" "trace w1 = trace ?w0" "parent c = parent current" "length (name c) = 32"
    by auto
  have c1: "fs w1 = fs w" "trace w1 = trace w" using a(2,3) by simp_all
  have c4: "rename_once env current w =
             (case path_rename env current c w1 of
                (Inl e, w3) \<Rightarrow> (Inl e, w3)
              | (Inr u, w3) \<Rightarrow> (Inr c, fsync_dir_best_effort (parent c) w3))"
    using rn wn a(1) by (simp add: rename_once_def)
  have c5: "rename_once env current w = (Inl e, w3)"
    if "path_rename env current c w1 = (Inl e, w3)" for e w3
    unfolding c4 using that by simp
  have c6: "rename_once env current w
            = (Inl (IsADirectoryError c), w1\<lparr>trace := trace w @ [Rename current c]\<rparr>)"
    if h: "fs w current = Some (File bs) \<and> fs w c = Some Dir \<and>
           \<not> fault env (trace w) (Rename current c)"
  proof -
    have src: "fs w1 current = Some (File bs)" and dst: "fs w1 c = Some Dir"
      using h c1 by simp_all
    have ne: "current \<noteq> c" using h by auto
    have nofault: "\<not> fault env (trace w1) (Rename current c)" using h c1 by simp
    have "path_rename env current c w1
        = (Inl (IsADirectoryError c), w1\<lparr>trace := trace w1 @ [Rename current c]\<rparr>)"
      using src dst ne nofault by (simp add: path_rename_def syscall_def)
    then show ?thesis unfolding c4 using c1 by simp
  qed
  show ?thesis
    apply (rule exI[of _ c])
    apply (rule exI[of _ w1])
    using c1 a(4) a(5) c5 c6 apply blast
    done
qed

lemma rename_loop_failure:
  "rename_loop env k path w = (Inr current, wk) \<Longrightarrow> rename_once env current wk = (Inl e, w3) \<Longrightarrow>
   rename_loop env (k + Suc n) path w = (Inl e, w3)"
proof (induction k arbitrary: path w)
  case 0
  then show ?case by simp
next
  case (Suc k)
  obtain r1 w1 where ro: "rename_once env path w = (r1, w1)" by (cases "rename_once env path w")
  from Suc.prems(1) ro obtain c1 where r1: "r1 = Inr c1" by (cases r1) auto
  have "rename_loop env k c1 w1 = (Inr current, wk)" using Suc.prems(1) ro r1 by simp
  from Suc.IH[OF this Suc.prems(2)] show ?case using ro r1 by simp
qed

lemma deletion_failure_propagates:
  "(rename_loop env k path w = (Inr current, wk) \<and> rename_once env current wk = (Inl e, w3) \<and>
    nat (max 0 rp) = k + Suc n
    \<longrightarrow> rename_truncate_unlink env path rp keep w = (Inl e, w3)) \<and>
   (rename_loop env (nat (max 0 rp)) path w = (Inr current, w1) \<and>
    path_unlink env current (truncate_best_effort env current w1) = (Inl e, w3)
    \<longrightarrow> rename_truncate_unlink env path rp False w = (Inl e, w3))"
proof (intro conjI impI)
  assume h: "rename_loop env k path w = (Inr current, wk) \<and>
    rename_once env current wk = (Inl e, w3) \<and> nat (max 0 rp) = k + Suc n"
  then have "rename_loop env (k + Suc n) path w = (Inl e, w3)"
    by (intro rename_loop_failure[where current = current and wk = wk]) simp_all
  then show "rename_truncate_unlink env path rp keep w = (Inl e, w3)"
    using h by (simp add: rename_truncate_unlink_def)
next
  assume "rename_loop env (nat (max 0 rp)) path w = (Inr current, w1) \<and>
    path_unlink env current (truncate_best_effort env current w1) = (Inl e, w3)"
  then show "rename_truncate_unlink env path rp False w = (Inl e, w3)"
    by (simp add: rename_truncate_unlink_def Let_def)
qed

section \<open>Failures of file-system calls\<close>

lemma wipe_file_stages:
  assumes r: "wipe_file env path lo hi rnd cs v vs vl rp dc force keep w = Some (res, w')"
  shows "(\<exists>tr. trace w' = trace w @ tr \<and> (\<forall>ev\<in>set tr. \<not> is_deletion ev) \<and>
            (\<forall>i<length tr. fault env (trace w @ take i tr) (tr ! i) \<and> \<not> is_hint (tr ! i)
               \<longrightarrow> Suc i = length tr \<and> res = Inl (OSError (tr ! i)))) \<or>
         (\<exists>w3 r4 tr1. trace w3 = trace w @ tr1 \<and> (\<forall>ev\<in>set tr1. \<not> is_deletion ev) \<and>
            (\<forall>i<length tr1. \<not> is_hint (tr1 ! i)
               \<longrightarrow> \<not> fault env (trace w @ take i tr1) (tr1 ! i)) \<and>
            rename_truncate_unlink env path rp keep w3 = (r4, w') \<and>
            res = (case r4 of Inl e \<Rightarrow> Inl e | Inr final_path \<Rightarrow> Inr ()) \<and>
            (\<forall>e. res = Inl e \<longrightarrow> call_error e
               \<longrightarrow> (\<exists>a b. raised_by e (Rename a b)) \<or> (\<exists>p. raised_by e (Unlink p))))"
proof -
  let ?K = "\<lambda>ev. \<not> is_hint ev"
  from wipe_file_split[where K = ?K, OF _ r]
  consider (a) "run (\<lambda>ev. \<not> is_deletion ev) ?K env w (res, w')"
    | (b) w3 r4 where "run (\<lambda>ev. \<not> is_deletion ev) ?K env w (Inr () :: error + unit, w3)"
        "rename_truncate_unlink env path rp keep w3 = (r4, w')"
        "res = (case r4 of Inl e \<Rightarrow> Inl e | Inr final_path \<Rightarrow> Inr ())"
    by blast
  then show ?thesis
  proof cases
    case a
    then obtain tr where t: "trace w' = trace w @ tr" and d: "\<forall>ev\<in>set tr. \<not> is_deletion ev"
      and k: "\<forall>i<length tr. \<not> is_hint (tr ! i) \<longrightarrow> fault env (trace w @ take i tr) (tr ! i) \<longrightarrow>
               Suc i = length tr \<and> res = Inl (OSError (tr ! i))"
      unfolding run_def by auto
    have "\<forall>i<length tr. fault env (trace w @ take i tr) (tr ! i) \<and> \<not> is_hint (tr ! i)
               \<longrightarrow> Suc i = length tr \<and> res = Inl (OSError (tr ! i))"
      using k by blast
    then show ?thesis using t d by blast
  next
    case b
    from b(1) obtain tr1 where t: "trace w3 = trace w @ tr1"
      and d: "\<forall>ev\<in>set tr1. \<not> is_deletion ev"
      and k: "\<forall>i<length tr1. \<not> is_hint (tr1 ! i) \<longrightarrow> fault env (trace w @ take i tr1) (tr1 ! i) \<longrightarrow>
               Suc i = length tr1 \<and> (Inr () :: error + unit) = Inl (OSError (tr1 ! i))"
      unfolding run_def by auto
    have nf: "\<forall>i<length tr1. \<not> is_hint (tr1 ! i)
               \<longrightarrow> \<not> fault env (trace w @ take i tr1) (tr1 ! i)"
      using k by auto
    have src: "(\<exists>a b. raised_by e (Rename a b)) \<or> (\<exists>p. raised_by e (Unlink p))"
      if "res = Inl e" "call_error e" for e
    proof -
      have "r4 = Inl e" using that(1) b(3) by (cases r4) simp_all
      then have "rename_truncate_unlink env path rp keep w3 = (Inl e, w')" using b(2) by simp
      then show ?thesis using that(2) by (rule rename_truncate_unlink_error_source)
    qed
    have "\<exists>w3 r4 tr1. trace w3 = trace w @ tr1 \<and> (\<forall>ev\<in>set tr1. \<not> is_deletion ev) \<and>
            (\<forall>i<length tr1. \<not> is_hint (tr1 ! i)
               \<longrightarrow> \<not> fault env (trace w @ take i tr1) (tr1 ! i)) \<and>
            rename_truncate_unlink env path rp keep w3 = (r4, w') \<and>
            res = (case r4 of Inl e \<Rightarrow> Inl e | Inr final_path \<Rightarrow> Inr ()) \<and>
            (\<forall>e. res = Inl e \<longrightarrow> call_error e
               \<longrightarrow> (\<exists>a b. raised_by e (Rename a b)) \<or> (\<exists>p. raised_by e (Unlink p)))"
      apply (rule exI[of _ w3])
      apply (rule exI[of _ r4])
      apply (rule exI[of _ tr1])
      using t d nf b(2) b(3) src apply blast
      done
    then show ?thesis ..
  qed
qed

lemma run_trace: "run A K env w rw \<Longrightarrow> \<exists>tr. trace (snd rw) = trace w @ tr"
  unfolding run_def by blast

lemma ends_raised:
  assumes "ends w (Inl e, w')" "call_error e" "\<exists>tr. trace w' = trace w @ tr"
  shows "\<exists>tr. trace w' = trace w @ tr \<and> tr \<noteq> [] \<and> raised_by e (last tr)"
proof -
  from assms(3) obtain tr where t: "trace w' = trace w @ tr" by blast
  from ends_last[OF assms(1,2) t] show ?thesis using t by blast
qed

lemma overwrite_error_raised:
  assumes r: "overwrite_random_streaming env path passes cs v vs vl dc w = Some (Inl e, w')"
    and c: "call_error e"
  shows "\<exists>tr. trace w' = trace w @ tr \<and> tr \<noteq> [] \<and> raised_by e (last tr)"
proof -
  have "ends w (Inl e :: error + unit, w')"
    using ends_overwrite_random_streaming[of w env path passes cs v vs vl dc] r
    by (simp add: ends_opt_def)
  moreover have "run (\<lambda>ev. \<not> is_deletion ev) (\<lambda>ev. \<not> is_hint ev) env w (Inl e :: error + unit, w')"
    by (rule run_overwrite_random_streaming[OF _ _ r]) simp_all
  then have "\<exists>tr. trace w' = trace w @ tr" by (auto dest: run_trace)
  ultimately show ?thesis using c by (intro ends_raised)
qed

lemma deletion_error_raised:
  assumes r: "rename_truncate_unlink env path rp keep w = (Inl e, w')" and c: "call_error e"
  shows "\<exists>tr. trace w' = trace w @ tr \<and> tr \<noteq> [] \<and> raised_by e (last tr)"
proof -
  have "ends w (Inl e :: error + Path, w')"
    using ends_rename_truncate_unlink[of w env path rp keep] r by simp
  moreover have "run (\<lambda>ev. True) propagating env w (rename_truncate_unlink env path rp keep w)"
    by (rule run_rename_truncate_unlink) simp_all
  then have "\<exists>tr. trace w' = trace w @ tr" using r by (auto dest: run_trace)
  ultimately show ?thesis using c by (intro ends_raised)
qed

lemma wipe_error_raised:
  assumes r: "wipe_file env path lo hi rnd cs v vs vl rp dc force keep w = Some (Inl e, w')"
    and c: "call_error e"
  shows "w' = w \<or> (\<exists>tr. trace w' = trace w @ tr \<and> tr \<noteq> [] \<and> raised_by e (last tr))"
proof (cases "w' = w")
  case True
  then show ?thesis ..
next
  case False
  then have "ends w (Inl e :: error + unit, w')" using ends_wipe_file[OF r] by simp
  moreover have "run (\<lambda>ev. True) propagating env w (Inl e :: error + unit, w')"
    by (rule run_wipe_file[OF _ r]) simp
  then have "\<exists>tr. trace w' = trace w @ tr" by (auto dest: run_trace)
  ultimately have "\<exists>tr. trace w' = trace w @ tr \<and> tr \<noteq> [] \<and> raised_by e (last tr)"
    using c by (intro ends_raised)
  then show ?thesis ..
qed

text \<open>
  Claim C4, as amended. A failed call is a call \<open>tr ! i\<close> of the run that the
  environment makes fail. (1) In \<^verbatim>\<open>overwrite_random_streaming\<close> every failed call other
  than the two best-effort hints (so every \<^verbatim>\<open>stat\<close>, \<^verbatim>\<open>open\<close>, \<^verbatim>\<open>seek\<close>, \<^verbatim>\<open>write\<close>,
  \<^verbatim>\<open>flush\<close>, \<^verbatim>\<open>fsync\<close> and \<^verbatim>\<open>read\<close>) is the last call of the run and its \<open>OSError\<close> is the
  result. (2, 3) In \<^verbatim>\<open>rename_truncate_unlink\<close> and in \<^verbatim>\<open>wipe_file\<close> the same holds for
  every \<^verbatim>\<open>stat\<close>, \<^verbatim>\<open>seek\<close>, \<^verbatim>\<open>write\<close>, \<^verbatim>\<open>read\<close>, \<^verbatim>\<open>rename\<close> and \<^verbatim>\<open>unlink\<close> call. (4) A run
  of \<^verbatim>\<open>wipe_file\<close> either ends before the deletion sequence, and then every failed call
  other than a hint, \<^verbatim>\<open>open\<close>, \<^verbatim>\<open>flush\<close> and \<^verbatim>\<open>fsync\<close> included, is its last call and its
  result; or it reaches the deletion sequence after calls of which none but a hint
  failed, its result is that of the deletion sequence, and an error of a call there
  is one of a \<^verbatim>\<open>rename\<close> or \<^verbatim>\<open>unlink\<close>. (5) The loop of \<^verbatim>\<open>main\<close> turns the failure of a
  target into exit code 1 and goes on with the remaining targets. (6) The truncate
  stage swallows its failures: after every \<^verbatim>\<open>open\<close>, \<^verbatim>\<open>truncate\<close>, \<^verbatim>\<open>flush\<close> or \<^verbatim>\<open>fsync\<close>
  call of the deletion sequence another call follows; if the call failed, the next
  call is outside the truncate stage; its failure is never the result; with \<open>keep\<close>
  the sequence returns normally, and without \<open>keep\<close> an \<^verbatim>\<open>unlink\<close> call follows, the
  only call whose error can still be the result. (7, 8, 9) Whatever made a call fail,
  the environment or the file system itself: when \<^verbatim>\<open>overwrite_random_streaming\<close>,
  \<^verbatim>\<open>rename_truncate_unlink\<close> or \<^verbatim>\<open>wipe_file\<close> ends with the error of a file-system call,
  that call is the last call of the run (\<^verbatim>\<open>wipe_file\<close> may also refuse a path before any
  call, in an unchanged world). (10) A rename pass calls \<^verbatim>\<open>rename\<close> onto one candidate;
  whatever error that call returns is the result of the pass, in the world right
  after the call; in particular a candidate that is a directory makes the pass fail
  with \<open>IsADirectoryError\<close> after that one call. (11) A failed rename pass, after any
  number of passes that succeeded, and a failed \<^verbatim>\<open>unlink\<close> are the result of the
  deletion sequence.
\<close>

theorem io_failure_propagation:
  "(overwrite_random_streaming env path passes chunk_size verify verify_samples verify_len
      drop_cache_linux w = Some (res, w') \<and>
    trace w' = trace w @ tr \<and> i < length tr \<and> fault env (trace w @ take i tr) (tr ! i) \<and>
    \<not> is_hint (tr ! i)
    \<longrightarrow> Suc i = length tr \<and> res = Inl (OSError (tr ! i))) \<and>
   (rename_truncate_unlink env path rename_passes keep w = (res', w') \<and>
    trace w' = trace w @ tr \<and> i < length tr \<and> fault env (trace w @ take i tr) (tr ! i) \<and>
    propagating (tr ! i)
    \<longrightarrow> Suc i = length tr \<and> res' = Inl (OSError (tr ! i))) \<and>
   (wipe_file env path min_passes max_passes randomize_pass_count chunk_size verify
      verify_samples verify_len rename_passes drop_cache_linux force keep w = Some (res, w') \<and>
    trace w' = trace w @ tr \<and> i < length tr \<and> fault env (trace w @ take i tr) (tr ! i) \<and>
    propagating (tr ! i)
    \<longrightarrow> Suc i = length tr \<and> res = Inl (OSError (tr ! i))) \<and>
   (wipe_file env path min_passes max_passes randomize_pass_count chunk_size verify
      verify_samples verify_len rename_passes drop_cache_linux force keep w = Some (res, w')
    \<longrightarrow> (\<exists>tr. trace w' = trace w @ tr \<and> (\<forall>ev\<in>set tr. \<not> is_deletion ev) \<and>
            (\<forall>i<length tr. fault env (trace w @ take i tr) (tr ! i) \<and> \<not> is_hint (tr ! i)
               \<longrightarrow> Suc i = length tr \<and> res = Inl (OSError (tr ! i)))) \<or>
        (\<exists>w3 r4 tr1. trace w3 = trace w @ tr1 \<and> (\<forall>ev\<in>set tr1. \<not> is_deletion ev) \<and>
            (\<forall>i<length tr1. \<not> is_hint (tr1 ! i)
               \<longrightarrow> \<not> fault env (trace w @ take i tr1) (tr1 ! i)) \<and>
            rename_truncate_unlink env path rename_passes keep w3 = (r4, w') \<and>
            res = (case r4 of Inl e \<Rightarrow> Inl e | Inr final_path \<Rightarrow> Inr ()) \<and>
            (\<forall>e. res = Inl e \<longrightarrow> call_error e
               \<longrightarrow> (\<exists>a b. raised_by e (Rename a b)) \<or> (\<exists>p. raised_by e (Unlink p))))) \<and>
   (wipe_file env path (args_min_passes a) (args_max_passes a)
      (\<not> args_no_randomize_pass_count a) (max 4096 (args_chunk a)) (args_verify a)
      (max 1 (args_verify_samples a)) (max 1 (args_verify_len a))
      (max 0 (args_rename_passes a)) (args_drop_cache a) (args_force a) (args_keep a) w
        = Some (Inl e, w')
    \<longrightarrow> main_loop env a (path # ts) exit_code w = main_loop env a ts 1 w') \<and>
   (rename_truncate_unlink env path rename_passes keep w = (res', w') \<and>
    trace w' = trace w @ tr \<and> i < length tr \<and> is_truncate_stage (tr ! i)
    \<longrightarrow> Suc i < length tr \<and>
        (fault env (trace w @ take i tr) (tr ! i) \<longrightarrow> \<not> is_truncate_stage (tr ! Suc i)) \<and>
        res' \<noteq> Inl (OSError (tr ! i)) \<and>
        (keep \<longrightarrow> (\<exists>final. res' = Inr final)) \<and>
        (\<not> keep \<longrightarrow> (\<exists>j p. i < j \<and> j < length tr \<and> tr ! j = Unlink p \<and>
                         (\<forall>e. res' = Inl e \<longrightarrow> Suc j = length tr \<and> raised_by e (Unlink p))))) \<and>
   (overwrite_random_streaming env path passes chunk_size verify verify_samples verify_len
      drop_cache_linux w = Some (Inl e, w') \<and> call_error e
    \<longrightarrow> (\<exists>tr. trace w' = trace w @ tr \<and> tr \<noteq> [] \<and> raised_by e (last tr))) \<and>
   (rename_truncate_unlink env path rename_passes keep w = (Inl e, w') \<and> call_error e
    \<longrightarrow> (\<exists>tr. trace w' = trace w @ tr \<and> tr \<noteq> [] \<and> raised_by e (last tr))) \<and>
   (wipe_file env path min_passes max_passes randomize_pass_count chunk_size verify
      verify_samples verify_len rename_passes drop_cache_linux force keep w = Some (Inl e, w') \<and>
    call_error e
    \<longrightarrow> w' = w \<or> (\<exists>tr. trace w' = trace w @ tr \<and> tr \<noteq> [] \<and> raised_by e (last tr))) \<and>
   (name path \<noteq> []
    \<longrightarrow> (\<exists>c w1. fs w1 = fs w \<and> trace w1 = trace w \<and> parent c = parent path \<and>
           length (name c) = 32 \<and>
           (\<forall>e w3. path_rename env path c w1 = (Inl e, w3)
                    \<longrightarrow> rename_once env path w = (Inl e, w3)) \<and>
           (fs w path = Some (File bs) \<and> fs w c = Some Dir \<and>
            \<not> fault env (trace w) (Rename path c)
            \<longrightarrow> rename_once env path w
                  = (Inl (IsADirectoryError c), w1\<lparr>trace := trace w @ [Rename path c]\<rparr>)))) \<and>
   (rename_loop env k path w = (Inr current, wk) \<and> rename_once env current wk = (Inl e, w3) \<and>
    nat (max 0 rename_passes) = k + Suc n
    \<longrightarrow> rename_truncate_unlink env path rename_passes keep w = (Inl e, w3)) \<and>
   (rename_loop env (nat (max 0 rename_passes)) path w = (Inr current, w1) \<and>
    path_unlink env current (truncate_best_effort env current w1) = (Inl e, w3)
    \<longrightarrow> rename_truncate_unlink env path rename_passes False w = (Inl e, w3))"
proof -
  have c1: "Suc i = length tr \<and> res = Inl (OSError (tr ! i))"
    if h: "overwrite_random_streaming env path passes chunk_size verify verify_samples
            verify_len drop_cache_linux w = Some (res, w') \<and>
      trace w' = trace w @ tr \<and> i < length tr \<and> fault env (trace w @ take i tr) (tr ! i) \<and>
      \<not> is_hint (tr ! i)"
  proof -
    have b: "overwrite_random_streaming env path passes chunk_size verify verify_samples
            verify_len drop_cache_linux w = Some (res, w')" using h by blast
    have "run (\<lambda>ev. \<not> is_deletion ev) (\<lambda>ev. \<not> is_hint ev) env w (res, w')"
      by (rule run_overwrite_random_streaming[OF _ _ b]) simp_all
    then show ?thesis using h by (intro run_failed_call) blast+
  qed
  have c2: "Suc i = length tr \<and> res' = Inl (OSError (tr ! i))"
    if h: "rename_truncate_unlink env path rename_passes keep w = (res', w') \<and>
      trace w' = trace w @ tr \<and> i < length tr \<and> fault env (trace w @ take i tr) (tr ! i) \<and>
      propagating (tr ! i)"
  proof -
    have "run (\<lambda>ev. True) propagating env w
            (rename_truncate_unlink env path rename_passes keep w)"
      by (rule run_rename_truncate_unlink) simp_all
    then have "run (\<lambda>ev. True) propagating env w (res', w')" using h by simp
    then show ?thesis using h by (intro run_failed_call) blast+
  qed
  have c3: "Suc i = length tr \<and> res = Inl (OSError (tr ! i))"
    if h: "wipe_file env path min_passes max_passes randomize_pass_count chunk_size verify
            verify_samples verify_len rename_passes drop_cache_linux force keep w = Some (res, w') \<and>
      trace w' = trace w @ tr \<and> i < length tr \<and> fault env (trace w @ take i tr) (tr ! i) \<and>
      propagating (tr ! i)"
  proof -
    have b: "wipe_file env path min_passes max_passes randomize_pass_count chunk_size verify
            verify_samples verify_len rename_passes drop_cache_linux force keep w = Some (res, w')"
      using h by blast
    have "run (\<lambda>ev. True) propagating env w (res, w')"
      by (rule run_wipe_file[OF _ b]) simp
    then show ?thesis using h by (intro run_failed_call) blast+
  qed
  note c4 = wipe_file_stages[of env path min_passes max_passes randomize_pass_count chunk_size
      verify verify_samples verify_len rename_passes drop_cache_linux force keep w res w']
  have c5: "main_loop env a (path # ts) exit_code w = main_loop env a ts 1 w'"
    if "wipe_file env path (args_min_passes a) (args_max_passes a)
            (\<not> args_no_randomize_pass_count a) (max 4096 (args_chunk a)) (args_verify a)
            (max 1 (args_verify_samples a)) (max 1 (args_verify_len a))
            (max 0 (args_rename_passes a)) (args_drop_cache a) (args_force a) (args_keep a) w
              = Some (Inl e, w')"
    using that by simp
  have c6: "Suc i < length tr \<and>
        (fault env (trace w @ take i tr) (tr ! i) \<longrightarrow> \<not> is_truncate_stage (tr ! Suc i)) \<and>
        res' \<noteq> Inl (OSError (tr ! i)) \<and>
        (keep \<longrightarrow> (\<exists>final. res' = Inr final)) \<and>
        (\<not> keep \<longrightarrow> (\<exists>j p. i < j \<and> j < length tr \<and> tr ! j = Unlink p \<and>
                         (\<forall>e. res' = Inl e \<longrightarrow> Suc j = length tr \<and> raised_by e (Unlink p))))"
    if h: "rename_truncate_unlink env path rename_passes keep w = (res', w') \<and>
      trace w' = trace w @ tr \<and> i < length tr \<and> is_truncate_stage (tr ! i)"
    using h by (intro truncate_stage_swallowed[where w' = w']) blast+
  have c7: "\<exists>tr. trace w' = trace w @ tr \<and> tr \<noteq> [] \<and> raised_by e (last tr)"
    if h: "overwrite_random_streaming env path passes chunk_size verify verify_samples verify_len
      drop_cache_linux w = Some (Inl e, w') \<and> call_error e"
    using h by (intro overwrite_error_raised[where path = path]) blast+
  have c8: "\<exists>tr. trace w' = trace w @ tr \<and> tr \<noteq> [] \<and> raised_by e (last tr)"
    if h: "rename_truncate_unlink env path rename_passes keep w = (Inl e, w') \<and> call_error e"
    using h by (intro deletion_error_raised[where path = path]) blast+
  have c9: "w' = w \<or> (\<exists>tr. trace w' = trace w @ tr \<and> tr \<noteq> [] \<and> raised_by e (last tr))"
    if h: "wipe_file env path min_passes max_passes randomize_pass_count chunk_size verify
      verify_samples verify_len rename_passes drop_cache_linux force keep w = Some (Inl e, w') \<and>
      call_error e"
    using h by (intro wipe_error_raised[where path = path]) blast+
  note c10 = rename_failure_propagates[of path w env bs]
  note c11 = deletion_failure_propagates[of env k path w current wk e w3 rename_passes n keep w1]
  show ?thesis
    apply (intro conjI)
    subgoal using c1 by blast
    subgoal using c2 by blast
    subgoal using c3 by blast
    subgoal using c4 by blast
    subgoal using c5 by blast
    subgoal using c6 by blast
    subgoal using c7 by blast
    subgoal using c8 by blast
    subgoal using c9 by blast
    subgoal using c10 by blast
    subgoal using c11 by blast
    subgoal using c11 by blast
    done
qed

theorem io_failure_propagation_witness:
  "fst (the (wipe_file write_fails_env (Path ''/tmp'' ''a.bin'') 1 1 False 4 False 1 1 0 False
               True False example_world))
     = Inl (OSError (Write (Path ''/tmp'' ''a.bin'') 0 4)) \<and>
   length (trace (snd (the (wipe_file write_fails_env (Path ''/tmp'' ''a.bin'') 1 1 False 4 False
                              1 1 0 False True False example_world)))) = 5 \<and>
   fst (the (wipe_file fsync_fails_env (Path ''/tmp'' ''a.bin'') 1 1 False 4 False 1 1 0 False
               True False example_world))
     = Inl (OSError (Fsync (Path ''/tmp'' ''a.bin''))) \<and>
   filter is_deletion
     (trace (snd (the (wipe_file fsync_fails_env (Path ''/tmp'' ''a.bin'') 1 1 False 4 False 1 1 0
                         False True False example_world)))) = [] \<and>
   fst (rename_truncate_unlink truncate_fails_env (Path ''/tmp'' ''a.bin'') 0 False example_world)
     \<noteq> Inl (OSError (Truncate (Path ''/tmp'' ''a.bin''))) \<and>
   (\<exists>c w'. rename_once example_env (Path ''/tmp'' ''a.bin'') dir_crowded_world
             = (Inl (IsADirectoryError c), w') \<and>
           trace w' = [Rename (Path ''/tmp'' ''a.bin'') c])"
proof -
  let ?P = "Path ''/tmp'' ''a.bin''"
  let ?r = "wipe_file write_fails_env ?P 1 1 False 4 False 1 1 0 False True False example_world"
  let ?tr = "[Stat ?P, Stat ?P, Open ?P, Seek ?P 0, Write ?P 0 4]"
  have some: "case ?r of None \<Rightarrow> False | Some rw \<Rightarrow> True" by code_simp
  then obtain res w' where eq: "?r = Some (res, w')" by (cases ?r) auto
  have "trace (snd (the ?r)) = ?tr" by code_simp
  then have t: "trace w' = trace example_world @ ?tr" using eq by (simp add: example_world_def)
  have i: "4 < length ?tr" by simp
  have f: "fault write_fails_env (trace example_world @ take 4 ?tr) (?tr ! 4)"
    by (simp add: write_fails_env_def)
  have p: "propagating (?tr ! 4)" by simp
  have h1: "?r = Some (res, w') \<and> trace w' = trace example_world @ ?tr \<and> 4 < length ?tr \<and>
            fault write_fails_env (trace example_world @ take 4 ?tr) (?tr ! 4) \<and>
            propagating (?tr ! 4)"
    using eq t i f p by blast
  from io_failure_propagation[THEN conjunct2, THEN conjunct2, THEN conjunct1, rule_format, OF h1]
  have "Suc 4 = length ?tr \<and> res = Inl (OSError (?tr ! 4))" .
  then have w1: "fst (the ?r) = Inl (OSError (Write ?P 0 4)) \<and> length (trace (snd (the ?r))) = 5"
    using eq t by (simp add: example_world_def)
  let ?r2 = "wipe_file fsync_fails_env ?P 1 1 False 4 False 1 1 0 False True False example_world"
  have some2: "case ?r2 of None \<Rightarrow> False | Some rw \<Rightarrow> True" by code_simp
  have res2: "fst (the ?r2) = Inl (OSError (Fsync ?P))" by code_simp
  from some2 res2 obtain w2 where eq2: "?r2 = Some (Inl (OSError (Fsync ?P)), w2)"
    by (cases ?r2) auto
  from io_failure_propagation[THEN conjunct2, THEN conjunct2, THEN conjunct2, THEN conjunct1,
      rule_format, OF eq2]
  consider (a) tr where "trace w2 = trace example_world @ tr" "\<forall>ev\<in>set tr. \<not> is_deletion ev"
    | (b) "\<forall>e. (Inl (OSError (Fsync ?P)) :: error + unit) = Inl e \<longrightarrow> call_error e
               \<longrightarrow> (\<exists>a b. raised_by e (Rename a b)) \<or> (\<exists>p. raised_by e (Unlink p))"
    by blast
  then have "\<forall>ev\<in>set (trace w2). \<not> is_deletion ev"
  proof cases
    case a
    then show ?thesis by (simp add: example_world_def)
  next
    case b
    then have "(\<exists>a b. raised_by (OSError (Fsync ?P)) (Rename a b)) \<or>
               (\<exists>p. raised_by (OSError (Fsync ?P)) (Unlink p))" by simp
    then show ?thesis by simp
  qed
  then have "filter is_deletion (trace w2) = []" by (simp add: filter_empty_conv)
  then have w2: "fst (the ?r2) = Inl (OSError (Fsync ?P)) \<and>
                 filter is_deletion (trace (snd (the ?r2))) = []"
    using res2 eq2 by simp
  let ?r3 = "rename_truncate_unlink truncate_fails_env ?P 0 False example_world"
  let ?t3 = "[Open ?P, Truncate ?P, Unlink ?P, FsyncDir ''/tmp'']"
  have "trace (snd ?r3) = ?t3" by code_simp
  then have h3: "?r3 = (fst ?r3, snd ?r3) \<and> trace (snd ?r3) = trace example_world @ ?t3 \<and>
                 1 < length ?t3 \<and> is_truncate_stage (?t3 ! 1)"
    by (simp add: example_world_def)
  from io_failure_propagation[THEN conjunct2, THEN conjunct2, THEN conjunct2, THEN conjunct2,
      THEN conjunct2, THEN conjunct1, rule_format, OF h3]
  have w3: "fst ?r3 \<noteq> Inl (OSError (Truncate ?P))" by simp
  have nm: "name ?P \<noteq> []" by simp
  from io_failure_propagation[THEN conjunct2, THEN conjunct2, THEN conjunct2, THEN conjunct2,
      THEN conjunct2, THEN conjunct2, THEN conjunct2, THEN conjunct2, THEN conjunct2,
      THEN conjunct1, rule_format, OF nm, of dir_crowded_world example_env "[7]"]
  obtain c w1 where c: "trace w1 = trace dir_crowded_world" "length (name c) = 32"
    "fs dir_crowded_world ?P = Some (File [7]) \<and> fs dir_crowded_world c = Some Dir \<and>
     \<not> fault example_env (trace dir_crowded_world) (Rename ?P c)
     \<longrightarrow> rename_once example_env ?P dir_crowded_world
           = (Inl (IsADirectoryError c),
              w1\<lparr>trace := trace dir_crowded_world @ [Rename ?P c]\<rparr>)"
    by blast
  have ne: "c \<noteq> ?P" using c(2) by auto
  have "fs dir_crowded_world ?P = Some (File [7]) \<and> fs dir_crowded_world c = Some Dir \<and>
     \<not> fault example_env (trace dir_crowded_world) (Rename ?P c)"
    using ne by (simp add: dir_crowded_world_def example_env_def)
  then have "rename_once example_env ?P dir_crowded_world
           = (Inl (IsADirectoryError c),
              w1\<lparr>trace := trace dir_crowded_world @ [Rename ?P c]\<rparr>)"
    using c(3) by blast
  moreover have "trace (w1\<lparr>trace := trace dir_crowded_world @ [Rename ?P c]\<rparr>) = [Rename ?P c]"
    by (simp add: dir_crowded_world_def)
  ultimately have w4: "\<exists>c w'. rename_once example_env ?P dir_crowded_world
             = (Inl (IsADirectoryError c), w') \<and> trace w' = [Rename ?P c]"
    by blast
  show ?thesis using w1 w2 w3 w4 by blast
qed

text \<open>
  The claim as stated fails in the truncate stage: the \<^verbatim>\<open>truncate\<close> call fails, the
  deletion sequence goes on to \<^verbatim>\<open>unlink\<close> and returns normally.
\<close>

theorem truncate_failure_swallowed:
  "fault truncate_fails_env [Open (Path ''/tmp'' ''a.bin'')] (Truncate (Path ''/tmp'' ''a.bin'')) \<and>
   fst (rename_truncate_unlink truncate_fails_env (Path ''/tmp'' ''a.bin'') 0 False example_world)
     = Inr (Path ''/tmp'' ''a.bin'') \<and>
   trace (snd (rename_truncate_unlink truncate_fails_env (Path ''/tmp'' ''a.bin'') 0 False
                 example_world))
     = [Open (Path ''/tmp'' ''a.bin''), Truncate (Path ''/tmp'' ''a.bin''),
        Unlink (Path ''/tmp'' ''a.bin''), FsyncDir ''/tmp'']"
  by code_simp

end
